(* ===== verification/Prelude.thy ===== *)
theory Prelude
  imports Complex_Main "HOL-Library.Word" "HOL-Library.Monad_Syntax"
begin

text \<open>
  Shared vocabulary of the development: bytes, C memory and C strings as lists, 32- and 64-bit
  words and their byte images in host and in network order (\<open>lo/lo_endian.h.in\<close>), the constants of
  \<open>lo/lo_errors.h\<close>, \<open>lo/lo_macros.h\<close> and \<open>lo/lo_osc_types.h\<close>, and the generic lemmas the
  component theories use.

  Conventions. A byte is a \<open>char\<close>. A pointer into a buffer is the list of the bytes from the
  pointer to the end of the allocation, so that reading past the allocation is visible: a function
  that may read out of bounds (or dereference NULL) returns an \<open>option\<close> whose \<open>None\<close> is that
  undefined behaviour. A pointer that may be NULL is a value of \<open>ptr\<close>. A C string that is a
  parameter (a path, a type string) is the list of its bytes before the terminator. The
  configure-time constant \<open>LO_BIGENDIAN\<close> is the parameter \<open>be\<close> of every definition that depends
  on the byte order of the host.
\<close>

section \<open>Collections\<close>

named_theorems wire_simps "lengths and round trips of byte images"
named_theorems ctype_simps "facts on the type characters"

section \<open>Bytes, pointers, allocation\<close>

type_synonym byte = char
type_synonym u32 = "32 word"
type_synonym u64 = "64 word"

abbreviation NUL :: byte where "NUL \<equiv> CHR 0x00"

datatype 'a ptr = NULL | Ref 'a

text \<open>
  The C allocator is outside the repository's control: an operation that allocates takes an
  \<open>alloc\<close>, which says for each allocation site and size whether the call succeeds and what bytes
  the fresh memory holds. \<open>alloc_ok\<close> is what \<open>malloc\<close> documents of its result.
\<close>

datatype site = At_struct | At_types | At_data | At_argv

type_synonym alloc = "site \<Rightarrow> nat \<Rightarrow> byte list option"

definition alloc_ok :: "alloc \<Rightarrow> bool" where
  "alloc_ok al \<longleftrightarrow> (\<forall>s n bs. al s n = Some bs \<longrightarrow> length bs = n)"

text \<open>An allocator that never fails and hands out zeroed memory, for concrete runs.\<close>

definition al_zero :: alloc where
  "al_zero s n = Some (replicate n NUL)"

definition calloc :: "alloc \<Rightarrow> site \<Rightarrow> nat \<Rightarrow> byte list option" where
  "calloc al s n = map_option (\<lambda>_. replicate n NUL) (al s n)"

definition realloc :: "alloc \<Rightarrow> site \<Rightarrow> byte list \<Rightarrow> nat \<Rightarrow> byte list option" where
  "realloc al s old n = map_option (\<lambda>fresh. take n old @ drop (length old) fresh) (al s n)"

definition strdup :: "alloc \<Rightarrow> byte list ptr \<Rightarrow> byte list ptr" where
  "strdup al s =
     (case s of NULL \<Rightarrow> NULL
      | Ref t \<Rightarrow> if al At_data (length t + 1) = None then NULL else Ref t)"

text \<open>
  A write of \<open>bs\<close> at offset \<open>off\<close> of a buffer. A write past the end of the buffer makes the list
  longer than the allocation, so that the buffer invariants of the components exclude it.
\<close>

definition poke :: "byte list \<Rightarrow> nat \<Rightarrow> byte list \<Rightarrow> byte list" where
  "poke buf off bs = take off buf @ bs @ drop (off + length bs) buf"

lemma alloc_ok_al_zero [simp]: "alloc_ok al_zero"
  by (auto simp: alloc_ok_def al_zero_def)

lemma length_realloc:
  "alloc_ok al \<Longrightarrow> realloc al s old n = Some new \<Longrightarrow> length new = n"
  by (auto simp: realloc_def alloc_ok_def)

lemma take_realloc:
  assumes "realloc al s old n = Some new" and "k \<le> n" and "k \<le> length old"
  shows "take k new = take k old"
  using assms by (auto simp: realloc_def)

definition alloc_total :: "alloc \<Rightarrow> bool" where
  "alloc_total al \<longleftrightarrow> alloc_ok al \<and> (\<forall>s n. al s n \<noteq> None)"

lemma alloc_total_al_zero [simp]: "alloc_total al_zero"
  by (simp add: alloc_total_def) (simp add: al_zero_def)

lemma alloc_total_ok: "alloc_total al \<Longrightarrow> alloc_ok al"
  by (simp add: alloc_total_def)

lemma realloc_total: "alloc_total al \<Longrightarrow> \<exists>new. realloc al s old n = Some new"
  by (auto simp: alloc_total_def realloc_def)

lemma length_poke: "off + length bs \<le> length buf \<Longrightarrow> length (poke buf off bs) = length buf"
  by (simp add: poke_def)

lemma take_poke: "k \<le> off \<Longrightarrow> off \<le> length buf \<Longrightarrow> take k (poke buf off bs) = take k buf"
  by (simp add: poke_def min_def)

lemma take_poke_end:
  "off \<le> length buf \<Longrightarrow> take (off + length bs) (poke buf off bs) = take off buf @ bs"
  by (simp add: poke_def)

lemma drop_poke: "off + length bs \<le> k \<Longrightarrow> off + length bs \<le> length buf \<Longrightarrow> drop k (poke buf off bs) = drop k buf"
  by (simp add: poke_def)

lemma nth_poke:
  "off + length bs \<le> length buf \<Longrightarrow> i < length buf \<Longrightarrow>
   poke buf off bs ! i = (if off \<le> i \<and> i < off + length bs then bs ! (i - off) else buf ! i)"
  by (auto simp: poke_def nth_append min_def)

text \<open>Adjacent writes are one write.\<close>

lemma poke_append:
  assumes "off + length x + length y \<le> length buf"
  shows "poke (poke buf off x) (off + length x) y = poke buf off (x @ y)"
  using assms by (intro nth_equalityI) (auto simp: length_poke nth_poke nth_append)

text \<open>Clearing the last four bytes of a field of \<open>n\<close> bytes before it is filled zeroes its padding.\<close>

lemma poke_cleared:
  assumes "4 \<le> n" "n \<le> length x + 4" "length x \<le> n" "off + n \<le> length buf"
  shows "poke (poke buf (off + n - 4) (replicate 4 NUL)) off x = poke buf off (x @ replicate (n - length x) NUL)"
  using assms by (intro nth_equalityI) (auto simp: length_poke nth_poke nth_append)

lemma poke_0: "length bs \<le> length buf \<Longrightarrow> poke buf 0 bs = bs @ drop (length bs) buf"
  by (simp add: poke_def)

text \<open>
  Objects with identity live in a store: the address of an object is its index, a freed address
  holds \<open>None\<close>, and a fresh object goes to a new address.
\<close>

definition deref :: "'a option list \<Rightarrow> nat \<Rightarrow> 'a option" where
  "deref st a = (if a < length st then st ! a else None)"

lemma deref_Some_bound: "deref st a = Some x \<Longrightarrow> a < length st"
  by (simp add: deref_def split: if_splits)

lemma deref_update: "deref (st[a := x]) c = (if c = a \<and> a < length st then x else deref st c)"
  by (simp add: deref_def)

lemma deref_fresh: "deref (st @ [Some x]) c = (if c = length st then Some x else deref st c)"
  by (auto simp: deref_def nth_append)

section \<open>C strings\<close>

text \<open>The C string at a pointer: \<open>None\<close> if no terminator is found before the allocation ends.\<close>

fun cstr :: "byte list \<Rightarrow> byte list option" where
  "cstr [] = None"
| "cstr (b # bs) = (if b = NUL then Some [] else map_option ((#) b) (cstr bs))"

text \<open>\<open>strcmp(p, s) == 0\<close> for a pointer \<open>p\<close> and a constant string \<open>s\<close>, reading no further than needed.\<close>

fun str_eq :: "byte list \<Rightarrow> byte list \<Rightarrow> bool option" where
  "str_eq [] s = None"
| "str_eq (b # bs) [] = Some (b = NUL)"
| "str_eq (b # bs) (c # cs) = (if b = c then str_eq bs cs else Some False)"

definition lo_strsize :: "byte list \<Rightarrow> nat" where
  "lo_strsize s = 4 * (length s div 4 + 1)"

text \<open>A string with its terminator and its zero padding to a multiple of four bytes.\<close>

definition padstr :: "byte list \<Rightarrow> byte list" where
  "padstr s = s @ replicate (lo_strsize s - length s) NUL"

lemma lo_strsize_gt [simp]: "length s < lo_strsize s"
  by (simp add: lo_strsize_def)

lemma lo_strsize_le: "lo_strsize s \<le> length s + 4"
  by (simp add: lo_strsize_def)

lemma lo_strsize_pos [simp]: "0 < lo_strsize s" "lo_strsize s \<noteq> 0"
  by (simp_all add: lo_strsize_def)

lemma lo_strsize_ge4 [simp]: "4 \<le> lo_strsize s"
  by (simp add: lo_strsize_def)

lemma lo_strsize_dvd [simp]: "4 dvd lo_strsize s"
  by (simp add: lo_strsize_def)

lemma length_padstr [simp, wire_simps]: "length (padstr s) = lo_strsize s"
  using lo_strsize_gt [of s] by (simp add: padstr_def del: lo_strsize_gt)

lemma padstr_eq: "\<exists>k. padstr s = s @ NUL # replicate k NUL"
  using lo_strsize_gt [of s]
  by (intro exI [of _ "lo_strsize s - length s - 1"])
     (simp add: padstr_def Suc_diff_Suc flip: replicate_Suc del: lo_strsize_gt)

lemma padstr_snoc: "padstr s = (s @ [NUL]) @ replicate (lo_strsize s - length (s @ [NUL])) NUL"
  using lo_strsize_gt [of s]
  by (simp add: padstr_def Suc_diff_Suc flip: replicate_Suc del: lo_strsize_gt)

text \<open>The way the library writes a padded string: clear the last word, then \<open>strcpy\<close>.\<close>

lemma poke_padstr:
  assumes "off + lo_strsize s \<le> length buf"
  shows "poke (poke buf (off + lo_strsize s - 4) (replicate 4 NUL)) off (s @ [NUL]) = poke buf off (padstr s)"
proof -
  have "lo_strsize s \<le> length (s @ [NUL]) + 4" "length (s @ [NUL]) \<le> lo_strsize s"
    using lo_strsize_le [of s] lo_strsize_gt [of s] by (simp_all del: lo_strsize_gt)
  from poke_cleared [OF lo_strsize_ge4 this assms] show ?thesis
    by (simp only: padstr_snoc)
qed

lemma cstr_append [simp]: "NUL \<notin> set s \<Longrightarrow> cstr (s @ NUL # rest) = Some s"
  by (induction s) auto

lemma cstr_Some: "cstr bs = Some s \<Longrightarrow> NUL \<notin> set s \<and> (\<exists>rest. bs = s @ NUL # rest)"
  by (induction bs arbitrary: s) (force split: if_splits)+

lemma cstr_padstr [simp]: "NUL \<notin> set s \<Longrightarrow> cstr (padstr s @ rest) = Some s"
  using padstr_eq [of s] by auto

lemma str_eq_self: "NUL \<notin> set t \<Longrightarrow> NUL \<notin> set s \<Longrightarrow> str_eq (s @ NUL # rest) t = Some (s = t)"
proof (induction s arbitrary: t)
  case Nil
  then show ?case by (cases t) auto
next
  case (Cons a s)
  then show ?case by (cases t) auto
qed

lemma str_eq_padstr:
  "NUL \<notin> set t \<Longrightarrow> NUL \<notin> set s \<Longrightarrow> str_eq (padstr s @ rest) t = Some (s = t)"
  using padstr_eq [of s] by (auto simp: str_eq_self)

section \<open>Words as bytes\<close>

definition byte_of :: "'a::len word \<Rightarrow> byte" where
  "byte_of w = char_of (uint w)"

text \<open>Network (big-endian) order.\<close>

definition be32 :: "u32 \<Rightarrow> byte list" where
  "be32 w = [byte_of (drop_bit 24 w), byte_of (drop_bit 16 w), byte_of (drop_bit 8 w), byte_of w]"

definition join32 :: "byte \<Rightarrow> byte \<Rightarrow> byte \<Rightarrow> byte \<Rightarrow> u32" where
  "join32 a b c d =
     word_of_int (((of_char a * 256 + of_char b) * 256 + of_char c) * 256 + of_char d)"

text \<open>Reading a 32-bit object at a pointer, in network order: \<open>None\<close> if it is not all there.\<close>

fun rd_be32 :: "byte list \<Rightarrow> u32 option" where
  "rd_be32 (a # b # c # d # rest) = Some (join32 a b c d)"
| "rd_be32 _ = None"

text \<open>Host order: big-endian when \<open>be\<close>, little-endian otherwise.\<close>

definition host32 :: "bool \<Rightarrow> u32 \<Rightarrow> byte list" where
  "host32 be w = (if be then be32 w else rev (be32 w))"

fun rd_host32 :: "bool \<Rightarrow> byte list \<Rightarrow> u32 option" where
  "rd_host32 be (a # b # c # d # rest) = Some (if be then join32 a b c d else join32 d c b a)"
| "rd_host32 be _ = None"

definition hi32 :: "u64 \<Rightarrow> u32" where "hi32 w = ucast (drop_bit 32 w)"
definition lo32 :: "u64 \<Rightarrow> u32" where "lo32 w = ucast w"
definition join64 :: "u32 \<Rightarrow> u32 \<Rightarrow> u64" where
  "join64 h l = word_of_int (uint h * 2 ^ 32 + uint l)"

definition be64 :: "u64 \<Rightarrow> byte list" where
  "be64 w = be32 (hi32 w) @ be32 (lo32 w)"

definition host64 :: "bool \<Rightarrow> u64 \<Rightarrow> byte list" where
  "host64 be w = (if be then be64 w else rev (be64 w))"

definition rd_host64 :: "bool \<Rightarrow> byte list \<Rightarrow> u64 option" where
  "rd_host64 be bs = do {
     a \<leftarrow> rd_host32 be bs;
     b \<leftarrow> rd_host32 be (drop 4 bs);
     Some (if be then join64 a b else join64 b a)
   }"

subsection \<open>The conversion macros of \<open>lo_endian.h.in\<close>\<close>

definition bswap32 :: "u32 \<Rightarrow> u32" where
  "bswap32 w = join32 (byte_of w) (byte_of (drop_bit 8 w)) (byte_of (drop_bit 16 w)) (byte_of (drop_bit 24 w))"

text \<open>\<open>lo_swap32\<close> is \<open>htonl\<close>; it is only reached on a little-endian host.\<close>

definition lo_swap32 :: "u32 \<Rightarrow> u32" where
  "lo_swap32 x = bswap32 x"

text \<open>On a little-endian host the first half of \<open>lo_split64\<close> is the low half of the integer.\<close>

definition lo_swap64 :: "u64 \<Rightarrow> u64" where
  "lo_swap64 x =
     (let in_a = lo32 x; in_b = hi32 x;
          out_a = lo_swap32 in_b; out_b = lo_swap32 in_a
      in join64 out_b out_a)"

definition lo_htoo32 :: "bool \<Rightarrow> u32 \<Rightarrow> u32" where
  "lo_htoo32 be x = (if be then x else lo_swap32 x)"
definition lo_otoh32 :: "bool \<Rightarrow> u32 \<Rightarrow> u32" where
  "lo_otoh32 be x = (if be then x else lo_swap32 x)"
definition lo_htoo64 :: "bool \<Rightarrow> u64 \<Rightarrow> u64" where
  "lo_htoo64 be x = (if be then x else lo_swap64 x)"
definition lo_otoh64 :: "bool \<Rightarrow> u64 \<Rightarrow> u64" where
  "lo_otoh64 be x = (if be then x else lo_swap64 x)"

lemma of_char_bounds: "0 \<le> (of_char c :: int)" "(of_char c :: int) < 256"
proof -
  have "(of_char c :: int) = of_char c mod 256"
    by (metis char_of_char of_char_of)
  then show "0 \<le> (of_char c :: int)" "(of_char c :: int) < 256"
    using pos_mod_bound [of 256 "of_char c :: int"] pos_mod_sign [of 256 "of_char c :: int"] by linarith+
qed

lemma of_char_byte_of [simp]: "(of_char (byte_of w) :: int) = uint w mod 256"
  by (simp add: byte_of_def)

lemma uint_join32:
  "uint (join32 a b c d) = ((of_char a * 256 + of_char b) * 256 + of_char c) * 256 + of_char d"
proof -
  note bs = of_char_bounds [of a] of_char_bounds [of b] of_char_bounds [of c] of_char_bounds [of d]
  have "0 \<le> (((of_char a * 256 + of_char b) * 256 + of_char c) * 256 + of_char d :: int)"
    using bs by simp
  moreover have "(((of_char a * 256 + of_char b) * 256 + of_char c) * 256 + of_char d :: int) < 2 ^ 32"
    using bs by simp
  ultimately show ?thesis
    unfolding join32_def uint_word_of_int by (simp only: len_num1 len_bit0 len_bit1 mod_pos_pos_trivial) simp
qed

lemma uint_drop_bit_div:
  fixes w :: "'a::len word"
  shows "uint (drop_bit k w) = uint w div 2 ^ k"
proof -
  have "uint w < 2 ^ LENGTH('a)" by (rule uint_lt2p)
  then have t: "take_bit LENGTH('a) (uint w) = uint w"
    by (simp only: take_bit_eq_mod mod_pos_pos_trivial uint_ge_0)
  show ?thesis
    unfolding unsigned_drop_bit_eq t by (rule drop_bit_eq_div)
qed

lemma unat_small: "int n < 2 ^ 32 \<Longrightarrow> unat (word_of_nat n :: u32) = n"
proof -
  assume "int n < 2 ^ 32"
  then have "n < 2 ^ 32" by simp
  then show ?thesis by (simp add: unat_of_nat)
qed

lemma word_uintI: "uint v = uint w \<Longrightarrow> v = w"
  by (simp only: word_uint_eq_iff)

lemma div_bytes:
  fixes n :: int
  shows "n div 2 ^ 8 = n div 256" "n div 2 ^ 16 = n div 256 div 256"
    "n div 2 ^ 24 = n div 256 div 256 div 256"
  by (simp_all add: zdiv_zmult2_eq [symmetric])

lemma join32_bytes [simp]:
  "join32 (byte_of (drop_bit 24 w)) (byte_of (drop_bit 16 w)) (byte_of (drop_bit 8 w)) (byte_of w) = w"
proof -
  have "uint w < 2 ^ 32" using uint_lt2p [of w] by simp
  then have "uint w div 2 ^ 24 < 256" by simp
  then have top: "uint w div 256 div 256 div 256 mod 256 = uint w div 256 div 256 div 256"
    unfolding div_bytes by (intro mod_pos_pos_trivial) (simp_all only: pos_imp_zdiv_nonneg_iff uint_ge_0 zero_less_numeral)
  show ?thesis
    by (rule word_uintI)
       (simp only: uint_join32 of_char_byte_of uint_drop_bit_div div_bytes top div_mult_mod_eq)
qed

lemma byte_ofI: "uint w mod 256 = of_char a \<Longrightarrow> byte_of w = a"
  by (metis of_char_byte_of of_char_eq_iff)

lemma snoc_byte:
  fixes x d :: int
  assumes "0 \<le> d" "d < 256"
  shows "(x * 256 + d) div 256 = x" "(x * 256 + d) mod 256 = d"
  using assms by simp_all

lemma be32_join32 [simp]: "be32 (join32 a b c d) = [a, b, c, d]"
proof -
  have m: "(of_char a :: int) mod 256 = of_char a"
    by (intro mod_pos_pos_trivial of_char_bounds)
  show ?thesis
    unfolding be32_def list.inject
    by (intro conjI byte_ofI refl)
       (simp_all only: uint_drop_bit_div div_bytes uint_join32 snoc_byte of_char_bounds m)
qed

lemma length_be32 [simp, wire_simps]: "length (be32 w) = 4"
  by (simp add: be32_def)

lemma length_host32 [simp, wire_simps]: "length (host32 be w) = 4"
  by (simp add: host32_def)

lemma length_be64 [simp, wire_simps]: "length (be64 w) = 8"
  by (simp add: be64_def)

lemma length_host64 [simp, wire_simps]: "length (host64 be w) = 8"
  by (simp add: host64_def)

lemma rd_be32_be32 [simp, wire_simps]: "rd_be32 (be32 w @ rest) = Some w"
  by (simp add: be32_def)

lemma rd_host32_host32 [simp, wire_simps]: "rd_host32 be (host32 be w @ rest) = Some w"
  by (simp add: host32_def be32_def)

lemma bswap32_bytes: "be32 (bswap32 w) = rev (be32 w)"
  unfolding bswap32_def be32_join32 by (simp add: be32_def)

lemma be32_inj: "be32 v = be32 w \<Longrightarrow> v = w"
  by (metis append_Nil2 option.inject rd_be32_be32)

lemma bswap32_bswap32 [simp]: "bswap32 (bswap32 w) = w"
  by (rule be32_inj) (simp add: bswap32_bytes)

lemma host32_htoo32 [simp, wire_simps]: "host32 be (lo_htoo32 be w) = be32 w"
  by (simp add: host32_def lo_htoo32_def lo_swap32_def bswap32_bytes)

lemma otoh32_htoo32 [simp]: "lo_otoh32 be (lo_htoo32 be w) = w"
  by (simp add: lo_otoh32_def lo_htoo32_def lo_swap32_def)

lemma htoo32_otoh32 [simp]: "lo_htoo32 be (lo_otoh32 be w) = w"
  by (simp add: lo_otoh32_def lo_htoo32_def lo_swap32_def)

lemma rd_host32_be: "rd_host32 be bs = map_option (lo_htoo32 be) (rd_be32 bs)"
proof (cases "(be, bs)" rule: rd_host32.cases)
  case (1 be' a b c d rest)
  have "join32 d c b a = bswap32 (join32 a b c d)"
    by (rule be32_inj) (simp add: bswap32_bytes)
  with 1 show ?thesis by (simp add: lo_htoo32_def lo_swap32_def)
qed (auto simp: rd_host32.simps)

lemma rd_host32_be32 [simp, wire_simps]: "rd_host32 be (be32 w @ rest) = Some (lo_htoo32 be w)"
  by (simp add: rd_host32_be)

lemma rd_be32_None: "rd_be32 bs = None \<longleftrightarrow> length bs < 4"
  by (cases bs rule: rd_be32.cases) auto

lemma rd_host32_None: "rd_host32 be bs = None \<longleftrightarrow> length bs < 4"
  by (simp add: rd_host32_be rd_be32_None)

lemma rd_be32_Some: "rd_be32 bs = Some w \<Longrightarrow> bs = be32 w @ drop 4 bs"
  by (cases bs rule: rd_be32.cases) auto

lemma uint_join64: "uint (join64 h l) = uint h * 2 ^ 32 + uint l"
proof -
  have "uint h < 2 ^ 32" "uint l < 2 ^ 32" "0 \<le> uint h" "0 \<le> uint l"
    using uint_lt2p [of h] uint_lt2p [of l] by simp_all
  then have "0 \<le> uint h * 2 ^ 32 + uint l" "uint h * 2 ^ 32 + uint l < 2 ^ 64"
    by simp_all
  then show ?thesis
    unfolding join64_def uint_word_of_int by (simp only: len_num1 len_bit0 len_bit1 mod_pos_pos_trivial) simp
qed

lemma uint_hi32: "uint (hi32 w) = uint w div 2 ^ 32"
proof -
  have "uint w < 2 ^ 64" using uint_lt2p [of w] by simp
  then have "uint w div 2 ^ 32 < 2 ^ 32" by simp
  moreover have "0 \<le> uint w div 2 ^ 32"
    by (simp only: pos_imp_zdiv_nonneg_iff uint_ge_0 zero_less_power zero_less_numeral)
  ultimately show ?thesis
    unfolding hi32_def unsigned_ucast_eq uint_drop_bit_div take_bit_eq_mod
    by (simp only: len_num1 len_bit0 len_bit1 mod_pos_pos_trivial) simp
qed

lemma uint_lo32: "uint (lo32 w) = uint w mod 2 ^ 32"
  unfolding lo32_def by (simp add: unsigned_ucast_eq take_bit_eq_mod)

lemma join64_hi_lo [simp]: "join64 (hi32 w) (lo32 w) = w"
proof -
  show ?thesis
    by (rule word_uintI) (simp only: uint_join64 uint_hi32 uint_lo32 div_mult_mod_eq)
qed

lemma hi32_join64 [simp]: "hi32 (join64 h l) = h"
proof -
  have "uint l < 2 ^ 32" using uint_lt2p [of l] by simp
  then have "uint (hi32 (join64 h l)) = uint h" unfolding uint_hi32 uint_join64 by simp
  then show ?thesis by (rule word_uintI)
qed

lemma lo32_join64 [simp]: "lo32 (join64 h l) = l"
proof -
  have "uint l < 2 ^ 32" using uint_lt2p [of l] by simp
  then have "uint (lo32 (join64 h l)) = uint l" unfolding uint_lo32 uint_join64 by simp
  then show ?thesis by (rule word_uintI)
qed

lemma lo_swap64_bytes: "be64 (lo_swap64 w) = rev (be64 w)"
  by (simp add: lo_swap64_def be64_def lo_swap32_def bswap32_bytes Let_def)

lemma be64_inj: "be64 v = be64 w \<Longrightarrow> v = w"
  by (metis append_eq_append_conv be32_inj be64_def join64_hi_lo length_be32)

lemma lo_swap64_lo_swap64 [simp]: "lo_swap64 (lo_swap64 w) = w"
  by (rule be64_inj) (simp add: lo_swap64_bytes)

lemma otoh64_htoo64 [simp]: "lo_otoh64 be (lo_htoo64 be w) = w"
  by (simp add: lo_otoh64_def lo_htoo64_def)

lemma host64_htoo64 [simp, wire_simps]: "host64 be (lo_htoo64 be w) = be64 w"
  by (simp add: host64_def lo_htoo64_def lo_swap64_bytes)

lemma rd_host64_host64 [simp, wire_simps]: "rd_host64 be (host64 be w @ rest) = Some w"
proof (cases be)
  case True
  then show ?thesis
    using rd_host32_host32 [of True "hi32 w"] rd_host32_host32 [of True "lo32 w"]
    by (simp add: rd_host64_def host64_def be64_def host32_def)
next
  case False
  then show ?thesis
    using rd_host32_host32 [of False "hi32 w"] rd_host32_host32 [of False "lo32 w"]
    by (simp add: rd_host64_def host64_def be64_def host32_def)
qed

lemma rd_host64_be64 [simp, wire_simps]: "rd_host64 be (be64 w @ rest) = Some (lo_htoo64 be w)"
  using rd_host64_host64 [of be "lo_htoo64 be w" rest] by (simp only: host64_htoo64)

lemma rd_host64_None: "rd_host64 be bs = None \<longleftrightarrow> length bs < 8"
  by (auto simp: rd_host64_def rd_host32_None bind_eq_None_conv)

section \<open>Constants\<close>

definition LO_ENOPATH :: int where "LO_ENOPATH = 9901"
definition LO_ENOTYPE :: int where "LO_ENOTYPE = 9902"
definition LO_UNKNOWNPROTO :: int where "LO_UNKNOWNPROTO = 9903"
definition LO_NOPORT :: int where "LO_NOPORT = 9904"
definition LO_TOOBIG :: int where "LO_TOOBIG = 9905"
definition LO_INT_ERR :: int where "LO_INT_ERR = 9906"
definition LO_EALLOC :: int where "LO_EALLOC = 9907"
definition LO_EINVALIDPATH :: int where "LO_EINVALIDPATH = 9908"
definition LO_EINVALIDTYPE :: int where "LO_EINVALIDTYPE = 9909"
definition LO_EBADTYPE :: int where "LO_EBADTYPE = 9910"
definition LO_ESIZE :: int where "LO_ESIZE = 9911"
definition LO_EINVALIDARG :: int where "LO_EINVALIDARG = 9912"
definition LO_ETERM :: int where "LO_ETERM = 9913"
definition LO_EPAD :: int where "LO_EPAD = 9914"
definition LO_EINVALIDBUND :: int where "LO_EINVALIDBUND = 9915"

lemmas lo_errors =
  LO_ENOPATH_def LO_ENOTYPE_def LO_UNKNOWNPROTO_def LO_NOPORT_def LO_TOOBIG_def LO_INT_ERR_def
  LO_EALLOC_def LO_EINVALIDPATH_def LO_EINVALIDTYPE_def LO_EBADTYPE_def LO_ESIZE_def
  LO_EINVALIDARG_def LO_ETERM_def LO_EPAD_def LO_EINVALIDBUND_def

definition LO_MAX_MSG_SIZE :: nat where "LO_MAX_MSG_SIZE = 32768"

text \<open>The protocols (\<open>LO_UDP\<close> is 1, \<open>LO_UNIX\<close> 2, \<open>LO_TCP\<close> 4; any other number is no protocol).\<close>

datatype proto = LO_UDP | LO_TCP | LO_UNIX

definition proto_of :: "int \<Rightarrow> proto option" where
  "proto_of n = (if n = 1 then Some LO_UDP else if n = 4 then Some LO_TCP else if n = 2 then Some LO_UNIX else None)"

text \<open>The OSC types; the value of the C enumerator is the type character.\<close>

datatype lo_type =
    LO_INT32 | LO_FLOAT | LO_STRING | LO_BLOB | LO_INT64 | LO_TIMETAG | LO_DOUBLE
  | LO_SYMBOL | LO_CHAR | LO_MIDI | LO_TRUE | LO_FALSE | LO_NIL | LO_INFINITUM

fun typechar :: "lo_type \<Rightarrow> byte" where
  "typechar LO_INT32 = CHR ''i''"
| "typechar LO_FLOAT = CHR ''f''"
| "typechar LO_STRING = CHR ''s''"
| "typechar LO_BLOB = CHR ''b''"
| "typechar LO_INT64 = CHR ''h''"
| "typechar LO_TIMETAG = CHR ''t''"
| "typechar LO_DOUBLE = CHR ''d''"
| "typechar LO_SYMBOL = CHR ''S''"
| "typechar LO_CHAR = CHR ''c''"
| "typechar LO_MIDI = CHR ''m''"
| "typechar LO_TRUE = CHR ''T''"
| "typechar LO_FALSE = CHR ''F''"
| "typechar LO_NIL = CHR ''N''"
| "typechar LO_INFINITUM = CHR ''I''"

definition all_types :: "lo_type list" where
  "all_types = [LO_INT32, LO_FLOAT, LO_STRING, LO_BLOB, LO_INT64, LO_TIMETAG, LO_DOUBLE,
     LO_SYMBOL, LO_CHAR, LO_MIDI, LO_TRUE, LO_FALSE, LO_NIL, LO_INFINITUM]"

text \<open>A character cast to \<open>lo_type\<close>: \<open>None\<close> is the \<open>default:\<close> branch of a switch.\<close>

definition lo_type_of :: "byte \<Rightarrow> lo_type option" where
  "lo_type_of c = find (\<lambda>t. typechar t = c) all_types"

lemma set_all_types [simp]: "t \<in> set all_types"
  by (cases t) (simp_all add: all_types_def)

lemma typechar_inj [ctype_simps]: "typechar s = typechar t \<longleftrightarrow> s = t"
  by (cases s; cases t) simp_all

lemma lo_type_of_typechar [simp, ctype_simps]: "lo_type_of (typechar t) = Some t"
  by (cases t) (simp_all add: lo_type_of_def all_types_def)

lemma lo_type_of_Some [ctype_simps]: "lo_type_of c = Some t \<longleftrightarrow> c = typechar t"
proof
  assume "lo_type_of c = Some t"
  then show "c = typechar t" by (auto simp: lo_type_of_def find_Some_iff)
qed simp

lemma typechar_not_NUL [simp, ctype_simps]: "typechar t \<noteq> NUL" "NUL \<noteq> typechar t"
  by (cases t; simp)+

text \<open>
  Proofs keep the type characters symbolic; a concrete character is decoded by
  \<open>lo_type_of_concrete\<close>.
\<close>

declare typechar.simps [simp del]

lemmas lo_type_of_concrete = lo_type_of_def all_types_def typechar.simps

end
