(* ===== verification/Growth.thy ===== *)
theory Growth
  imports Prelude
begin

text \<open>
  How the buffers of the library grow: the macro \<open>lo_pow2_over\<close> of \<open>src/message.c\<close>, which
  computes the new size of a message's data buffer with a floating-point logarithm, the doubling
  loop it stands for, and the doubling of the other buffers. The contract a growing buffer relies
  on is the locale \<open>growing_buffer\<close>; the macro meets it up to \<open>lo_pow2_safe\<close> bytes and not beyond.
\<close>

section \<open>The macro\<close>

text \<open>
  \<open>a << (int)(log((double)b/(double)a) / 0.69315 + 1)\<close>, with the logarithm over the reals: the
  rounding of \<open>double\<close> is about \<open>1e-16\<close> relative, far below the difference between \<open>0.69315\<close>
  and \<open>ln 2\<close> that decides the result.
\<close>

definition lo_pow2_over :: "nat \<Rightarrow> nat \<Rightarrow> nat" where
  "lo_pow2_over a b =
     (if b > a then a * 2 ^ nat \<lfloor>ln (real b / real a) / 0.69315 + 1\<rfloor> else a)"

text \<open>The loop of the macro's disabled branch (for a positive start).\<close>

function pow2_loop :: "nat \<Rightarrow> nat \<Rightarrow> nat" where
  "pow2_loop a b = (if 0 < a \<and> a < b then pow2_loop (2 * a) b else a)"
  by pat_completeness auto
termination by (relation "measure (\<lambda>(a, b). b - a)") auto

declare pow2_loop.simps [simp del]

lemma pow2_loop_numeral [simp]:
  "pow2_loop (numeral m) (numeral n) =
     (if (numeral m :: nat) < numeral n then pow2_loop (2 * numeral m) (numeral n) else numeral m)"
  by (subst pow2_loop.simps) simp

lemma pow2_loop_eq: "0 < a \<Longrightarrow> a * 2 ^ k < b \<Longrightarrow> b \<le> a * 2 ^ Suc k \<Longrightarrow> pow2_loop a b = a * 2 ^ Suc k"
proof (induction k arbitrary: a)
  case 0
  then show ?case by (simp add: pow2_loop.simps [of a] pow2_loop.simps [of "2 * a"])
next
  case (Suc k)
  have "a * 1 \<le> a * 2 ^ Suc k" by (intro mult_le_mono) simp_all
  with Suc.prems have "a < b" by linarith
  moreover have "pow2_loop (2 * a) b = 2 * a * 2 ^ Suc k"
    by (rule Suc.IH) (use Suc.prems in \<open>simp_all add: ac_simps\<close>)
  ultimately show ?case using Suc.prems(1) by (simp add: pow2_loop.simps [of a])
qed

lemma pow2_loop_ge: "0 < a \<Longrightarrow> b \<le> pow2_loop a b"
  by (induction a b rule: pow2_loop.induct) (subst pow2_loop.simps, auto)

lemma pow2_loop_mono: "a \<le> pow2_loop a b"
  by (induction a b rule: pow2_loop.induct) (subst pow2_loop.simps, auto)

lemma pow2_loop_dvd: "d dvd a \<Longrightarrow> d dvd pow2_loop a b"
  by (induction a b rule: pow2_loop.induct) (subst pow2_loop.simps, auto)

lemma pow2_loop_power: "\<exists>k. pow2_loop a b = a * 2 ^ k"
proof (induction a b rule: pow2_loop.induct)
  case (1 a b)
  show ?case
  proof (cases "0 < a \<and> a < b")
    case True
    then obtain k where "pow2_loop (2 * a) b = 2 * a * 2 ^ k" using 1 by blast
    then show ?thesis using True by (intro exI [of _ "Suc k"]) (simp add: pow2_loop.simps [of a])
  qed (auto simp: pow2_loop.simps [of a] intro: exI [of _ 0])
qed

lemma pow2_loop_less: "0 < a \<Longrightarrow> a < b \<Longrightarrow> pow2_loop a b < 2 * b"
proof (induction a b rule: pow2_loop.induct)
  case (1 a b)
  then show ?case
    by (cases "2 * a < b") (simp_all add: pow2_loop.simps [of a] pow2_loop.simps [of "2 * a"])
qed

section \<open>Bounds on the logarithm\<close>

lemma exp_bracket:
  fixes x :: real
  assumes "0 \<le> x" "x \<le> 1"
  shows "(\<Sum>m<11. x ^ m / fact m) \<le> exp x" "exp x \<le> (\<Sum>m<11. x ^ m / fact m) + 3 / fact 11"
proof -
  obtain t where t: "\<bar>t\<bar> \<le> \<bar>x\<bar>" "exp x = (\<Sum>m<11. x ^ m / fact m) + exp t / fact 11 * x ^ 11"
    using Maclaurin_exp_le [of x 11] by blast
  show "(\<Sum>m<11. x ^ m / fact m) \<le> exp x"
    using t assms by simp
  have "exp t \<le> exp 1" using t assms by simp
  also have "\<dots> \<le> 3" by (rule exp_le)
  finally have "exp t \<le> 3" .
  moreover have "x ^ 11 \<le> 1" using assms by (simp add: power_le_one)
  ultimately have "exp t * x ^ 11 \<le> 3 * 1"
    using assms by (intro mult_mono) simp_all
  then show "exp x \<le> (\<Sum>m<11. x ^ m / fact m) + 3 / fact 11"
    using t by (simp add: divide_right_mono)
qed

lemma ln2_upper: "ln 2 \<le> (0.6931475 :: real)"
proof -
  have "(2 :: real) \<le> (\<Sum>m<11. 0.6931475 ^ m / fact m)"
    by (simp add: eval_nat_numeral fact_reduce)
  also have "\<dots> \<le> exp 0.6931475" by (rule exp_bracket) simp_all
  finally have "ln 2 \<le> ln (exp 0.6931475 :: real)" by (subst ln_le_cancel_iff) simp_all
  then show ?thesis by (simp only: ln_exp)
qed

lemma ln2_lower: "(0.693147 :: real) \<le> ln 2"
proof -
  have "exp (0.693147 :: real) \<le> (\<Sum>m<11. 0.693147 ^ m / fact m) + 3 / fact 11"
    by (rule exp_bracket) simp_all
  also have "\<dots> \<le> 2" by (simp add: eval_nat_numeral fact_reduce)
  finally show ?thesis by (subst ln_ge_iff) simp_all
qed

section \<open>The macro against the loop\<close>

definition lo_pow2_safe :: nat where "lo_pow2_safe = 65536"

text \<open>The exponent of the macro, bracketed: it never overshoots the next power of two.\<close>

lemma log_exponent:
  fixes x :: real
  assumes "1 < x"
  obtains k where "\<lfloor>ln x / 0.69315 + 1\<rfloor> = int (Suc k)" "2 ^ k < x \<or> k = 0"
    "ln x < 0.69315 * real (Suc k)" "0.69315 * real k \<le> ln x"
proof -
  define k where "k = nat \<lfloor>ln x / 0.69315\<rfloor>"
  have pos: "0 < ln x" using assms by simp
  then have k: "real k \<le> ln x / 0.69315" "ln x / 0.69315 < real k + 1"
  proof -
    have y: "0 \<le> ln x / 0.69315" using pos by simp
    then have "real k = of_int \<lfloor>ln x / 0.69315\<rfloor>" by (simp add: k_def)
    then show "real k \<le> ln x / 0.69315" "ln x / 0.69315 < real k + 1"
      using floor_correct [of "ln x / 0.69315"] by linarith+
  qed
  have "\<lfloor>ln x / 0.69315 + 1\<rfloor> = int (Suc k)"
    using pos by (simp add: k_def)
  moreover have low: "0.69315 * real k \<le> ln x"
    using k(1) by (simp add: field_simps)
  moreover have "ln x < 0.69315 * real (Suc k)"
    using k(2) by (simp add: field_simps)
  moreover have "2 ^ k < x \<or> k = 0"
  proof (cases "k = 0")
    case False
    have "ln (2 ^ k :: real) = real k * ln 2" by (simp add: ln_realpow)
    also have "\<dots> < real k * 0.69315" using ln2_upper False by (intro mult_strict_left_mono) simp_all
    also have "\<dots> \<le> ln x" using low by simp
    finally show ?thesis using assms by simp
  qed simp
  ultimately show thesis using that by blast
qed

lemma exp_small: "0 \<le> (x :: real) \<Longrightarrow> x \<le> 1 \<Longrightarrow> exp x \<le> 1 + x + x\<^sup>2"
  by (rule exp_bound)

text \<open>
  Up to \<open>lo_pow2_safe\<close> bytes, for sizes that are multiples of four as those of a message buffer
  are, the macro is the loop.
\<close>

lemma lo_pow2_over_eq_loop:
  assumes a: "0 < a" "4 dvd a" and b: "4 dvd b" "b \<le> lo_pow2_safe"
  shows "lo_pow2_over a b = pow2_loop a b"
proof (cases "a < b")
  case False
  then show ?thesis by (simp add: lo_pow2_over_def pow2_loop.simps [of a])
next
  case True
  define x where "x = real b / real a"
  have "1 < x" using True a by (simp add: x_def)
  then obtain k where k: "\<lfloor>ln x / 0.69315 + 1\<rfloor> = int (Suc k)" "2 ^ k < x \<or> k = 0"
    "ln x < 0.69315 * real (Suc k)" "0.69315 * real k \<le> ln x"
    by (rule log_exponent)
  have val: "lo_pow2_over a b = a * 2 ^ Suc k"
    using True k(1) by (simp add: lo_pow2_over_def x_def nat_add_distrib)
  have low: "a * 2 ^ k < b"
  proof (cases "k = 0")
    case False
    with k(2) a have "real a * 2 ^ k < real b" by (simp add: x_def field_simps)
    then have "real (a * 2 ^ k) < real b" by simp
    then show ?thesis by (simp only: of_nat_less_iff)
  qed (use True in simp)
  have "k \<le> 13"
  proof (rule ccontr)
    assume "\<not> k \<le> 13"
    then have "a * 2 ^ 14 \<le> a * 2 ^ k" by (intro mult_le_mono power_increasing) simp_all
    moreover have "4 * 2 ^ 14 \<le> a * 2 ^ 14" using a by (intro mult_le_mono) (auto dest: dvd_imp_le)
    ultimately have "4 * 2 ^ 14 < b" using low by linarith
    then show False using b(2) by (simp add: lo_pow2_safe_def)
  qed
  have "b \<le> a * 2 ^ Suc k"
  proof (rule ccontr)
    assume "\<not> b \<le> a * 2 ^ Suc k"
    moreover have "4 dvd a * 2 ^ Suc k" using a(2) by simp
    ultimately have gap: "a * 2 ^ Suc k + 4 \<le> b"
      using b(1) by (metis dvd_diff_nat dvd_imp_le le_diff_conv2 nat_le_linear not_le zero_less_diff add.commute)
    define e where "e = (0.69315 - ln 2) * real (Suc k)"
    have e: "0 \<le> e" "e \<le> 0.000042"
    proof -
      show "0 \<le> e" using ln2_upper by (simp add: e_def)
      have "e \<le> 0.000003 * real (Suc k)" unfolding e_def using ln2_lower by (intro mult_right_mono) simp_all
      also have "\<dots> \<le> 0.000003 * 14" using \<open>k \<le> 13\<close> by (intro mult_left_mono) simp_all
      finally show "e \<le> 0.000042" by simp
    qed
    have "x = exp (ln x)" using \<open>1 < x\<close> by simp
    also have "\<dots> \<le> exp (e + real (Suc k) * ln 2)"
      using k(3) by (simp add: e_def algebra_simps)
    also have "\<dots> = exp e * 2 ^ Suc k"
      by (simp only: exp_add exp_of_nat_mult exp_ln zero_less_numeral)
    finally have "real b \<le> exp e * (real a * 2 ^ Suc k)"
      using a by (simp add: x_def field_simps)
    also have "\<dots> \<le> (1 + 0.000043) * (real a * 2 ^ Suc k)"
    proof (rule mult_right_mono)
      have "e\<^sup>2 \<le> 0.000042 * 0.000042" unfolding power2_eq_square using e by (intro mult_mono) simp_all
      with exp_small [OF e(1)] e(2) show "exp e \<le> 1 + 0.000043" by simp
    qed simp
    also have "\<dots> < real a * 2 ^ Suc k + 4"
    proof -
      have "a * 2 ^ Suc k \<le> 65536" using gap b(2) unfolding lo_pow2_safe_def by linarith
      then have "real (a * 2 ^ Suc k) \<le> 65536" by (simp only: of_nat_le_numeral_iff)
      moreover have "(1 + 0.000043) * y < y + 4" if "y \<le> 65536" for y :: real
        using that by simp
      ultimately show ?thesis by (simp only: of_nat_mult of_nat_power of_nat_numeral)
    qed
    finally have "real b < real (a * 2 ^ Suc k + 4)" by simp
    then show False using gap by (simp only: of_nat_less_iff)
  qed
  then show ?thesis using val low a(1) by (simp only: pow2_loop_eq)
qed

text \<open>Beyond it the macro can return less than it was asked for.\<close>

lemma lo_pow2_over_short: "lo_pow2_over 8 131076 = 131072"
proof -
  have "(131076 :: real) / 8 = 2 ^ 14 * (1 + 1 / 32768)" by simp
  then have "ln ((131076 :: real) / 8) = ln (2 ^ 14 * (1 + 1 / 32768) :: real)" by (simp only:)
  also have "\<dots> = 14 * ln 2 + ln (1 + 1 / 32768)"
    by (subst ln_mult) (simp_all only: ln_realpow, simp_all)
  finally have L: "ln ((131076 :: real) / 8) = 14 * ln 2 + ln (1 + 1 / 32768)" .
  have "0 \<le> ln (1 + 1 / 32768 :: real)" by (rule ln_ge_zero) simp
  moreover have "ln (1 + 1 / 32768 :: real) \<le> 1 / 32768" by (rule ln_add_one_self_le_self) simp
  moreover have "13 * 0.69315 \<le> 14 * l + m \<and> 14 * l + m < 14 * 0.69315"
    if "0 \<le> m" "m \<le> 1 / 32768" "0.693147 \<le> l" "l \<le> 0.6931475" for l m :: real
    using that by simp
  ultimately have "13 * 0.69315 \<le> ln ((131076 :: real) / 8)" "ln ((131076 :: real) / 8) < 14 * 0.69315"
    unfolding L using ln2_upper ln2_lower by blast+
  then have "13 \<le> ln ((131076 :: real) / 8) / 0.69315" "ln ((131076 :: real) / 8) / 0.69315 < 14"
    by (simp_all only: pos_le_divide_eq pos_divide_less_eq divide_pos_pos zero_less_numeral zero_less_power)
  then have "\<lfloor>ln ((131076 :: real) / 8) / 0.69315 + 1\<rfloor> = 14"
    by (intro floor_unique) simp_all
  then show ?thesis by (simp add: lo_pow2_over_def)
qed

section \<open>Growing buffers\<close>

text \<open>
  What a component that appends to a heap buffer relies on: the new capacity holds what is needed
  and is not smaller than the old one. \<open>cap_ok\<close> is the invariant of the capacities, \<open>safe\<close> the
  sizes that may be asked for.
\<close>

locale growing_buffer =
  fixes grow :: "nat \<Rightarrow> nat \<Rightarrow> nat"
    and cap_ok :: "nat \<Rightarrow> bool"
    and safe :: "nat \<Rightarrow> nat \<Rightarrow> bool"
  assumes grow_enough: "cap_ok cap \<Longrightarrow> safe cap need \<Longrightarrow> need \<le> grow cap need"
    and grow_keeps: "cap_ok cap \<Longrightarrow> safe cap need \<Longrightarrow> cap \<le> grow cap need"
    and grow_cap_ok: "cap_ok cap \<Longrightarrow> safe cap need \<Longrightarrow> cap_ok (grow cap need)"
begin

lemma append_realloc:
  assumes "alloc_ok al" and "realloc al s buf (grow cap (len + length new)) = Some buf'"
    and "len \<le> length buf" "length buf \<le> cap" and "cap_ok cap" "safe cap (len + length new)"
  shows "length (poke buf' len new) = grow cap (len + length new)"
    and "take (len + length new) (poke buf' len new) = take len buf @ new"
proof -
  have need: "len + length new \<le> grow cap (len + length new)"
    using assms by (intro grow_enough)
  have len': "length buf' = grow cap (len + length new)"
    using assms by (intro length_realloc)
  show "length (poke buf' len new) = grow cap (len + length new)"
    using need len' by (simp add: length_poke)
  have "len \<le> grow cap (len + length new)" using need by simp
  then have "take len buf' = take len buf"
    using assms(2,3) by (intro take_realloc)
  then show "take (len + length new) (poke buf' len new) = take len buf @ new"
    using need len' by (simp add: take_poke_end)
qed

lemma realloc_keeps:
  assumes "alloc_ok al" and "realloc al s buf (grow cap need) = Some buf'"
    and "len \<le> length buf" "length buf \<le> cap" and "cap_ok cap" "safe cap need"
  shows "length buf' = grow cap need" "take len buf' = take len buf"
  using assms grow_keeps [of cap need] length_realloc [of al s buf "grow cap need" buf']
  by (auto intro!: take_realloc)

end

text \<open>The doubling of the type buffer and of the element array.\<close>

definition double_over :: "nat \<Rightarrow> nat \<Rightarrow> nat" where
  "double_over cap need = (if need > cap then 2 * cap else cap)"

interpretation pow2: growing_buffer lo_pow2_over
  "\<lambda>cap. 0 < cap \<and> 4 dvd cap" "\<lambda>cap need. 4 dvd need \<and> need \<le> lo_pow2_safe"
proof
  fix cap need :: nat
  assume c: "0 < cap \<and> 4 dvd cap" and n: "4 dvd need \<and> need \<le> lo_pow2_safe"
  then have eq: "lo_pow2_over cap need = pow2_loop cap need"
    by (intro lo_pow2_over_eq_loop) simp_all
  show "need \<le> lo_pow2_over cap need" using c by (simp add: eq pow2_loop_ge)
  show m: "cap \<le> lo_pow2_over cap need" by (simp add: eq pow2_loop_mono)
  show "0 < lo_pow2_over cap need \<and> 4 dvd lo_pow2_over cap need"
    using c m by (auto simp: eq intro: pow2_loop_dvd)
qed

interpretation dbl: growing_buffer double_over
  "\<lambda>cap. 0 < cap" "\<lambda>cap need. need \<le> 2 * cap"
  by unfold_locales (auto simp: double_over_def)

section \<open>Properties\<close>

text \<open>
  C40: Up to 65536 bytes, for the multiples of four a message asks for, the floating-point macro
  computes what the doubling loop does: the old size times a power of two, enough for the request and
  less than twice it.
\<close>

theorem pow2_over_is_doubling:
  assumes "0 < a" "4 dvd a" "4 dvd b" "b \<le> lo_pow2_safe"
  shows "lo_pow2_over a b = pow2_loop a b \<and> b \<le> lo_pow2_over a b \<and> (\<exists>k. lo_pow2_over a b = a * 2 ^ k) \<and>
    (a < b \<longrightarrow> lo_pow2_over a b < 2 * b)"
  using pow2_loop_ge [OF assms(1), of b] pow2_loop_power [of a b] pow2_loop_less [OF assms(1), of b]
  by (simp add: lo_pow2_over_eq_loop [OF assms])

theorem pow2_over_is_doubling_witness: "lo_pow2_over 8 20 = 32"
  using pow2_over_is_doubling [of 8 20] by (simp add: lo_pow2_safe_def)

end
