(* ===== verification/Timetag.thy ===== *)
theory Timetag
  imports Prelude
begin

text \<open>
  \<open>src/timetag.c\<close> and the timetag type of \<open>lo/lo_osc_types.h\<close>: NTP timestamps, their difference
  in seconds, and the current time. The order the event queue of the server keeps is the sign of
  \<open>lo_timetag_diff\<close>; it is the order of the 64-bit NTP values, which makes the type a \<open>linorder\<close>.
\<close>

datatype lo_timetag = Timetag (tt_sec: u32) (tt_frac: u32)

definition LO_TT_IMMEDIATE :: lo_timetag where
  "LO_TT_IMMEDIATE = Timetag 0 1"

text \<open>Doubles are modelled by the exact rationals.\<close>

definition lo_timetag_diff :: "lo_timetag \<Rightarrow> lo_timetag \<Rightarrow> rat" where
  "lo_timetag_diff a b =
     of_int (uint (tt_sec a)) - of_int (uint (tt_sec b)) +
     (of_int (uint (tt_frac a)) - of_int (uint (tt_frac b))) * 0.00000000023283064365"

definition JAN_1970 :: int where "JAN_1970 = 0x83aa7e80"

text \<open>The branch for POSIX hosts; \<open>gettimeofday\<close> gives seconds and microseconds.\<close>

definition lo_timetag_now :: "int \<times> int \<Rightarrow> lo_timetag" where
  "lo_timetag_now tv =
     Timetag (word_of_int (fst tv + JAN_1970))
             (word_of_int \<lfloor>of_int (snd tv) * (4294.967295 :: rat)\<rfloor>)"

section \<open>The order of timetags\<close>

definition tt_key :: "lo_timetag \<Rightarrow> int" where
  "tt_key a = uint (tt_sec a) * 2 ^ 32 + uint (tt_frac a)"

lemma u32_bounds: "0 \<le> uint (w :: u32)" "uint (w :: u32) < 2 ^ 32"
  using uint_lt2p [of w] by simp_all

lemma tt_key_inj: "tt_key a = tt_key b \<Longrightarrow> a = b"
proof -
  assume eq: "tt_key a = tt_key b"
  have "uint (tt_sec a) = tt_key a div 2 ^ 32" "uint (tt_frac a) = tt_key a mod 2 ^ 32" for a
    using u32_bounds [of "tt_frac a"] by (simp_all add: tt_key_def)
  with eq show ?thesis by (metis lo_timetag.expand word_uint_eq_iff)
qed

instantiation lo_timetag :: linorder
begin

definition less_eq_lo_timetag :: "lo_timetag \<Rightarrow> lo_timetag \<Rightarrow> bool" where
  "less_eq_lo_timetag a b \<longleftrightarrow> tt_key a \<le> tt_key b"

definition less_lo_timetag :: "lo_timetag \<Rightarrow> lo_timetag \<Rightarrow> bool" where
  "less_lo_timetag a b \<longleftrightarrow> tt_key a < tt_key b"

instance
  by standard (auto simp: less_eq_lo_timetag_def less_lo_timetag_def dest: tt_key_inj)

end

lemma sec_frac_sign:
  fixes s f :: int
  assumes "- (2 ^ 32) < f" "f < 2 ^ 32"
  shows "0 < of_int s + of_int f * (0.00000000023283064365 :: rat) \<longleftrightarrow> 0 < s * 2 ^ 32 + f"
proof -
  have "(of_int (- 4294967295) :: rat) \<le> of_int f" "(of_int f :: rat) \<le> of_int 4294967295"
    using assms by (simp_all only: of_int_le_iff) simp_all
  then have f: "- 4294967295 \<le> (of_int f :: rat)" "(of_int f :: rat) \<le> 4294967295"
    by simp_all
  consider "1 \<le> s" | "s = 0" | "s \<le> - 1" by linarith
  then show ?thesis
  proof cases
    case 1
    then have "(1 :: rat) \<le> of_int s" by simp
    moreover have "0 < s * 2 ^ 32 + f" using 1 assms by simp
    ultimately show ?thesis using f by simp
  next
    case 2
    then show ?thesis by simp
  next
    case 3
    then have "(of_int s :: rat) \<le> of_int (- 1)" by (simp only: of_int_le_iff)
    then have "(of_int s :: rat) \<le> - 1" by simp
    moreover have "\<not> 0 < s * 2 ^ 32 + f" using 3 assms by simp
    ultimately show ?thesis using f by simp
  qed
qed

lemma lo_timetag_diff_pos: "0 < lo_timetag_diff a b \<longleftrightarrow> b < a"
proof -
  have "lo_timetag_diff a b =
      of_int (uint (tt_sec a) - uint (tt_sec b)) +
      of_int (uint (tt_frac a) - uint (tt_frac b)) * 0.00000000023283064365"
    by (simp add: lo_timetag_diff_def)
  moreover have "0 < (uint (tt_sec a) - uint (tt_sec b)) * 2 ^ 32 + (uint (tt_frac a) - uint (tt_frac b))
      \<longleftrightarrow> b < a"
    by (simp add: less_lo_timetag_def tt_key_def algebra_simps)
  ultimately show ?thesis
    using u32_bounds [of "tt_frac a"] u32_bounds [of "tt_frac b"] by (simp only: sec_frac_sign)
qed

lemma lo_timetag_diff_swap: "lo_timetag_diff b a = - lo_timetag_diff a b"
proof -
  have "y - x + (q - p) * c = - (x - y + (p - q) * c)" for x y p q c :: rat
    by (simp add: algebra_simps)
  then show ?thesis unfolding lo_timetag_diff_def .
qed

lemma lo_timetag_diff_neg: "lo_timetag_diff a b < 0 \<longleftrightarrow> a < b"
  using lo_timetag_diff_pos [of b a] lo_timetag_diff_swap [of a b] by simp

lemma lo_timetag_diff_le_0: "lo_timetag_diff a b \<le> 0 \<longleftrightarrow> a \<le> b"
  using lo_timetag_diff_pos [of a b] by (simp add: not_less flip: not_less)

lemma lo_timetag_diff_self [simp]: "lo_timetag_diff a a = 0"
  by (simp add: lo_timetag_diff_def)

section \<open>The clock\<close>

text \<open>Within one NTP era the clock is monotone.\<close>

lemma lo_timetag_now_key:
  assumes "- JAN_1970 \<le> s" "s < 2 ^ 32 - JAN_1970" "0 \<le> us" "us < 1000000"
  shows "tt_key (lo_timetag_now (s, us)) = (s + JAN_1970) * 2 ^ 32 + \<lfloor>of_int us * (4294.967295 :: rat)\<rfloor>"
proof -
  have "(of_int us :: rat) \<le> of_int 999999" "(of_int 0 :: rat) \<le> of_int us"
    unfolding of_int_le_iff using assms(3,4) by simp_all
  then have r: "(of_int us :: rat) \<le> 999999" "(0 :: rat) \<le> of_int us"
    by simp_all
  then have "0 \<le> \<lfloor>of_int us * (4294.967295 :: rat)\<rfloor>" "\<lfloor>of_int us * (4294.967295 :: rat)\<rfloor> < 2 ^ 32"
    by (simp_all add: floor_less_iff)
  then have "uint (word_of_int \<lfloor>of_int us * (4294.967295 :: rat)\<rfloor> :: u32) = \<lfloor>of_int us * (4294.967295 :: rat)\<rfloor>"
    unfolding uint_word_of_int by (simp only: len_num1 len_bit0 len_bit1 mod_pos_pos_trivial) simp
  moreover have "uint (word_of_int (s + JAN_1970) :: u32) = s + JAN_1970"
    unfolding uint_word_of_int using assms(1,2) by simp
  ultimately show ?thesis by (simp only: tt_key_def lo_timetag_now_def lo_timetag.sel fst_conv snd_conv)
qed

end
