(* ===== verification/Blob.thy ===== *)
theory Blob
  imports Prelude
begin

text \<open>
  \<open>src/blob.c\<close>. A \<open>lo_blob\<close> is a heap block that holds the size, in host order, followed in the
  same block by the data (the \<open>data\<close> field of the struct is never used as a pointer). It is
  modelled by the bytes of the block.
\<close>

type_synonym lo_blob = "byte list"

definition lo_blob_new :: "alloc \<Rightarrow> bool \<Rightarrow> int \<Rightarrow> byte list ptr \<Rightarrow> lo_blob ptr option" where
  "lo_blob_new al be sz data =
     (if sz < 1 then Some NULL
      else case al At_data (4 + nat sz) of
        None \<Rightarrow> None
      | Some m \<Rightarrow>
          let b = poke m 0 (host32 be (word_of_int sz)) in
          (case data of
             NULL \<Rightarrow> Some (Ref b)
           | Ref d \<Rightarrow> if length d < nat sz then None
                      else Some (Ref (poke b 4 (take (nat sz) d)))))"

definition lo_blob_datasize :: "bool \<Rightarrow> lo_blob \<Rightarrow> u32 option" where
  "lo_blob_datasize be b = rd_host32 be b"

definition lo_blob_dataptr :: "lo_blob \<Rightarrow> byte list" where
  "lo_blob_dataptr b = drop 4 b"

definition lo_blobsize :: "bool \<Rightarrow> lo_blob \<Rightarrow> u32 option" where
  "lo_blobsize be b = do {
     sz \<leftarrow> lo_blob_datasize be b;
     let len = 4 + sz;
     Some (4 * ((len + 3) div 4))
   }"

section \<open>Sizes\<close>

text \<open>The padded size of \<open>n\<close> bytes of blob data with their size header.\<close>

definition blob_len :: "nat \<Rightarrow> nat" where
  "blob_len n = 4 * ((4 + n + 3) div 4)"

lemma blob_len_bounds: "4 + n \<le> blob_len n" "blob_len n < n + 8"
  by (simp_all add: blob_len_def; presburger)+

lemma blob_len_dvd [simp]: "4 dvd blob_len n"
  by (simp add: blob_len_def)

text \<open>A well-formed blob block: the header says how many bytes of data follow.\<close>

definition blob_block :: "bool \<Rightarrow> byte list \<Rightarrow> lo_blob" where
  "blob_block be d = host32 be (word_of_nat (length d)) @ d"

lemma padded_word:
  fixes s :: u32
  assumes "unat s + 7 < 2 ^ 32"
  shows "unat (4 * ((4 + s + 3) div 4) :: u32) = blob_len (unat s)"
proof -
  have a: "unat (4 + s + 3) = unat s + 7"
    using assms by (simp add: unat_word_ariths)
  then have b: "unat ((4 + s + 3) div 4) = (unat s + 7) div 4"
    by (simp add: unat_div)
  have "4 * ((unat s + 7) div 4) < 2 ^ 32" using assms by simp
  with b have "unat (4 * ((4 + s + 3) div 4) :: u32) = 4 * ((unat s + 7) div 4)"
    by (simp add: unat_word_ariths)
  then show ?thesis by (simp add: blob_len_def add.commute)
qed

lemma lo_blobsize_block:
  assumes "length d + 7 < 2 ^ 32"
  shows "map_option unat (lo_blobsize be (blob_block be d @ rest)) = Some (blob_len (length d))"
proof -
  have "unat (word_of_nat (length d) :: u32) = length d"
    using assms by (intro unat_small) simp
  then show ?thesis
    using padded_word [of "word_of_nat (length d)"] assms
    by (simp add: lo_blobsize_def lo_blob_datasize_def blob_block_def Let_def)
qed

lemma lo_blob_new_ok:
  assumes "alloc_ok al" "al At_data (4 + nat sz) = Some m" "1 \<le> sz" "int (length d) = sz"
  shows "lo_blob_new al be sz (Ref d) = Some (Ref (blob_block be d))"
proof -
  have "length m = 4 + length d" using assms by (auto simp: alloc_ok_def)
  then show ?thesis
    using assms by (auto simp: lo_blob_new_def blob_block_def poke_def Let_def)
qed

end
