(* ===== verification/Validate.thy ===== *)
theory Validate
  imports Timetag Blob
begin

text \<open>
  The part of \<open>src/message.c\<close> that reads raw OSC data: the sizes of arguments, the validators of
  untrusted strings, blobs, bundles and arguments, and the conversion of an argument between host
  and network byte order, in place. The abstract arguments (\<open>osc_arg\<close>) with their image in a
  message buffer (\<open>host_arg\<close>) and on the wire (\<open>wire_arg\<close>) say what these functions accept and do.
\<close>

section \<open>Sizes and validators\<close>

definition lo_arg_size :: "bool \<Rightarrow> byte \<Rightarrow> byte list \<Rightarrow> nat option" where
  "lo_arg_size be t data =
     (case lo_type_of t of
        Some LO_TRUE \<Rightarrow> Some 0 | Some LO_FALSE \<Rightarrow> Some 0
      | Some LO_NIL \<Rightarrow> Some 0 | Some LO_INFINITUM \<Rightarrow> Some 0
      | Some LO_INT32 \<Rightarrow> Some 4 | Some LO_FLOAT \<Rightarrow> Some 4
      | Some LO_MIDI \<Rightarrow> Some 4 | Some LO_CHAR \<Rightarrow> Some 4
      | Some LO_INT64 \<Rightarrow> Some 8 | Some LO_TIMETAG \<Rightarrow> Some 8 | Some LO_DOUBLE \<Rightarrow> Some 8
      | Some LO_STRING \<Rightarrow> map_option lo_strsize (cstr data)
      | Some LO_SYMBOL \<Rightarrow> map_option lo_strsize (cstr data)
      | Some LO_BLOB \<Rightarrow> map_option unat (lo_blobsize be data)
      | None \<Rightarrow> Some 0)"

text \<open>
  The scanning loop of \<open>lo_validate_string\<close>: the offset of the first zero byte among the next
  \<open>n\<close> bytes, if there is one.
\<close>

fun scan_nul :: "byte list \<Rightarrow> nat \<Rightarrow> nat \<Rightarrow> nat option option" where
  "scan_nul bs 0 i = Some None"
| "scan_nul [] (Suc n) i = None"
| "scan_nul (b # bs) (Suc n) i = (if b = NUL then Some (Some i) else scan_nul bs n (Suc i))"

text \<open>The padding loops: are the next \<open>n\<close> bytes all zero?\<close>

fun pad_zero :: "byte list \<Rightarrow> nat \<Rightarrow> bool option" where
  "pad_zero bs 0 = Some True"
| "pad_zero [] (Suc n) = None"
| "pad_zero (b # bs) (Suc n) = (if b \<noteq> NUL then Some False else pad_zero bs n)"

definition lo_validate_string :: "byte list \<Rightarrow> int \<Rightarrow> int option" where
  "lo_validate_string data sz =
     (if sz < 0 then Some (- LO_ESIZE)
      else do {
        found \<leftarrow> scan_nul data (nat sz) 0;
        case found of
          None \<Rightarrow> Some (- LO_ETERM)
        | Some i \<Rightarrow>
            let len = 4 * (i div 4 + 1) in
            if int len > sz then Some (- LO_ESIZE)
            else do {
              zero \<leftarrow> pad_zero (drop i data) (len - i);
              Some (if zero then int len else - LO_EPAD)
            }
      })"

definition lo_get_path :: "byte list \<Rightarrow> int \<Rightarrow> byte list ptr option" where
  "lo_get_path data sz =
     map_option (\<lambda>r. if r \<ge> 4 then Ref data else NULL) (lo_validate_string data sz)"

definition lo_validate_blob :: "bool \<Rightarrow> byte list \<Rightarrow> int \<Rightarrow> int option" where
  "lo_validate_blob be data sz =
     (if sz < 0 then Some (- LO_ESIZE)
      else do {
        raw \<leftarrow> rd_host32 be data;
        let dsize = unat (lo_otoh32 be raw);
        if dsize > LO_MAX_MSG_SIZE then Some (- LO_ESIZE)
        else
          let stop = 4 + dsize; len = 4 * ((stop + 3) div 4) in
          if int len > sz then Some (- LO_ESIZE)
          else do {
            zero \<leftarrow> pad_zero (drop stop data) (len - stop);
            Some (if zero then int len else - LO_EPAD)
          }
      })"

definition lo_validate_arg :: "bool \<Rightarrow> byte \<Rightarrow> byte list \<Rightarrow> int \<Rightarrow> int option" where
  "lo_validate_arg be t data sz =
     (if sz < 0 then Some (- 1)
      else case lo_type_of t of
        Some LO_TRUE \<Rightarrow> Some 0 | Some LO_FALSE \<Rightarrow> Some 0
      | Some LO_NIL \<Rightarrow> Some 0 | Some LO_INFINITUM \<Rightarrow> Some 0
      | Some LO_INT32 \<Rightarrow> Some (if sz \<ge> 4 then 4 else - LO_ESIZE)
      | Some LO_FLOAT \<Rightarrow> Some (if sz \<ge> 4 then 4 else - LO_ESIZE)
      | Some LO_MIDI \<Rightarrow> Some (if sz \<ge> 4 then 4 else - LO_ESIZE)
      | Some LO_CHAR \<Rightarrow> Some (if sz \<ge> 4 then 4 else - LO_ESIZE)
      | Some LO_INT64 \<Rightarrow> Some (if sz \<ge> 8 then 8 else - LO_ESIZE)
      | Some LO_TIMETAG \<Rightarrow> Some (if sz \<ge> 8 then 8 else - LO_ESIZE)
      | Some LO_DOUBLE \<Rightarrow> Some (if sz \<ge> 8 then 8 else - LO_ESIZE)
      | Some LO_STRING \<Rightarrow> lo_validate_string data sz
      | Some LO_SYMBOL \<Rightarrow> lo_validate_string data sz
      | Some LO_BLOB \<Rightarrow> lo_validate_blob be data sz
      | None \<Rightarrow> Some (- LO_EINVALIDTYPE))"

section \<open>Byte order of an argument in place\<close>

definition map32 :: "bool \<Rightarrow> (u32 \<Rightarrow> u32) \<Rightarrow> byte list \<Rightarrow> nat \<Rightarrow> byte list option" where
  "map32 be f data off = do {
     w \<leftarrow> rd_host32 be (drop off data);
     Some (poke data off (host32 be (f w)))
   }"

definition map64 :: "bool \<Rightarrow> (u64 \<Rightarrow> u64) \<Rightarrow> byte list \<Rightarrow> byte list option" where
  "map64 be f data = do {
     w \<leftarrow> rd_host64 be data;
     Some (poke data 0 (host64 be (f w)))
   }"

definition lo_arg_host_endian :: "bool \<Rightarrow> byte \<Rightarrow> byte list \<Rightarrow> byte list option" where
  "lo_arg_host_endian be t data =
     (case lo_type_of t of
        Some LO_INT32 \<Rightarrow> map32 be (lo_otoh32 be) data 0
      | Some LO_FLOAT \<Rightarrow> map32 be (lo_otoh32 be) data 0
      | Some LO_BLOB \<Rightarrow> map32 be (lo_otoh32 be) data 0
      | Some LO_CHAR \<Rightarrow> map32 be (lo_otoh32 be) data 0
      | Some LO_TIMETAG \<Rightarrow>
          do { d \<leftarrow> map32 be (lo_otoh32 be) data 0; map32 be (lo_otoh32 be) d 4 }
      | Some LO_INT64 \<Rightarrow> map64 be (lo_otoh64 be) data
      | Some LO_DOUBLE \<Rightarrow> map64 be (lo_otoh64 be) data
      | _ \<Rightarrow> Some data)"

definition lo_arg_network_endian :: "bool \<Rightarrow> byte \<Rightarrow> byte list \<Rightarrow> byte list option" where
  "lo_arg_network_endian be t data =
     (case lo_type_of t of
        Some LO_INT32 \<Rightarrow> map32 be (lo_htoo32 be) data 0
      | Some LO_FLOAT \<Rightarrow> map32 be (lo_htoo32 be) data 0
      | Some LO_BLOB \<Rightarrow> map32 be (lo_htoo32 be) data 0
      | Some LO_CHAR \<Rightarrow> map32 be (lo_htoo32 be) data 0
      | Some LO_TIMETAG \<Rightarrow>
          do { d \<leftarrow> map32 be (lo_htoo32 be) data 0; map32 be (lo_htoo32 be) d 4 }
      | Some LO_INT64 \<Rightarrow> map64 be (lo_htoo64 be) data
      | Some LO_DOUBLE \<Rightarrow> map64 be (lo_htoo64 be) data
      | _ \<Rightarrow> Some data)"

section \<open>Abstract arguments\<close>

text \<open>Floats are their IEEE bit patterns; an \<open>OChar\<close> is the 32-bit cell that carries the character.\<close>

datatype osc_arg =
    OInt32 u32 | OFloat u32 | OString "byte list" | OBlob "byte list" | OInt64 u64
  | OTimetag lo_timetag | ODouble u64 | OSymbol "byte list" | OChar u32
  | OMidi byte byte byte byte | OTrue | OFalse | ONil | OInfinitum

fun arg_type :: "osc_arg \<Rightarrow> lo_type" where
  "arg_type (OInt32 _) = LO_INT32"
| "arg_type (OFloat _) = LO_FLOAT"
| "arg_type (OString _) = LO_STRING"
| "arg_type (OBlob _) = LO_BLOB"
| "arg_type (OInt64 _) = LO_INT64"
| "arg_type (OTimetag _) = LO_TIMETAG"
| "arg_type (ODouble _) = LO_DOUBLE"
| "arg_type (OSymbol _) = LO_SYMBOL"
| "arg_type (OChar _) = LO_CHAR"
| "arg_type (OMidi _ _ _ _) = LO_MIDI"
| "arg_type OTrue = LO_TRUE"
| "arg_type OFalse = LO_FALSE"
| "arg_type ONil = LO_NIL"
| "arg_type OInfinitum = LO_INFINITUM"

definition arg_tag :: "osc_arg \<Rightarrow> byte" where "arg_tag a = typechar (arg_type a)"

definition blob_pad :: "byte list \<Rightarrow> byte list" where
  "blob_pad d = d @ replicate (blob_len (length d) - (4 + length d)) NUL"

fun host_arg :: "bool \<Rightarrow> osc_arg \<Rightarrow> byte list" where
  "host_arg be (OInt32 w) = host32 be w"
| "host_arg be (OFloat w) = host32 be w"
| "host_arg be (OString s) = padstr s"
| "host_arg be (OBlob d) = host32 be (word_of_nat (length d)) @ blob_pad d"
| "host_arg be (OInt64 w) = host64 be w"
| "host_arg be (OTimetag t) = host32 be (tt_sec t) @ host32 be (tt_frac t)"
| "host_arg be (ODouble w) = host64 be w"
| "host_arg be (OSymbol s) = padstr s"
| "host_arg be (OChar w) = host32 be w"
| "host_arg be (OMidi a b c d) = [a, b, c, d]"
| "host_arg be _ = []"

fun wire_arg :: "osc_arg \<Rightarrow> byte list" where
  "wire_arg (OInt32 w) = be32 w"
| "wire_arg (OFloat w) = be32 w"
| "wire_arg (OString s) = padstr s"
| "wire_arg (OBlob d) = be32 (word_of_nat (length d)) @ blob_pad d"
| "wire_arg (OInt64 w) = be64 w"
| "wire_arg (OTimetag t) = be32 (tt_sec t) @ be32 (tt_frac t)"
| "wire_arg (ODouble w) = be64 w"
| "wire_arg (OSymbol s) = padstr s"
| "wire_arg (OChar w) = be32 w"
| "wire_arg (OMidi a b c d) = [a, b, c, d]"
| "wire_arg _ = []"

text \<open>The arguments the library can carry: C strings, and blobs the validator accepts.\<close>

fun arg_ok :: "osc_arg \<Rightarrow> bool" where
  "arg_ok (OString s) = (NUL \<notin> set s)"
| "arg_ok (OSymbol s) = (NUL \<notin> set s)"
| "arg_ok (OBlob d) = (length d \<le> LO_MAX_MSG_SIZE)"
| "arg_ok _ = True"

lemma length_blob_pad [simp]: "4 + length (blob_pad d) = blob_len (length d)"
  using blob_len_bounds(1) [of "length d"] by (simp add: blob_pad_def)

lemma length_blob_pad' [simp]: "length (blob_pad d) = blob_len (length d) - 4"
  using length_blob_pad [of d] by linarith

lemma length_host_arg [wire_simps]: "length (host_arg be a) = length (wire_arg a)"
  by (cases a) simp_all

lemma wire_arg_dvd: "4 dvd length (wire_arg a)"
proof (cases a)
  case (OBlob d)
  then have "length (wire_arg a) = blob_len (length d)" by (simp del: length_blob_pad')
  then show ?thesis by simp
next
  case (OMidi m1 m2 m3 m4)
  then have "length (wire_arg a) = 4" by simp
  then show ?thesis by simp
qed simp_all

section \<open>The validators against the abstract arguments\<close>

lemma scan_nul_found:
  "NUL \<notin> set s \<Longrightarrow> length s < n \<Longrightarrow> scan_nul (s @ NUL # rest) n i = Some (Some (i + length s))"
proof (induction s arbitrary: n i)
  case Nil
  then show ?case by (cases n) auto
next
  case (Cons a s)
  then show ?case by (cases n) auto
qed

lemma scan_nul_SomeD:
  "scan_nul bs n i = Some (Some j) \<Longrightarrow>
     \<exists>s rest. bs = s @ NUL # rest \<and> NUL \<notin> set s \<and> j = i + length s \<and> length s < n"
proof (induction bs n i rule: scan_nul.induct)
  case (3 b bs n i)
  show ?case
  proof (cases "b = NUL")
    case True
    with "3.prems" show ?thesis by (intro exI [of _ "[]"] exI [of _ bs]) simp
  next
    case False
    with 3 obtain s rest where "bs = s @ NUL # rest" "NUL \<notin> set s" "j = Suc i + length s" "length s < n"
      by auto
    with False show ?thesis by (intro exI [of _ "b # s"] exI [of _ rest]) simp
  qed
qed simp_all

lemma scan_nul_total: "n \<le> length bs \<Longrightarrow> scan_nul bs n i \<noteq> None"
  by (induction bs n i rule: scan_nul.induct) auto

lemma pad_zero_True: "pad_zero bs n = Some True \<longleftrightarrow> n \<le> length bs \<and> take n bs = replicate n NUL"
  by (induction bs n rule: pad_zero.induct) auto

lemma pad_zero_replicate [simp]: "pad_zero (replicate n NUL @ rest) n = Some True"
  by (simp add: pad_zero_True)

lemma pad_zero_total: "n \<le> length bs \<Longrightarrow> pad_zero bs n \<noteq> None"
  by (induction bs n rule: pad_zero.induct) auto

lemma lo_errors_pos [simp]: "0 < LO_ESIZE" "0 < LO_ETERM" "0 < LO_EPAD" "0 < LO_EINVALIDTYPE"
  "0 < LO_EINVALIDBUND"
  "\<not> LO_ESIZE \<le> 0" "\<not> LO_ETERM \<le> 0" "\<not> LO_EPAD \<le> 0" "\<not> LO_EINVALIDTYPE \<le> 0"
  "\<not> LO_EINVALIDBUND \<le> 0"
  by (simp_all add: lo_errors)

lemma lo_validate_string_found:
  assumes "0 \<le> sz" "scan_nul data (nat sz) 0 = Some (Some i)" "len = 4 * (i div 4 + 1)"
  shows "lo_validate_string data sz =
     (if sz < int len then Some (- LO_ESIZE)
      else map_option (\<lambda>z. if z then int len else - LO_EPAD) (pad_zero (drop i data) (len - i)))"
  unfolding lo_validate_string_def Let_def assms(2) bind.bind_lunit option.case assms(3) [symmetric]
  using assms(1) by (simp add: map_conv_bind_option o_def not_less)

lemma lo_validate_string_not_found:
  "0 \<le> sz \<Longrightarrow> scan_nul data (nat sz) 0 = Some None \<Longrightarrow> lo_validate_string data sz = Some (- LO_ETERM)"
  by (simp add: lo_validate_string_def)

lemma lo_validate_string_padstr [simp]:
  assumes "NUL \<notin> set s" "int (lo_strsize s) \<le> sz"
  shows "lo_validate_string (padstr s @ rest) sz = Some (int (lo_strsize s))"
proof -
  obtain k where "padstr s = s @ NUL # replicate k NUL" using padstr_eq by blast
  moreover have "length s < nat sz" using assms(2) lo_strsize_gt [of s] by linarith
  ultimately have "scan_nul (padstr s @ rest) (nat sz) 0 = Some (Some (length s))"
    using scan_nul_found [OF assms(1), of "nat sz"] by simp
  from lo_validate_string_found [OF _ this lo_strsize_def] assms(2)
  show ?thesis by (simp add: padstr_def)
qed

lemma lo_validate_string_SomeD:
  assumes "lo_validate_string data sz = Some r" "0 \<le> r"
  shows "\<exists>s rest. data = padstr s @ rest \<and> NUL \<notin> set s \<and> r = int (lo_strsize s) \<and> r \<le> sz"
proof -
  have "0 \<le> sz" using assms by (auto simp: lo_validate_string_def split: if_splits)
  then have "scan_nul data (nat sz) 0 \<noteq> Some None" "scan_nul data (nat sz) 0 \<noteq> None"
    using assms lo_validate_string_not_found [of sz data] by (auto simp: lo_validate_string_def bind_eq_Some_conv)
  then obtain i where i: "scan_nul data (nat sz) 0 = Some (Some i)"
    by (metis not_Some_eq)
  have r: "r = int (4 * (i div 4 + 1))" "r \<le> sz" "pad_zero (drop i data) (4 * (i div 4 + 1) - i) = Some True"
    using assms lo_validate_string_found [OF \<open>0 \<le> sz\<close> i refl] by (auto split: if_splits)
  from scan_nul_SomeD [OF i] obtain s rest where s: "data = s @ NUL # rest" "NUL \<notin> set s" "i = length s"
    by auto
  have "take (lo_strsize s - length s) (drop (length s) data) = replicate (lo_strsize s - length s) NUL"
    using r(3) by (simp add: pad_zero_True s(3) lo_strsize_def)
  then have "drop (length s) data = replicate (lo_strsize s - length s) NUL @ drop (lo_strsize s - length s) (drop (length s) data)"
    by (metis append_take_drop_id)
  then have "data = padstr s @ drop (lo_strsize s - length s) (drop (length s) data)"
    using s(1) by (metis append.assoc append_eq_conv_conj padstr_def)
  then show ?thesis using s r by (auto simp: lo_strsize_def)
qed

text \<open>The string validator never reads past the \<open>sz\<close> bytes it is given.\<close>

lemma lo_validate_string_total:
  assumes "sz \<le> int (length data)"
  shows "lo_validate_string data sz \<noteq> None"
proof (cases "sz < 0")
  case False
  then have "scan_nul data (nat sz) 0 \<noteq> None" using assms by (intro scan_nul_total) simp
  moreover have "pad_zero (drop i data) (4 * (i div 4 + 1) - i) \<noteq> None"
    if "int (4 * (i div 4 + 1)) \<le> sz" for i
    using that assms by (intro pad_zero_total) simp
  ultimately show ?thesis
    using False lo_validate_string_not_found [of sz data] lo_validate_string_found [OF _ _ refl, of sz data]
    by (cases "scan_nul data (nat sz) 0"; cases "the (scan_nul data (nat sz) 0)") auto
qed (simp add: lo_validate_string_def)

lemma unat_small32: "n < 2 ^ 32 \<Longrightarrow> unat (word_of_nat n :: u32) = n"
  by (rule unat_small) simp

lemma blob_len_eq: "4 * ((4 + n + 3) div 4) = blob_len n"
  by (simp add: blob_len_def)

lemma lo_validate_blob_read:
  assumes "0 \<le> sz" "rd_be32 data = Some w"
  shows "lo_validate_blob be data sz =
     (if LO_MAX_MSG_SIZE < unat w \<or> sz < int (blob_len (unat w)) then Some (- LO_ESIZE)
      else map_option (\<lambda>z. if z then int (blob_len (unat w)) else - LO_EPAD)
             (pad_zero (drop (4 + unat w) data) (blob_len (unat w) - (4 + unat w))))"
proof -
  have "rd_host32 be data = Some (lo_htoo32 be w)"
    using assms(2) by (simp add: rd_host32_be)
  then show ?thesis
    unfolding lo_validate_blob_def blob_len_eq Let_def
    using assms(1) by (simp add: map_conv_bind_option o_def not_less cong: if_cong)
qed

lemma lo_validate_blob_wire [simp]:
  assumes "length d \<le> LO_MAX_MSG_SIZE" "int (blob_len (length d)) \<le> sz"
  shows "lo_validate_blob be (be32 (word_of_nat (length d)) @ blob_pad d @ rest) sz
           = Some (int (blob_len (length d)))"
proof -
  have "unat (word_of_nat (length d) :: u32) = length d"
    using assms(1) by (intro unat_small32) (simp add: LO_MAX_MSG_SIZE_def)
  moreover have "0 \<le> sz" using assms(2) by linarith
  ultimately show ?thesis
    using assms lo_validate_blob_read [of sz "be32 (word_of_nat (length d)) @ blob_pad d @ rest" "word_of_nat (length d)" be]
    by (simp add: blob_pad_def)
qed

lemma lo_validate_blob_SomeD:
  assumes "lo_validate_blob be data sz = Some r" "0 \<le> r" "sz \<le> int (length data)"
  shows "\<exists>d rest. data = be32 (word_of_nat (length d)) @ blob_pad d @ rest
           \<and> length d \<le> LO_MAX_MSG_SIZE \<and> r = int (blob_len (length d)) \<and> r \<le> sz"
proof -
  have "0 \<le> sz" using assms by (auto simp: lo_validate_blob_def split: if_splits)
  moreover obtain w where w: "rd_be32 data = Some w"
    using assms calculation by (auto simp: lo_validate_blob_def rd_host32_be bind_eq_Some_conv split: if_splits)
  ultimately have r: "unat w \<le> LO_MAX_MSG_SIZE" "r = int (blob_len (unat w))" "r \<le> sz"
      "pad_zero (drop (4 + unat w) data) (blob_len (unat w) - (4 + unat w)) = Some True"
    using assms lo_validate_blob_read [of sz data w be] by (auto simp: not_less split: if_splits)
  define d where "d = take (unat w) (drop 4 data)"
  define n where "n = blob_len (unat w) - (4 + unat w)"
  have pz: "n \<le> length (drop (4 + unat w) data)" "take n (drop (4 + unat w) data) = replicate n NUL"
    using r(4) by (simp_all add: pad_zero_True n_def)
  have "4 + unat w \<le> length data"
    using blob_len_bounds(1) [of "unat w"] r(2,3) assms(3) by linarith
  then have len: "length d = unat w" by (simp add: d_def)
  have "data = be32 w @ drop 4 data" using w by (rule rd_be32_Some)
  also have "drop 4 data = d @ drop (4 + unat w) data"
    unfolding d_def by (metis add.commute append_take_drop_id drop_drop)
  also have "drop (4 + unat w) data = replicate n NUL @ drop n (drop (4 + unat w) data)"
    using pz(2) by (metis append_take_drop_id)
  finally have "data = be32 w @ blob_pad d @ drop n (drop (4 + unat w) data)"
    by (simp add: blob_pad_def len n_def)
  moreover have "w = word_of_nat (length d)"
    by (simp add: len)
  ultimately show ?thesis using r len by metis
qed

end
