(* ===== verification/Args.thy ===== *)
theory Args
  imports Validate
begin

text \<open>
  The argument functions of \<open>src/message.c\<close> on well-formed arguments, and the loops that walk over
  the arguments of a message: the in-place conversion of \<open>lo_message_serialise\<close> (\<open>walk_args\<close>), the
  offsets of \<open>lo_message_get_argv\<close> (\<open>argv_offsets\<close>) and the validating loop of
  \<open>lo_message_deserialise\<close> (\<open>deser_args\<close>). The locale \<open>arg_layout\<close> is the contract between a loop
  and the functions it calls for each argument.
\<close>

section \<open>One argument\<close>

lemma map32_host [simp]: "map32 be f (host32 be w @ rest) 0 = Some (host32 be (f w) @ rest)"
  by (simp add: map32_def poke_def)

lemma map32_host_second [simp]:
  "length x = 4 \<Longrightarrow> map32 be f (x @ host32 be w @ rest) 4 = Some (x @ host32 be (f w) @ rest)"
  by (simp add: map32_def poke_def)

lemma map64_host [simp]: "map64 be f (host64 be w @ rest) = Some (host64 be (f w) @ rest)"
  by (simp add: map64_def poke_def)

lemma be32_host: "be32 w = host32 be (lo_htoo32 be w)"
  by simp

lemma be64_host: "be64 w = host64 be (lo_htoo64 be w)"
  by simp

lemma lo_type_of_arg_tag [simp]: "lo_type_of (arg_tag a) = Some (arg_type a)"
  by (simp add: arg_tag_def)

lemma arg_tag_not_NUL [simp]: "arg_tag a \<noteq> NUL" "NUL \<noteq> arg_tag a"
  by (simp_all add: arg_tag_def)

lemma network_endian_host_arg:
  "lo_arg_network_endian be (arg_tag a) (host_arg be a @ rest) = Some (wire_arg a @ rest)"
  by (cases a) (simp_all add: lo_arg_network_endian_def)

lemma host_endian_wire_arg:
  "lo_arg_host_endian be (arg_tag a) (wire_arg a @ rest) = Some (host_arg be a @ rest)"
  by (cases a; simp add: lo_arg_host_endian_def be32_host [of _ be] be64_host [of _ be]
        del: host32_htoo32 host64_htoo64)

lemma lo_arg_size_host_arg:
  assumes "arg_ok a"
  shows "lo_arg_size be (arg_tag a) (host_arg be a @ rest) = Some (length (host_arg be a))"
proof (cases a)
  case (OBlob d)
  have len: "length (host_arg be a) = blob_len (length d)" using OBlob by (simp del: length_blob_pad')
  have "map_option unat (lo_blobsize be (blob_block be d @ replicate (blob_len (length d) - (4 + length d)) NUL @ rest))
      = Some (blob_len (length d))"
    using assms OBlob by (intro lo_blobsize_block) (simp add: LO_MAX_MSG_SIZE_def)
  then show ?thesis
    unfolding len using OBlob by (simp add: lo_arg_size_def blob_block_def blob_pad_def)
qed (use assms in \<open>simp_all add: lo_arg_size_def\<close>)

lemma lo_validate_arg_wire_arg:
  assumes "arg_ok a" "int (length (wire_arg a)) \<le> sz"
  shows "lo_validate_arg be (arg_tag a) (wire_arg a @ rest) sz = Some (int (length (wire_arg a)))"
proof (cases a)
  case (OBlob d)
  have len: "length (wire_arg a) = blob_len (length d)" using OBlob by (simp del: length_blob_pad')
  show ?thesis
    using assms OBlob unfolding len by (simp add: lo_validate_arg_def)
qed (use assms in \<open>simp_all add: lo_validate_arg_def\<close>)

text \<open>The validator accepts nothing but images of well-formed arguments.\<close>

lemma bytes4:
  assumes "4 \<le> length (data :: byte list)"
  obtains a b c d rest where "data = a # b # c # d # rest"
proof -
  have "rd_be32 data \<noteq> None" using assms by (simp add: rd_be32_None)
  then show thesis using that by (cases data rule: rd_be32.cases) auto
qed

lemma word_bytes32:
  assumes "4 \<le> length data"
  obtains w rest where "data = be32 w @ rest"
proof -
  obtain a b c d rest where "data = a # b # c # d # rest" using assms by (rule bytes4)
  then have "data = be32 (join32 a b c d) @ rest" by simp
  then show thesis by (rule that)
qed

lemma word_bytes64:
  assumes "8 \<le> length data"
  obtains v w rest where "data = be32 v @ be32 w @ rest"
proof -
  have "4 \<le> length data" using assms by simp
  then obtain v r where v: "data = be32 v @ r" by (rule word_bytes32)
  moreover have "4 \<le> length r" using v assms by simp
  then obtain w r' where "r = be32 w @ r'" by (rule word_bytes32)
  ultimately show thesis using that by simp
qed

lemma lo_validate_arg_SomeD:
  assumes "lo_validate_arg be t data sz = Some r" "0 \<le> r" "sz \<le> int (length data)"
  shows "\<exists>a rest. t = arg_tag a \<and> arg_ok a \<and> data = wire_arg a @ rest \<and> r = int (length (wire_arg a)) \<and> r \<le> sz"
proof -
  have sz: "0 \<le> sz" using assms by (auto simp: lo_validate_arg_def split: if_splits)
  with assms obtain ty where t: "lo_type_of t = Some ty"
    by (cases "lo_type_of t") (auto simp: lo_validate_arg_def)
  have str: "\<exists>s rest. data = padstr s @ rest \<and> NUL \<notin> set s \<and> r = int (lo_strsize s) \<and> r \<le> sz"
    if "ty = LO_STRING \<or> ty = LO_SYMBOL"
    using that assms sz t lo_validate_string_SomeD [of data sz r] by (auto simp: lo_validate_arg_def)
  have w32: "\<exists>w rest. data = be32 w @ rest" if "4 \<le> sz"
    using that assms word_bytes32 [of data] by (metis of_nat_le_iff of_nat_numeral order_trans)
  have w64: "\<exists>v w rest. data = be32 v @ be32 w @ rest" if "8 \<le> sz"
    using that assms word_bytes64 [of data] by (metis of_nat_le_iff of_nat_numeral order_trans)
  have tag: "t = arg_tag a" if "arg_type a = ty" for a
    using that t by (simp add: arg_tag_def lo_type_of_Some)
  show ?thesis
  proof (cases ty)
    case LO_INT32
    with assms sz t have "r = 4" "4 \<le> sz" by (auto simp: lo_validate_arg_def split: if_splits)
    moreover then obtain w rest where "data = be32 w @ rest" using w32 by blast
    ultimately show ?thesis using tag [of "OInt32 w"] LO_INT32
      by (intro exI [of _ "OInt32 w"]) simp
  next
    case LO_FLOAT
    with assms sz t have "r = 4" "4 \<le> sz" by (auto simp: lo_validate_arg_def split: if_splits)
    moreover then obtain w rest where "data = be32 w @ rest" using w32 by blast
    ultimately show ?thesis using tag [of "OFloat w"] LO_FLOAT
      by (intro exI [of _ "OFloat w"]) simp
  next
    case LO_STRING
    then obtain s rest where "data = padstr s @ rest" "NUL \<notin> set s" "r = int (lo_strsize s)" "r \<le> sz"
      using str by blast
    then show ?thesis using tag [of "OString s"] LO_STRING by (intro exI [of _ "OString s"]) simp
  next
    case LO_BLOB
    then obtain d rest where "data = be32 (word_of_nat (length d)) @ blob_pad d @ rest"
      "length d \<le> LO_MAX_MSG_SIZE" "r = int (blob_len (length d))" "r \<le> sz"
      using assms sz t lo_validate_blob_SomeD [of be data sz r] by (auto simp: lo_validate_arg_def)
    then show ?thesis using tag [of "OBlob d"] LO_BLOB blob_len_bounds(1) [of "length d"]
      by (intro exI [of _ "OBlob d"] exI [of _ rest]) simp
  next
    case LO_INT64
    with assms sz t have "r = 8" "8 \<le> sz" by (auto simp: lo_validate_arg_def split: if_splits)
    moreover then obtain v w rest where "data = be32 v @ be32 w @ rest" using w64 by blast
    ultimately show ?thesis using tag [of "OInt64 (join64 v w)"] LO_INT64
      by (intro exI [of _ "OInt64 (join64 v w)"]) (simp add: be64_def)
  next
    case LO_TIMETAG
    with assms sz t have "r = 8" "8 \<le> sz" by (auto simp: lo_validate_arg_def split: if_splits)
    moreover then obtain v w rest where "data = be32 v @ be32 w @ rest" using w64 by blast
    ultimately show ?thesis using tag [of "OTimetag (Timetag v w)"] LO_TIMETAG
      by (intro exI [of _ "OTimetag (Timetag v w)"]) simp
  next
    case LO_DOUBLE
    with assms sz t have "r = 8" "8 \<le> sz" by (auto simp: lo_validate_arg_def split: if_splits)
    moreover then obtain v w rest where "data = be32 v @ be32 w @ rest" using w64 by blast
    ultimately show ?thesis using tag [of "ODouble (join64 v w)"] LO_DOUBLE
      by (intro exI [of _ "ODouble (join64 v w)"]) (simp add: be64_def)
  next
    case LO_SYMBOL
    then obtain s rest where "data = padstr s @ rest" "NUL \<notin> set s" "r = int (lo_strsize s)" "r \<le> sz"
      using str by blast
    then show ?thesis using tag [of "OSymbol s"] LO_SYMBOL by (intro exI [of _ "OSymbol s"]) simp
  next
    case LO_CHAR
    with assms sz t have "r = 4" "4 \<le> sz" by (auto simp: lo_validate_arg_def split: if_splits)
    moreover then obtain w rest where "data = be32 w @ rest" using w32 by blast
    ultimately show ?thesis using tag [of "OChar w"] LO_CHAR
      by (intro exI [of _ "OChar w"]) simp
  next
    case LO_MIDI
    with assms sz t have r: "r = 4" "4 \<le> sz" by (auto simp: lo_validate_arg_def split: if_splits)
    then have "4 \<le> length data" using assms(3) by simp
    then obtain a b c d rest where "data = a # b # c # d # rest" by (rule bytes4)
    then show ?thesis using r tag [of "OMidi a b c d"] LO_MIDI
      by (intro exI [of _ "OMidi a b c d"]) simp
  next
    case LO_TRUE
    with assms sz t tag [of OTrue] show ?thesis by (auto simp: lo_validate_arg_def intro!: exI [of _ OTrue])
  next
    case LO_FALSE
    with assms sz t tag [of OFalse] show ?thesis by (auto simp: lo_validate_arg_def intro!: exI [of _ OFalse])
  next
    case LO_NIL
    with assms sz t tag [of ONil] show ?thesis by (auto simp: lo_validate_arg_def intro!: exI [of _ ONil])
  next
    case LO_INFINITUM
    with assms sz t tag [of OInfinitum] show ?thesis by (auto simp: lo_validate_arg_def intro!: exI [of _ OInfinitum])
  qed
qed

section \<open>Walking over the arguments\<close>

text \<open>
  The loop \<open>for (i = 0; i < argc; ++i) { len = size(types[i], ptr); conv(types[i], ptr); ptr += len; }\<close>
  over the data region, which is returned converted.
\<close>

fun walk_args ::
  "(byte \<Rightarrow> byte list \<Rightarrow> nat option) \<Rightarrow> (byte \<Rightarrow> byte list \<Rightarrow> byte list option) \<Rightarrow>
   byte list \<Rightarrow> byte list \<Rightarrow> byte list option" where
  "walk_args sz conv [] bs = Some bs"
| "walk_args sz conv (t # ts) bs = do {
     len \<leftarrow> sz t bs;
     bs' \<leftarrow> conv t bs;
     rest \<leftarrow> walk_args sz conv ts (drop len bs');
     Some (take len bs' @ rest)
   }"

locale arg_layout =
  fixes sz :: "byte \<Rightarrow> byte list \<Rightarrow> nat option"
    and conv :: "byte \<Rightarrow> byte list \<Rightarrow> byte list option"
    and tag :: "'a \<Rightarrow> byte"
    and src dst :: "'a \<Rightarrow> byte list"
    and ok :: "'a \<Rightarrow> bool"
  assumes sz_src: "ok a \<Longrightarrow> sz (tag a) (src a @ rest) = Some (length (src a))"
    and conv_src: "ok a \<Longrightarrow> conv (tag a) (src a @ rest) = Some (dst a @ rest)"
    and same_length: "ok a \<Longrightarrow> length (dst a) = length (src a)"
begin

lemma walk_args_converts:
  "list_all ok xs \<Longrightarrow>
   walk_args sz conv (map tag xs) (concat (map src xs) @ rest) = Some (concat (map dst xs) @ rest)"
  by (induction xs) (simp_all add: sz_src conv_src same_length)

lemma length_concat_dst: "list_all ok xs \<Longrightarrow> length (concat (map dst xs)) = length (concat (map src xs))"
  by (induction xs) (simp_all add: same_length)

end

text \<open>The two users: serialisation, from host to network order, and its inverse on received data.\<close>

interpretation ser: arg_layout "lo_arg_size be" "lo_arg_network_endian be" arg_tag "host_arg be" wire_arg arg_ok
  for be
  by unfold_locales (simp_all add: lo_arg_size_host_arg network_endian_host_arg length_host_arg)

interpretation des: arg_layout
  "\<lambda>t bs. map_option nat (lo_validate_arg be t bs (int (length bs)))"
  "lo_arg_host_endian be" arg_tag wire_arg "host_arg be" arg_ok
  for be
  by unfold_locales (simp_all add: lo_validate_arg_wire_arg host_endian_wire_arg length_host_arg)

text \<open>\<open>lo_message_get_argv\<close>: the offsets of the arguments, NULL for those that carry no data.\<close>

fun argv_offsets :: "bool \<Rightarrow> byte list \<Rightarrow> byte list \<Rightarrow> nat \<Rightarrow> nat ptr list option" where
  "argv_offsets be [] bs off = Some []"
| "argv_offsets be (t # ts) bs off = do {
     len \<leftarrow> lo_arg_size be t bs;
     rest \<leftarrow> argv_offsets be ts (drop len bs) (off + len);
     Some ((if len \<noteq> 0 then Ref off else NULL) # rest)
   }"

text \<open>The offsets the abstract arguments have.\<close>

fun arg_offsets :: "osc_arg list \<Rightarrow> nat \<Rightarrow> nat ptr list" where
  "arg_offsets [] off = []"
| "arg_offsets (a # xs) off =
     (if wire_arg a \<noteq> [] then Ref off else NULL) # arg_offsets xs (off + length (wire_arg a))"

lemma argv_offsets_host:
  "list_all arg_ok xs \<Longrightarrow>
   argv_offsets be (map arg_tag xs) (concat (map (host_arg be) xs) @ rest) off = Some (arg_offsets xs off)"
  by (induction xs arbitrary: off) (simp_all add: lo_arg_size_host_arg length_host_arg)

lemma length_arg_offsets [simp]: "length (arg_offsets xs off) = length xs"
  by (induction xs arbitrary: off) simp_all

text \<open>
  The loop of \<open>lo_message_deserialise\<close>: either the error code, or the converted bytes, the entries
  of \<open>argv\<close>, what remains of the data and how many arguments were not reached.
\<close>

fun deser_args ::
  "bool \<Rightarrow> byte list \<Rightarrow> byte list \<Rightarrow> int \<Rightarrow> nat \<Rightarrow> (int + byte list \<times> nat ptr list \<times> int \<times> nat) option" where
  "deser_args be [] bs remain off = Some (Inr (bs, [], remain, 0))"
| "deser_args be (t # ts) bs remain off =
     (if remain < 0 then Some (Inr (bs, replicate (Suc (length ts)) NULL, remain, Suc (length ts)))
      else do {
        len \<leftarrow> lo_validate_arg be t bs remain;
        if len < 0 then Some (Inl LO_EINVALIDARG)
        else do {
          bs' \<leftarrow> lo_arg_host_endian be t bs;
          r \<leftarrow> deser_args be ts (drop (nat len) bs') (remain - len) (off + nat len);
          case r of
            Inl e \<Rightarrow> Some (Inl e)
          | Inr (rest, argv, remain', left_) \<Rightarrow>
              Some (Inr (take (nat len) bs' @ rest, (if len \<noteq> 0 then Ref off else NULL) # argv, remain', left_))
        }
      })"

lemma deser_args_wire:
  "list_all arg_ok xs \<Longrightarrow> int (length (concat (map wire_arg xs))) \<le> remain \<Longrightarrow>
   deser_args be (map arg_tag xs) (concat (map wire_arg xs) @ rest) remain off =
     Some (Inr (concat (map (host_arg be) xs) @ rest, arg_offsets xs off,
                remain - int (length (concat (map wire_arg xs))), 0))"
proof (induction xs arbitrary: remain off)
  case Nil
  then show ?case by simp
next
  case (Cons a xs)
  then have v: "lo_validate_arg be (arg_tag a) (wire_arg a @ r) remain = Some (int (length (wire_arg a)))" for r
    by (intro lo_validate_arg_wire_arg) simp_all
  have "deser_args be (map arg_tag xs) (concat (map wire_arg xs) @ rest)
          (remain - int (length (wire_arg a))) (off + length (wire_arg a)) =
        Some (Inr (concat (map (host_arg be) xs) @ rest, arg_offsets xs (off + length (wire_arg a)),
                remain - int (length (wire_arg a)) - int (length (concat (map wire_arg xs))), 0))"
    using Cons.prems by (intro Cons.IH) simp_all
  moreover have "0 \<le> remain" using Cons.prems by simp
  ultimately show ?case by (simp add: v host_endian_wire_arg length_host_arg)
qed

text \<open>Whatever the loop accepts is the image of well-formed arguments.\<close>

lemma deser_args_SomeD:
  "deser_args be ts bs remain off = Some (Inr (bs', argv, remain', 0)) \<Longrightarrow>
   0 \<le> remain \<Longrightarrow> remain \<le> int (length bs) \<Longrightarrow>
   \<exists>xs rest. ts = map arg_tag xs \<and> list_all arg_ok xs \<and> bs = concat (map wire_arg xs) @ rest
     \<and> remain' = remain - int (length (concat (map wire_arg xs)))"
proof (induction be ts bs remain off arbitrary: bs' argv rule: deser_args.induct)
  case (1 be bs remain off)
  then show ?case by (intro exI [of _ "[]"] exI [of _ bs]) simp
next
  case (2 be t ts bs remain off)
  then obtain len where len: "lo_validate_arg be t bs remain = Some len" "0 \<le> len"
    by (auto simp: not_less split: if_splits bind_splits)
  with "2.prems" obtain a rest where a: "t = arg_tag a" "arg_ok a" "bs = wire_arg a @ rest"
    "len = int (length (wire_arg a))" "len \<le> remain"
    using lo_validate_arg_SomeD by blast
  have conv: "lo_arg_host_endian be t bs = Some (host_arg be a @ rest)"
    by (simp add: a host_endian_wire_arg)
  have dr: "drop (nat len) (host_arg be a @ rest) = rest"
    by (simp add: a length_host_arg)
  obtain r rv where r: "deser_args be ts rest (remain - len) (off + nat len) = Some (Inr (r, rv, remain', 0))"
    using "2.prems"(1,2) len conv dr by (auto simp: not_less split: if_splits bind_splits sum.splits prod.splits)
  have "\<exists>xs rest'. ts = map arg_tag xs \<and> list_all arg_ok xs \<and> rest = concat (map wire_arg xs) @ rest'
     \<and> remain' = remain - len - int (length (concat (map wire_arg xs)))"
    by (rule "2.IH" [OF _ len(1) _ conv, unfolded dr, OF _ _ r])
       (use "2.prems"(2,3) len a in \<open>simp_all add: not_less\<close>)
  then obtain xs rest' where xs: "ts = map arg_tag xs" "list_all arg_ok xs" "rest = concat (map wire_arg xs) @ rest'"
     "remain' = remain - len - int (length (concat (map wire_arg xs)))"
    by blast
  then show ?case using a by (intro exI [of _ "a # xs"] exI [of _ rest']) simp
qed

end
