(* ===== verification/Message.thy ===== *)
theory Message
  imports Growth Args
begin

text \<open>
  The message object of \<open>src/message.c\<close>: allocation, the typed argument functions
  \<open>lo_message_add_*\<close> with the growth of the type and data buffers, the variadic front end, the
  accessors. The abstraction \<open>msg_repr\<close> relates a message to the list of its arguments; every
  \<open>add\<close> function appends one argument to it.
\<close>

section \<open>The object\<close>

text \<open>
  \<open>m_types\<close> and \<open>m_data\<close> are the heap blocks, whose lengths the invariant ties to \<open>m_typesize\<close> and
  \<open>m_datasize\<close>; \<open>m_argv\<close> holds offsets into \<open>m_data\<close>.
\<close>

record lo_message =
  m_types :: "byte list"
  m_typelen :: nat
  m_typesize :: nat
  m_data :: "byte list"
  m_datalen :: nat
  m_datasize :: nat
  m_source :: "nat ptr"
  m_argv :: "nat ptr list ptr"
  m_ts :: lo_timetag
  m_refcount :: int

definition LO_DEF_TYPE_SIZE :: nat where "LO_DEF_TYPE_SIZE = 8"
definition LO_DEF_DATA_SIZE :: nat where "LO_DEF_DATA_SIZE = 8"

text \<open>The result of \<open>calloc\<close> for the types is not checked: a failure there is a NULL write.\<close>

definition lo_message_new :: "alloc \<Rightarrow> lo_message ptr option" where
  "lo_message_new al =
     (case al At_struct 0 of
        None \<Rightarrow> Some NULL
      | Some _ \<Rightarrow> do {
          types \<leftarrow> calloc al At_types LO_DEF_TYPE_SIZE;
          Some (Ref \<lparr>
            m_types = poke types 0 [CHR '','', NUL],
            m_typelen = 1, m_typesize = LO_DEF_TYPE_SIZE,
            m_data = [], m_datalen = 0, m_datasize = 0,
            m_source = NULL, m_argv = NULL, m_ts = LO_TT_IMMEDIATE, m_refcount = 0\<rparr>)
        })"

definition lo_message_incref :: "lo_message \<Rightarrow> lo_message" where
  "lo_message_incref m = m\<lparr>m_refcount := m_refcount m + 1\<rparr>"

text \<open>\<open>strcpy\<close> and \<open>memcpy\<close> into unchecked allocations.\<close>

definition lo_message_clone :: "alloc \<Rightarrow> lo_message ptr \<Rightarrow> lo_message ptr option" where
  "lo_message_clone al mp =
     (case mp of NULL \<Rightarrow> Some NULL
      | Ref m \<Rightarrow>
        (case al At_struct 0 of
           None \<Rightarrow> Some NULL
         | Some _ \<Rightarrow> do {
             types \<leftarrow> calloc al At_types (m_typesize m);
             s \<leftarrow> cstr (m_types m);
             data \<leftarrow> (case calloc al At_data (m_datasize m) of
                        None \<Rightarrow> if m_datalen m = 0 then Some [] else None
                      | Some d \<Rightarrow> Some (poke d 0 (take (m_datalen m) (m_data m))));
             Some (Ref \<lparr>
               m_types = poke types 0 (s @ [NUL]),
               m_typelen = m_typelen m, m_typesize = m_typesize m,
               m_data = data, m_datalen = m_datalen m, m_datasize = m_datasize m,
               m_source = NULL, m_argv = NULL, m_ts = LO_TT_IMMEDIATE, m_refcount = 0\<rparr>)
           }))"

text \<open>\<open>NULL\<close> is the freed object.\<close>

definition lo_message_free :: "lo_message ptr \<Rightarrow> lo_message ptr" where
  "lo_message_free mp =
     (case mp of NULL \<Rightarrow> NULL
      | Ref m \<Rightarrow>
          let m' = m\<lparr>m_refcount := m_refcount m - 1\<rparr> in
          if m_refcount m' \<le> 0 then NULL else Ref m')"

section \<open>Appending an argument\<close>

definition lo_message_add_typechar :: "alloc \<Rightarrow> lo_message \<Rightarrow> byte \<Rightarrow> int \<times> lo_message" where
  "lo_message_add_typechar al m t =
     (let grown =
        (if m_typelen m + 1 \<ge> m_typesize m then
           let new_typesize = (if m_typesize m * 2 = 0 then LO_DEF_TYPE_SIZE else m_typesize m * 2) in
           map_option (\<lambda>ty. m\<lparr>m_types := ty, m_typesize := new_typesize\<rparr>)
             (realloc al At_types (m_types m) new_typesize)
         else Some m)
      in case grown of
        None \<Rightarrow> (- 1, m)
      | Some m1 \<Rightarrow>
          (0, m1\<lparr>m_types := poke (m_types m1) (m_typelen m1) [t, NUL],
                 m_typelen := m_typelen m1 + 1, m_argv := NULL\<rparr>))"

text \<open>Returns the offset of the new data in the (possibly moved) data buffer.\<close>

definition lo_message_add_data :: "alloc \<Rightarrow> lo_message \<Rightarrow> nat \<Rightarrow> nat ptr \<times> lo_message" where
  "lo_message_add_data al m s =
     (let old_dlen = m_datalen m;
          new_datalen = m_datalen m + s;
          size0 = (if m_datasize m = 0 then LO_DEF_DATA_SIZE else m_datasize m);
          new_datasize = lo_pow2_over size0 new_datalen
      in case realloc al At_data (m_data m) new_datasize of
           None \<Rightarrow> (NULL, m)
         | Some new_data \<Rightarrow>
             (Ref old_dlen, m\<lparr>m_datalen := new_datalen, m_datasize := new_datasize,
                              m_data := new_data, m_argv := NULL\<rparr>))"

text \<open>
  The body the typed functions share: make room for \<open>n\<close> bytes, add the type character, then store
  \<open>bytes\<close> through the pointer.
\<close>

definition add_arg :: "alloc \<Rightarrow> lo_message \<Rightarrow> byte \<Rightarrow> nat \<Rightarrow> byte list \<Rightarrow> int \<times> lo_message" where
  "add_arg al m t n bytes =
     (case lo_message_add_data al m n of
        (NULL, m1) \<Rightarrow> (- 1, m1)
      | (Ref nptr, m1) \<Rightarrow>
          (case lo_message_add_typechar al m1 t of
             (r, m2) \<Rightarrow>
               if r \<noteq> 0 then (- 1, m2)
               else (0, m2\<lparr>m_data := poke (m_data m2) nptr bytes\<rparr>)))"

definition lo_message_add_int32 :: "alloc \<Rightarrow> bool \<Rightarrow> lo_message \<Rightarrow> u32 \<Rightarrow> int \<times> lo_message" where
  "lo_message_add_int32 al be m a = add_arg al m (typechar LO_INT32) 4 (host32 be a)"

definition lo_message_add_float :: "alloc \<Rightarrow> bool \<Rightarrow> lo_message \<Rightarrow> u32 \<Rightarrow> int \<times> lo_message" where
  "lo_message_add_float al be m a = add_arg al m (typechar LO_FLOAT) 4 (host32 be a)"

text \<open>\<open>strncpy\<close> with the padded size writes the string and zeroes the rest.\<close>

definition lo_message_add_string :: "alloc \<Rightarrow> lo_message \<Rightarrow> byte list \<Rightarrow> int \<times> lo_message" where
  "lo_message_add_string al m a = add_arg al m (typechar LO_STRING) (lo_strsize a) (padstr a)"

definition lo_message_add_symbol :: "alloc \<Rightarrow> lo_message \<Rightarrow> byte list \<Rightarrow> int \<times> lo_message" where
  "lo_message_add_symbol al m a = add_arg al m (typechar LO_SYMBOL) (lo_strsize a) (padstr a)"

text \<open>
  The block is cleared at its end, then the size and the data are copied; \<open>None\<close> if the blob's
  block is shorter than its header says.
\<close>

definition lo_message_add_blob :: "alloc \<Rightarrow> bool \<Rightarrow> lo_message \<Rightarrow> lo_blob \<Rightarrow> (int \<times> lo_message) option" where
  "lo_message_add_blob al be m a = do {
     sz \<leftarrow> map_option unat (lo_blobsize be a);
     dsize \<leftarrow> map_option unat (lo_blob_datasize be a);
     (case lo_message_add_data al m sz of
        (NULL, m1) \<Rightarrow> Some (- 1, m1)
      | (Ref nptr, m1) \<Rightarrow>
          (case lo_message_add_typechar al m1 (typechar LO_BLOB) of
             (r, m2) \<Rightarrow>
               if r \<noteq> 0 then Some (- 1, m2)
               else if length (lo_blob_dataptr a) < dsize then None
               else
                 let d1 = poke (m_data m2) (nptr + sz - 4) (replicate 4 NUL);
                     d2 = poke d1 nptr (host32 be (word_of_nat dsize));
                     d3 = poke d2 (nptr + 4) (take dsize (lo_blob_dataptr a))
                 in Some (0, m2\<lparr>m_data := d3\<rparr>)))
   }"

definition lo_message_add_int64 :: "alloc \<Rightarrow> bool \<Rightarrow> lo_message \<Rightarrow> u64 \<Rightarrow> int \<times> lo_message" where
  "lo_message_add_int64 al be m a = add_arg al m (typechar LO_INT64) 8 (host64 be a)"

definition lo_message_add_timetag :: "alloc \<Rightarrow> bool \<Rightarrow> lo_message \<Rightarrow> lo_timetag \<Rightarrow> int \<times> lo_message" where
  "lo_message_add_timetag al be m a =
     add_arg al m (typechar LO_TIMETAG) 8 (host32 be (tt_sec a) @ host32 be (tt_frac a))"

definition lo_message_add_double :: "alloc \<Rightarrow> bool \<Rightarrow> lo_message \<Rightarrow> u64 \<Rightarrow> int \<times> lo_message" where
  "lo_message_add_double al be m a = add_arg al m (typechar LO_DOUBLE) 8 (host64 be a)"

text \<open>\<open>b.i = 0; b.c = a\<close>: the character is the first byte of the cell in memory, on every host.\<close>

definition lo_message_add_char :: "alloc \<Rightarrow> lo_message \<Rightarrow> byte \<Rightarrow> int \<times> lo_message" where
  "lo_message_add_char al m a = add_arg al m (typechar LO_CHAR) 4 [a, NUL, NUL, NUL]"

definition lo_message_add_midi :: "alloc \<Rightarrow> lo_message \<Rightarrow> byte \<times> byte \<times> byte \<times> byte \<Rightarrow> int \<times> lo_message" where
  "lo_message_add_midi al m a =
     (case a of (a0, a1, a2, a3) \<Rightarrow> add_arg al m (typechar LO_MIDI) 4 [a0, a1, a2, a3])"

definition lo_message_add_true :: "alloc \<Rightarrow> lo_message \<Rightarrow> int \<times> lo_message" where
  "lo_message_add_true al m = lo_message_add_typechar al m (typechar LO_TRUE)"

definition lo_message_add_false :: "alloc \<Rightarrow> lo_message \<Rightarrow> int \<times> lo_message" where
  "lo_message_add_false al m = lo_message_add_typechar al m (typechar LO_FALSE)"

definition lo_message_add_nil :: "alloc \<Rightarrow> lo_message \<Rightarrow> int \<times> lo_message" where
  "lo_message_add_nil al m = lo_message_add_typechar al m (typechar LO_NIL)"

definition lo_message_add_infinitum :: "alloc \<Rightarrow> lo_message \<Rightarrow> int \<times> lo_message" where
  "lo_message_add_infinitum al m = lo_message_add_typechar al m (typechar LO_INFINITUM)"

section \<open>The variadic front end\<close>

text \<open>
  The variable arguments, as the caller passed them. \<open>Va_marker_a\<close> and \<open>Va_marker_b\<close> are the
  sentinels the macros append. A \<open>double\<close> passed for \<open>'f'\<close> is narrowed by the C conversion
  \<open>to_float\<close>, on bit patterns. Fetching an argument of another type is undefined behaviour.
\<close>

datatype va =
    Va_i32 u32 | Va_dbl u64 | Va_str "byte list" | Va_blob lo_blob | Va_i64 u64
  | Va_tt lo_timetag | Va_midi byte byte byte byte | Va_marker_a | Va_marker_b | Va_ptr

text \<open>
  The loop over the type string; every \<open>add\<close> call may allocate, the \<open>count\<close>-th one with \<open>al count\<close>,
  and its result is ignored as in the source. The result of an early return is tagged with \<open>True\<close>.
\<close>

fun va_loop ::
  "(nat \<Rightarrow> alloc) \<Rightarrow> bool \<Rightarrow> (u64 \<Rightarrow> u32) \<Rightarrow> nat \<Rightarrow> lo_message \<Rightarrow> byte list \<Rightarrow> va list \<Rightarrow> int \<Rightarrow>
   (bool \<times> int \<times> lo_message \<times> va list) option" where
  "va_loop al be to_float count m [] ap ret = Some (False, ret, m, ap)"
| "va_loop al be to_float count m (c # types) ap ret =
     (let next = (\<lambda>m ap. va_loop al be to_float (Suc count) m types ap ret);
          unknown = va_loop al be to_float (Suc count) m types ap (- 1);
          mem = al (Suc count)
      in case lo_type_of c of
        Some LO_INT32 \<Rightarrow>
          (case ap of Va_i32 i # ap' \<Rightarrow> next (snd (lo_message_add_int32 mem be m i)) ap' | _ \<Rightarrow> None)
      | Some LO_FLOAT \<Rightarrow>
          (case ap of Va_dbl d # ap' \<Rightarrow> next (snd (lo_message_add_float mem be m (to_float d))) ap' | _ \<Rightarrow> None)
      | Some LO_STRING \<Rightarrow>
          (case ap of Va_str s # ap' \<Rightarrow> next (snd (lo_message_add_string mem m s)) ap' | _ \<Rightarrow> None)
      | Some LO_BLOB \<Rightarrow>
          (case ap of Va_blob b # ap' \<Rightarrow>
             (case lo_message_add_blob mem be m b of None \<Rightarrow> None | Some (_, m') \<Rightarrow> next m' ap') | _ \<Rightarrow> None)
      | Some LO_INT64 \<Rightarrow>
          (case ap of Va_i64 i # ap' \<Rightarrow> next (snd (lo_message_add_int64 mem be m i)) ap' | _ \<Rightarrow> None)
      | Some LO_TIMETAG \<Rightarrow>
          (case ap of Va_tt t # ap' \<Rightarrow> next (snd (lo_message_add_timetag mem be m t)) ap' | _ \<Rightarrow> None)
      | Some LO_DOUBLE \<Rightarrow>
          (case ap of Va_dbl d # ap' \<Rightarrow> next (snd (lo_message_add_double mem be m d)) ap' | _ \<Rightarrow> None)
      | Some LO_SYMBOL \<Rightarrow>
          (case ap of Va_str s # ap' \<Rightarrow> next (snd (lo_message_add_symbol mem m s)) ap'
           | Va_marker_a # ap' \<Rightarrow> Some (True, - 2, m, ap') | _ \<Rightarrow> None)
      | Some LO_CHAR \<Rightarrow>
          (case ap of Va_i32 i # ap' \<Rightarrow> next (snd (lo_message_add_char mem m (byte_of i))) ap' | _ \<Rightarrow> None)
      | Some LO_MIDI \<Rightarrow>
          (case ap of Va_midi m0 m1 m2 m3 # ap' \<Rightarrow>
             next (snd (lo_message_add_midi mem m (m0, m1, m2, m3))) ap' | _ \<Rightarrow> None)
      | Some LO_TRUE \<Rightarrow> next (snd (lo_message_add_true mem m)) ap
      | Some LO_FALSE \<Rightarrow> next (snd (lo_message_add_false mem m)) ap
      | Some LO_NIL \<Rightarrow> next (snd (lo_message_add_nil mem m)) ap
      | Some LO_INFINITUM \<Rightarrow> next (snd (lo_message_add_infinitum mem m)) ap
      | None \<Rightarrow>
          if c = CHR ''$'' \<and> types \<noteq> [] \<and> hd types = CHR ''$'' then Some (True, 0, m, ap)
          else unknown)"

text \<open>
  Then the two sentinels are checked (builds without \<open>USE_ANSI_C\<close>). \<open>Va_ptr\<close> stands for any other
  pointer; an argument that was not passed is undefined behaviour.
\<close>

definition lo_message_add_varargs_internal ::
  "(nat \<Rightarrow> alloc) \<Rightarrow> bool \<Rightarrow> (u64 \<Rightarrow> u32) \<Rightarrow> lo_message \<Rightarrow> byte list ptr \<Rightarrow> va list \<Rightarrow>
   (int \<times> lo_message) option" where
  "lo_message_add_varargs_internal al be to_float msg types ap = do {
     (early, ret, m, ap') \<leftarrow>
       va_loop al be to_float 0 msg (case types of NULL \<Rightarrow> [] | Ref t \<Rightarrow> t) ap 0;
     (if early then Some (ret, m)
      else case ap' of
        [] \<Rightarrow> None
      | a # ap'' \<Rightarrow>
          if a \<noteq> Va_marker_a then Some (- 2, m)
          else (case ap'' of
              [] \<Rightarrow> None
            | b # _ \<Rightarrow> Some (if b \<noteq> Va_marker_b then - 2 else ret, m)))
   }"

section \<open>Accessors\<close>

definition lo_message_get_source :: "lo_message \<Rightarrow> nat ptr" where
  "lo_message_get_source m = m_source m"

definition lo_message_get_timestamp :: "lo_message \<Rightarrow> lo_timetag" where
  "lo_message_get_timestamp m = m_ts m"

definition lo_message_get_argc :: "lo_message \<Rightarrow> int" where
  "lo_message_get_argc m = int (m_typelen m) - 1"

definition lo_message_get_types :: "lo_message \<Rightarrow> byte list" where
  "lo_message_get_types m = drop 1 (m_types m)"

text \<open>Computed once, then kept until an argument is added. The array is not checked for NULL.\<close>

definition lo_message_get_argv :: "bool \<Rightarrow> lo_message \<Rightarrow> (nat ptr list \<times> lo_message) option" where
  "lo_message_get_argv be m =
     (case m_argv m of
        Ref argv \<Rightarrow> Some (argv, m)
      | NULL \<Rightarrow> do {
          argv \<leftarrow> argv_offsets be (take (m_typelen m - 1) (drop 1 (m_types m))) (m_data m) 0;
          Some (argv, m\<lparr>m_argv := Ref argv\<rparr>)
        })"

text \<open>\<open>lo_strsize(m->types)\<close> reads the type string in memory.\<close>

definition lo_message_length :: "lo_message \<Rightarrow> byte list \<Rightarrow> nat option" where
  "lo_message_length m path =
     map_option (\<lambda>ty. lo_strsize path + lo_strsize ty + m_datalen m) (cstr (m_types m))"

section \<open>The abstraction\<close>

text \<open>The type buffer holds the tags of \<open>xs\<close>, terminated, with room for the terminator.\<close>

definition types_ok :: "lo_message \<Rightarrow> osc_arg list \<Rightarrow> bool" where
  "types_ok m xs \<longleftrightarrow>
     m_typelen m = Suc (length xs) \<and> m_typelen m < m_typesize m \<and>
     length (m_types m) = m_typesize m \<and>
     take (length xs + 2) (m_types m) = CHR '','' # map arg_tag xs @ [NUL]"

text \<open>The data buffer holds the images of \<open>xs\<close>, inside its allocation.\<close>

definition data_ok :: "bool \<Rightarrow> lo_message \<Rightarrow> osc_arg list \<Rightarrow> bool" where
  "data_ok be m xs \<longleftrightarrow>
     length (m_data m) = m_datasize m \<and> m_datalen m \<le> m_datasize m \<and> 4 dvd m_datasize m \<and>
     take (m_datalen m) (m_data m) = concat (map (host_arg be) xs)"

definition msg_repr :: "bool \<Rightarrow> lo_message \<Rightarrow> osc_arg list \<Rightarrow> bool" where
  "msg_repr be m xs \<longleftrightarrow>
     list_all arg_ok xs \<and> types_ok m xs \<and> data_ok be m xs \<and>
     (m_argv m = NULL \<or> m_argv m = Ref (arg_offsets xs 0))"

text \<open>The bytes of the data region; the same number on the wire.\<close>

definition args_len :: "osc_arg list \<Rightarrow> nat" where
  "args_len xs = length (concat (map wire_arg xs))"

lemma args_len_simps [simp]:
  "args_len [] = 0" "args_len (a # xs) = length (wire_arg a) + args_len xs"
  "args_len (xs @ ys) = args_len xs + args_len ys"
  by (simp_all add: args_len_def)

lemma length_concat_host: "length (concat (map (host_arg be) xs)) = args_len xs"
  by (induction xs) (simp_all add: length_host_arg)

lemma args_len_dvd: "4 dvd args_len xs"
  by (induction xs) (simp_all add: wire_arg_dvd)

lemma data_ok_datalen: "data_ok be m xs \<Longrightarrow> m_datalen m = args_len xs"
  using length_concat_host [of be xs] by (auto simp: data_ok_def dest: arg_cong [of _ _ length])

lemma types_ok_add:
  assumes "types_ok m xs" "alloc_ok al" "lo_message_add_typechar al m (arg_tag a) = (0, m')"
  shows "types_ok m' (xs @ [a])"
    and "m_data m' = m_data m" "m_datalen m' = m_datalen m" "m_datasize m' = m_datasize m" "m_argv m' = NULL"
proof -
  define need where "need = m_typelen m + length [arg_tag a, NUL]"
  have ty: "m_typelen m = Suc (length xs)" "m_typelen m < m_typesize m" "length (m_types m) = m_typesize m"
    "take (length xs + 2) (m_types m) = CHR '','' # map arg_tag xs @ [NUL]"
    using assms(1) unfolding types_ok_def by blast+
  have pre: "take (m_typelen m) (m_types m) = CHR '','' # map arg_tag xs"
  proof -
    have "take (m_typelen m) (m_types m) = take (m_typelen m) (take (length xs + 2) (m_types m))"
      by (simp add: ty(1))
    also have "\<dots> = CHR '','' # map arg_tag xs" unfolding ty(4) by (simp add: ty(1))
    finally show ?thesis .
  qed
  obtain buf where buf: "m' = m\<lparr>m_types := poke buf (m_typelen m) [arg_tag a, NUL],
      m_typesize := double_over (m_typesize m) need, m_typelen := m_typelen m + 1, m_argv := NULL\<rparr>"
    and len: "length (poke buf (m_typelen m) [arg_tag a, NUL]) = double_over (m_typesize m) need"
    and bytes: "take need (poke buf (m_typelen m) [arg_tag a, NUL]) = take (m_typelen m) (m_types m) @ [arg_tag a, NUL]"
  proof (cases "m_typelen m + 1 \<ge> m_typesize m")
    case True
    then have d: "double_over (m_typesize m) need = m_typesize m * 2"
      by (simp add: double_over_def need_def)
    obtain buf where b: "realloc al At_types (m_types m) (double_over (m_typesize m) need) = Some buf"
      "m' = m\<lparr>m_types := poke buf (m_typelen m) [arg_tag a, NUL],
        m_typesize := double_over (m_typesize m) need, m_typelen := m_typelen m + 1, m_argv := NULL\<rparr>"
      using True assms(3) ty(2) d by (auto simp: lo_message_add_typechar_def Let_def split: option.splits if_splits)
    show thesis
      using dbl.append_realloc [OF assms(2) b(1) [unfolded need_def]] ty(1-3) b(2) that [of buf]
      by (simp add: need_def)
  next
    case False
    then have d: "double_over (m_typesize m) need = m_typesize m"
      by (simp add: double_over_def need_def)
    have "m' = m\<lparr>m_types := poke (m_types m) (m_typelen m) [arg_tag a, NUL],
        m_typesize := m_typesize m, m_typelen := m_typelen m + 1, m_argv := NULL\<rparr>"
      using False assms(3) by (auto simp: lo_message_add_typechar_def)
    moreover have "take need (poke (m_types m) (m_typelen m) [arg_tag a, NUL]) = take (m_typelen m) (m_types m) @ [arg_tag a, NUL]"
      unfolding need_def by (rule take_poke_end) (simp add: ty(3) less_imp_le [OF ty(2)])
    ultimately show thesis
      using that [of "m_types m"] False d by (simp add: length_poke ty(3))
  qed
  show "types_ok m' (xs @ [a])"
    using len bytes ty(1,2) pre by (simp add: buf types_ok_def need_def double_over_def)
  show "m_data m' = m_data m" "m_datalen m' = m_datalen m" "m_datasize m' = m_datasize m" "m_argv m' = NULL"
    by (simp_all add: buf)
qed

lemma add_data_grows:
  assumes "data_ok be m xs" "alloc_ok al" "4 dvd n" "args_len xs + n \<le> lo_pow2_safe" "length bytes = n"
    and "lo_message_add_data al m n = (Ref off, m')"
  shows "off = m_datalen m" "m_datalen m' = m_datalen m + n" "m_types m' = m_types m"
    "m_typelen m' = m_typelen m" "m_typesize m' = m_typesize m"
    "length (poke (m_data m') off bytes) = m_datasize m'" "m_datalen m' \<le> m_datasize m'" "4 dvd m_datasize m'"
    "take (m_datalen m') (poke (m_data m') off bytes) = concat (map (host_arg be) xs) @ bytes"
    "length (m_data m') = m_datasize m'"
proof -
  have dl: "m_datalen m = args_len xs" using assms(1) by (rule data_ok_datalen)
  have dt: "length (m_data m) = m_datasize m" "m_datalen m \<le> m_datasize m" "4 dvd m_datasize m"
     "take (m_datalen m) (m_data m) = concat (map (host_arg be) xs)"
    using assms(1) by (simp_all add: data_ok_def)
  define cap where "cap = (if m_datasize m = 0 then LO_DEF_DATA_SIZE else m_datasize m)"
  obtain buf where b: "realloc al At_data (m_data m) (lo_pow2_over cap (m_datalen m + length bytes)) = Some buf"
    "off = m_datalen m"
    "m' = m\<lparr>m_datalen := m_datalen m + n, m_datasize := lo_pow2_over cap (m_datalen m + n),
            m_data := buf, m_argv := NULL\<rparr>"
    using assms(5,6) by (auto simp: lo_message_add_data_def cap_def Let_def split: option.splits)
  have cap: "0 < cap \<and> 4 dvd cap" "m_datasize m \<le> cap"
    using dt(3) by (auto simp: cap_def LO_DEF_DATA_SIZE_def)
  have safe: "4 dvd m_datalen m + length bytes \<and> m_datalen m + length bytes \<le> lo_pow2_safe"
    using assms(3,4,5) args_len_dvd [of xs] by (simp add: dl)
  have len: "m_datalen m \<le> length (m_data m)" "length (m_data m) \<le> cap"
    using dt cap by simp_all
  have res: "length (poke buf off bytes) = m_datasize m'"
     "take (m_datalen m') (poke buf off bytes) = concat (map (host_arg be) xs) @ bytes"
    using pow2.append_realloc [OF assms(2) b(1) len cap(1) safe] dt(4) assms(5) by (simp_all add: b)
  then show "length (poke (m_data m') off bytes) = m_datasize m'"
    "take (m_datalen m') (poke (m_data m') off bytes) = concat (map (host_arg be) xs) @ bytes"
    by (simp_all add: b)
  show "length (m_data m') = m_datasize m'"
    using length_realloc [OF assms(2) b(1)] assms(5) by (simp add: b)
  show "m_datalen m' \<le> m_datasize m'"
    using pow2.grow_enough [OF cap(1) safe] assms(5) by (simp add: b)
  show "4 dvd m_datasize m'"
    using pow2.grow_cap_ok [OF cap(1) safe] assms(5) by (simp add: b)
qed (use assms(6) in \<open>auto simp: lo_message_add_data_def Let_def split: option.splits\<close>)

text \<open>The typed functions with data.\<close>

lemma add_arg_repr:
  assumes "msg_repr be m xs" "alloc_ok al" "arg_ok a"
    and "args_len xs + length (wire_arg a) \<le> lo_pow2_safe"
    and "add_arg al m (arg_tag a) (length (wire_arg a)) (host_arg be a) = (0, m')"
  shows "msg_repr be m' (xs @ [a])"
proof -
  obtain off m1 m2 where
    1: "lo_message_add_data al m (length (wire_arg a)) = (Ref off, m1)"
    and 2: "lo_message_add_typechar al m1 (arg_tag a) = (0, m2)"
    and 3: "m' = m2\<lparr>m_data := poke (m_data m2) off (host_arg be a)\<rparr>"
    using assms(5) by (auto simp: add_arg_def split: prod.splits ptr.splits if_splits)
  have repr: "list_all arg_ok xs" "types_ok m xs" "data_ok be m xs"
    using assms(1) by (simp_all add: msg_repr_def)
  note d = add_data_grows [OF repr(3) assms(2) wire_arg_dvd assms(4) length_host_arg 1]
  have "types_ok m1 xs" using repr(2) d by (simp add: types_ok_def)
  note t = types_ok_add [OF this assms(2) 2]
  have "types_ok m' (xs @ [a])" using t by (simp add: 3 types_ok_def)
  moreover have "data_ok be m' (xs @ [a])" using t d by (simp add: 3 data_ok_def)
  ultimately show ?thesis using repr assms(3) t by (simp add: msg_repr_def 3)
qed

text \<open>The argument types without data add only their tag.\<close>

lemma add_typechar_repr:
  assumes "msg_repr be m xs" "alloc_ok al" "arg_ok a" "wire_arg a = []"
    and "lo_message_add_typechar al m (arg_tag a) = (0, m')"
  shows "msg_repr be m' (xs @ [a])"
proof -
  have repr: "list_all arg_ok xs" "types_ok m xs" "data_ok be m xs"
    using assms(1) by (simp_all add: msg_repr_def)
  note t = types_ok_add [OF repr(2) assms(2,5)]
  have "host_arg be a = []" using assms(4) length_host_arg [of be a] by simp
  with repr t have "data_ok be m' (xs @ [a])" by (simp add: data_ok_def)
  with repr t assms(3) show ?thesis by (simp add: msg_repr_def)
qed

section \<open>The typed functions append one argument\<close>

lemma add_typechar_total: "alloc_total al \<Longrightarrow> \<exists>m'. lo_message_add_typechar al m t = (0, m')"
  using realloc_total [of al At_types "m_types m" "if m_typesize m * 2 = 0 then LO_DEF_TYPE_SIZE else m_typesize m * 2"]
  by (auto simp: lo_message_add_typechar_def Let_def)

lemma add_data_total: "alloc_total al \<Longrightarrow> \<exists>m'. lo_message_add_data al m n = (Ref (m_datalen m), m')"
  using realloc_total [of al At_data "m_data m"
      "lo_pow2_over (if m_datasize m = 0 then LO_DEF_DATA_SIZE else m_datasize m) (m_datalen m + n)"]
  by (auto simp: lo_message_add_data_def Let_def)

lemma add_arg_total: "alloc_total al \<Longrightarrow> \<exists>m'. add_arg al m t n bs = (0, m')"
proof -
  assume al: "alloc_total al"
  obtain m1 where "lo_message_add_data al m n = (Ref (m_datalen m), m1)"
    using add_data_total [OF al] by blast
  moreover obtain m2 where "lo_message_add_typechar al m1 t = (0, m2)"
    using add_typechar_total [OF al] by blast
  ultimately show ?thesis by (simp add: add_arg_def)
qed

text \<open>The cell \<open>lo_message_add_char\<close> stores depends on the host's byte order.\<close>

definition char_cell :: "bool \<Rightarrow> byte \<Rightarrow> u32" where
  "char_cell be c = (if be then join32 c NUL NUL NUL else join32 NUL NUL NUL c)"

lemma host32_char_cell [simp]: "host32 be (char_cell be c) = [c, NUL, NUL, NUL]"
  by (simp add: host32_def char_cell_def)

lemma host_arg_char: "host_arg be (OChar (char_cell be c)) = [c, NUL, NUL, NUL]"
  by simp

text \<open>
  What a receiver reads through \<open>argv->c\<close>, the first byte of the cell in its own byte order: the character
  only where that is the order of the sender.
\<close>

lemma char_read: "hd (host_arg be' (OChar (char_cell be c))) = (if be' = be then c else NUL)"
  by (cases be; cases be') (simp_all add: host32_def char_cell_def)

text \<open>The three writes of \<open>lo_message_add_blob\<close> together.\<close>

lemma poke_split:
  "length pre = off \<Longrightarrow> length old = length new \<Longrightarrow> poke (pre @ old @ post) off new = pre @ new @ post"
  by (simp add: poke_def)

lemma blob_pokes:
  assumes "off + blob_len (length d) \<le> length buf"
  shows "poke (poke (poke buf (off + blob_len (length d) - 4) (replicate 4 NUL)) off (host32 be w)) (off + 4) d
       = poke buf off (host32 be w @ blob_pad d)"
proof -
  define n where "n = blob_len (length d)"
  have n: "4 \<le> n" "n \<le> length (host32 be w @ d) + 4" "length (host32 be w @ d) \<le> n"
    using blob_len_bounds [of "length d"] by (simp_all add: n_def)
  have fits: "off + n \<le> length buf" using assms by (simp add: n_def)
  define buf' where "buf' = poke buf (off + n - 4) (replicate 4 NUL)"
  have "length buf' = length buf" using n fits by (simp add: buf'_def length_poke)
  then have "poke (poke buf' off (host32 be w)) (off + 4) d = poke buf' off (host32 be w @ d)"
    using poke_append [of off "host32 be w" d buf'] n fits by simp
  also have "\<dots> = poke buf off ((host32 be w @ d) @ replicate (n - length (host32 be w @ d)) NUL)"
    unfolding buf'_def using n fits by (intro poke_cleared)
  finally show ?thesis by (simp add: buf'_def n_def blob_pad_def)
qed

lemma add_typechar_keeps:
  "lo_message_add_typechar al m t = (r, m') \<Longrightarrow> m_data m' = m_data m"
  by (auto simp: lo_message_add_typechar_def Let_def split: option.splits if_splits)

lemma lo_message_add_blob_eq:
  assumes "msg_repr be m xs" "alloc_ok al" "arg_ok (OBlob d)"
    and "args_len xs + blob_len (length d) \<le> lo_pow2_safe"
  shows "lo_message_add_blob al be m (blob_block be d) =
     Some (add_arg al m (arg_tag (OBlob d)) (blob_len (length d)) (host_arg be (OBlob d)))"
proof -
  have d: "length d \<le> LO_MAX_MSG_SIZE" using assms(3) by simp
  have size: "map_option unat (lo_blobsize be (blob_block be d)) = Some (blob_len (length d))"
    using lo_blobsize_block [of d be "[]"] d by (simp add: LO_MAX_MSG_SIZE_def)
  have dsize: "map_option unat (lo_blob_datasize be (blob_block be d)) = Some (length d)"
    using unat_small [of "length d"] d by (simp add: lo_blob_datasize_def blob_block_def LO_MAX_MSG_SIZE_def)
  have ptr: "lo_blob_dataptr (blob_block be d) = d"
    by (simp add: lo_blob_dataptr_def blob_block_def)
  have repr: "data_ok be m xs" using assms(1) by (simp add: msg_repr_def)
  have len: "length (host_arg be (OBlob d)) = blob_len (length d)"
    by (simp del: length_blob_pad')
  have fits: "off + blob_len (length d) \<le> length (m_data m1)"
    if "lo_message_add_data al m (blob_len (length d)) = (Ref off, m1)" for off m1
    using add_data_grows [OF repr assms(2) _ assms(4) len that] by simp
  show ?thesis
    unfolding lo_message_add_blob_def size dsize
    by (auto simp: add_arg_def ptr arg_tag_def Let_def blob_pokes fits dest!: add_typechar_keeps
        split: prod.splits ptr.splits)
qed

text \<open>What the variable arguments must be for a list of OSC arguments to be sent.\<close>

fun va_arg_of :: "bool \<Rightarrow> (u64 \<Rightarrow> u32) \<Rightarrow> osc_arg \<Rightarrow> va list \<Rightarrow> bool" where
  "va_arg_of be to_float (OInt32 w) v = (v = [Va_i32 w])"
| "va_arg_of be to_float (OFloat w) v = (\<exists>d. v = [Va_dbl d] \<and> to_float d = w)"
| "va_arg_of be to_float (OString s) v = (v = [Va_str s])"
| "va_arg_of be to_float (OBlob d) v = (v = [Va_blob (blob_block be d)])"
| "va_arg_of be to_float (OInt64 w) v = (v = [Va_i64 w])"
| "va_arg_of be to_float (OTimetag t) v = (v = [Va_tt t])"
| "va_arg_of be to_float (ODouble w) v = (v = [Va_dbl w])"
| "va_arg_of be to_float (OSymbol s) v = (v = [Va_str s])"
| "va_arg_of be to_float (OChar w) v = (\<exists>i. v = [Va_i32 i] \<and> w = char_cell be (byte_of i))"
| "va_arg_of be to_float (OMidi a b c d) v = (v = [Va_midi a b c d])"
| "va_arg_of be to_float _ v = (v = [])"

text \<open>One step of the loop adds one argument.\<close>

lemma va_step:
  assumes "va_arg_of be to_float a v" "msg_repr be m xs" "arg_ok a"
    and "alloc_total (al (Suc count))" "args_len xs + length (wire_arg a) \<le> lo_pow2_safe"
  shows "\<exists>m'. msg_repr be m' (xs @ [a]) \<and>
     va_loop al be to_float count m (arg_tag a # types) (v @ ap) ret =
     va_loop al be to_float (Suc count) m' types ap ret"
proof -
  let ?al = "al (Suc count)"
  have ok: "alloc_ok ?al" using assms(4) by (rule alloc_total_ok)
  obtain m1 where m1: "add_arg ?al m (arg_tag a) (length (wire_arg a)) (host_arg be a) = (0, m1)"
    using add_arg_total [OF assms(4)] by blast
  have r1: "msg_repr be m1 (xs @ [a])"
    using assms(2,3,5) ok m1 by (intro add_arg_repr)
  obtain m2 where m2: "lo_message_add_typechar ?al m (arg_tag a) = (0, m2)"
    using add_typechar_total [OF assms(4)] by blast
  have r2: "msg_repr be m2 (xs @ [a])" if "wire_arg a = []"
    using assms(2,3) ok m2 that by (intro add_typechar_repr)
  note add_defs = lo_message_add_int32_def lo_message_add_float_def lo_message_add_string_def
    lo_message_add_symbol_def lo_message_add_int64_def lo_message_add_timetag_def
    lo_message_add_double_def lo_message_add_char_def lo_message_add_midi_def
    lo_message_add_true_def lo_message_add_false_def lo_message_add_nil_def lo_message_add_infinitum_def
  show ?thesis
  proof (cases a)
    case (OBlob d)
    have "lo_message_add_blob ?al be m (blob_block be d) = Some (0, m1)"
      using lo_message_add_blob_eq [OF assms(2) ok, of d] assms(3,5) m1 OBlob by (simp del: length_blob_pad')
    then show ?thesis using assms(1) r1 OBlob by (intro exI [of _ m1]) simp
  next
    case (OMidi a b c d)
    then have "add_arg ?al m (typechar LO_MIDI) 4 [a, b, c, d] = (0, m1)"
      using m1 by (simp add: arg_tag_def eval_nat_numeral)
    then show ?thesis using assms(1) r1 OMidi by (intro exI [of _ m1]) (simp add: add_defs)
  qed (use assms(1) m1 m2 r1 r2 in \<open>auto simp: add_defs arg_tag_def Let_def\<close>)
qed

lemma va_loop_args:
  assumes "list_all2 (va_arg_of be to_float) ys vs" "msg_repr be m xs" "list_all arg_ok ys"
    and "\<And>c. alloc_total (al c)" "args_len (xs @ ys) \<le> lo_pow2_safe"
  shows "\<exists>m'. msg_repr be m' (xs @ ys) \<and>
     va_loop al be to_float count m (map arg_tag ys) (concat vs @ ap) ret = Some (False, ret, m', ap)"
  using assms(1-3,5)
proof (induction ys arbitrary: vs m xs count)
  case Nil
  then show ?case by auto
next
  case (Cons a ys)
  then obtain v vs' where vs: "vs = v # vs'" "va_arg_of be to_float a v" "list_all2 (va_arg_of be to_float) ys vs'"
    by (auto simp: list_all2_Cons1)
  obtain m1 where m1: "msg_repr be m1 (xs @ [a])"
    "va_loop al be to_float count m (arg_tag a # map arg_tag ys) (v @ concat vs' @ ap) ret =
     va_loop al be to_float (Suc count) m1 (map arg_tag ys) (concat vs' @ ap) ret"
    using va_step [OF vs(2) Cons.prems(2), where count = count and al = al and types = "map arg_tag ys"
        and ap = "concat vs' @ ap" and ret = ret] assms(4) Cons.prems by auto
  obtain m2 where "msg_repr be m2 ((xs @ [a]) @ ys)"
    "va_loop al be to_float (Suc count) m1 (map arg_tag ys) (concat vs' @ ap) ret = Some (False, ret, m2, ap)"
    using Cons.IH [OF vs(3) m1(1), where count = "Suc count"] Cons.prems by auto
  then show ?case using m1(2) vs(1) by auto
qed

lemma lo_message_new_repr:
  assumes "alloc_total al"
  shows "\<exists>m. lo_message_new al = Some (Ref m) \<and> msg_repr be m [] \<and> m_refcount m = 0 \<and> m_ts m = LO_TT_IMMEDIATE"
proof -
  obtain x y where "al At_struct 0 = Some x" "al At_types LO_DEF_TYPE_SIZE = Some y"
    using assms unfolding alloc_total_def by (metis not_None_eq)
  then show ?thesis
    by (simp add: lo_message_new_def calloc_def msg_repr_def types_ok_def data_ok_def LO_DEF_TYPE_SIZE_def
        poke_def eval_nat_numeral)
qed

lemma lo_message_get_argv_repr:
  assumes "msg_repr be m xs"
  shows "\<exists>m'. lo_message_get_argv be m = Some (arg_offsets xs 0, m') \<and> msg_repr be m' xs"
proof (cases "m_argv m")
  case (Ref argv)
  then show ?thesis using assms by (simp add: lo_message_get_argv_def msg_repr_def)
next
  case NULL
  have t: "take (length xs + 2) (m_types m) = CHR '','' # map arg_tag xs @ [NUL]" "m_typelen m = Suc (length xs)"
    using assms by (simp_all add: msg_repr_def types_ok_def)
  have "take (length xs) (drop 1 (m_types m)) = take (length xs) (drop 1 (take (length xs + 2) (m_types m)))"
    by (simp add: drop_take)
  then have "take (m_typelen m - 1) (drop 1 (m_types m)) = map arg_tag xs"
    unfolding t(1) by (simp add: t(2))
  moreover have "m_data m = concat (map (host_arg be) xs) @ drop (m_datalen m) (m_data m)"
    using assms by (metis append_take_drop_id data_ok_def msg_repr_def)
  then have "argv_offsets be (map arg_tag xs) (m_data m) 0 = Some (arg_offsets xs 0)"
    using assms argv_offsets_host [of xs be "drop (m_datalen m) (m_data m)" 0] by (simp add: msg_repr_def)
  ultimately show ?thesis
    using NULL assms by (simp add: lo_message_get_argv_def msg_repr_def types_ok_def data_ok_def)
qed

section \<open>Properties\<close>

text \<open>
  A heap overflow: a string that takes 131076 bytes, added to a new message, is written to a
  buffer of 131072 bytes, because \<open>lo_pow2_over\<close> returns less than it was asked for.
\<close>

theorem long_string_overflows:
  assumes "lo_message_new al = Some (Ref m)" "alloc_total al" "lo_strsize s = 131076"
  shows "\<exists>m'. lo_message_add_string al m s = (0, m') \<and> m_datasize m' = 131072 \<and> length (m_data m') = 131076"
proof -
  have m: "m_data m = []" "m_datalen m = 0" "m_datasize m = 0"
    using assms(1) by (auto simp: lo_message_new_def split: option.splits bind_splits)
  obtain new where new: "realloc al At_data [] 131072 = Some new" "length new = 131072"
    using realloc_total [OF assms(2)] length_realloc [OF alloc_total_ok [OF assms(2)]] by blast
  define m1 where "m1 = m\<lparr>m_datalen := 131076, m_datasize := 131072, m_data := new, m_argv := NULL\<rparr>"
  have d: "lo_message_add_data al m 131076 = (Ref 0, m1)"
    using new(1) by (simp add: lo_message_add_data_def m LO_DEF_DATA_SIZE_def lo_pow2_over_short Let_def m1_def)
  obtain m2 where t: "lo_message_add_typechar al m1 (typechar LO_STRING) = (0, m2)"
    using add_typechar_total [OF assms(2)] by blast
  have m2: "m_data m2 = new" "m_datasize m2 = 131072"
    using t by (auto simp: m1_def lo_message_add_typechar_def Let_def split: option.splits if_splits)
  have "length (poke new 0 (padstr s)) = 131076" using assms(3) new(2) by (simp add: poke_def)
  then show ?thesis using m2 by (simp add: lo_message_add_string_def add_arg_def assms(3) d t)
qed

theorem long_string_overflows_witness:
  "\<exists>m m'. lo_message_add_string al_zero m (replicate 131072 CHR ''a'') = (0, m') \<and> m_datasize m' < length (m_data m')"
proof -
  obtain m where m: "lo_message_new al_zero = Some (Ref m)" using lo_message_new_repr [of al_zero True] by auto
  have "lo_strsize (replicate 131072 CHR ''a'') = 131076" unfolding lo_strsize_def length_replicate by simp
  then obtain m' where "lo_message_add_string al_zero m (replicate 131072 CHR ''a'') = (0, m')"
      "m_datasize m' = 131072" "length (m_data m') = 131076"
    using long_string_overflows [OF m] by auto
  then show ?thesis by (intro exI [of _ m] exI [of _ m'] conjI) simp_all
qed

end
