(* ===== verification/Wire.thy ===== *)
theory Wire
  imports Message
begin

text \<open>
  Messages on the wire: \<open>lo_message_serialise\<close>, \<open>lo_message_deserialise\<close> and \<open>lo_validate_bundle\<close>
  of \<open>src/message.c\<close>. \<open>wire_message\<close> is the OSC 1.0 form of a message; serialisation produces
  it from any message that represents the arguments, on either byte order, and deserialisation
  accepts it and nothing else.
\<close>

section \<open>Serialisation\<close>

text \<open>
  \<open>to\<close> is the caller's buffer, or NULL to allocate one (unchecked); too short a buffer is an
  out-of-bounds write. The result is the buffer and the size.
\<close>

definition lo_message_serialise ::
  "alloc \<Rightarrow> bool \<Rightarrow> lo_message \<Rightarrow> byte list \<Rightarrow> byte list ptr \<Rightarrow> (byte list \<times> nat) option" where
  "lo_message_serialise al be m path to = do {
     ty \<leftarrow> cstr (m_types m);
     s \<leftarrow> lo_message_length m path;
     let p = lo_strsize path;
     let t = lo_strsize ty;
     buf \<leftarrow> (case to of NULL \<Rightarrow> calloc al At_data s | Ref b \<Rightarrow> if length b < s then None else Some b);
     let b1 = poke buf (p - 4) (replicate 4 NUL);
     let b2 = poke b1 0 (path @ [NUL]);
     let b3 = poke b2 (p + t - 4) (replicate 4 NUL);
     let b4 = poke b3 p (ty @ [NUL]);
     let b5 = poke b4 (p + t) (take (m_datalen m) (m_data m));
     args \<leftarrow> walk_args (lo_arg_size be) (lo_arg_network_endian be)
               (take (m_typelen m - 1) (drop 1 (m_types m))) (drop (p + t) b5);
     Some (take (p + t) b5 @ args, s)
   }"

section \<open>Deserialisation\<close>

text \<open>
  \<open>data\<close> is the memory from the pointer on, \<open>sz\<close> the size the caller gives, which is narrowed to an
  \<open>int\<close> first. The result is the
  message (NULL on failure) and the code stored through \<open>result\<close>. Every failure after the message
  was allocated frees it: its reference count is zero.
\<close>

definition c_int :: "nat \<Rightarrow> int" where
  "c_int n = sint (word_of_nat n :: u32)"

definition lo_message_deserialise ::
  "alloc \<Rightarrow> bool \<Rightarrow> byte list \<Rightarrow> nat \<Rightarrow> (lo_message ptr \<times> int) option" where
  "lo_message_deserialise al be data sz =
     (let remain0 = c_int sz in
      if remain0 \<le> 0 then Some (NULL, LO_ESIZE)
      else if al At_struct 0 = None then Some (NULL, LO_EALLOC)
      else do {
        len \<leftarrow> lo_validate_string data remain0;
        if len < 0 then Some (NULL, LO_EINVALIDPATH)
        else if remain0 - len \<le> 0 then Some (NULL, LO_ENOTYPE)
        else do {
          let types = drop (nat len) data;
          let remain1 = remain0 - len;
          tlen \<leftarrow> lo_validate_string types remain1;
          if tlen < 0 then Some (NULL, LO_EINVALIDTYPE)
          else do {
            ty \<leftarrow> cstr types;
            if take 1 ty \<noteq> '','' then Some (NULL, LO_EBADTYPE)
            else do {
              let remain = remain1 - tlen;
              let argc = length ty - 1;
              if al At_types (nat tlen) = None then Some (NULL, LO_EALLOC)
              else if al At_data (nat remain) = None then Some (NULL, LO_EALLOC)
              else if length (drop (nat tlen) types) < nat remain then None
              else if argc \<noteq> 0 \<and> al At_argv argc = None then Some (NULL, LO_EALLOC)
              else do {
                r \<leftarrow> deser_args be (take argc (drop 1 types))
                       (take (nat remain) (drop (nat tlen) types)) remain 0;
                case r of
                  Inl e \<Rightarrow> Some (NULL, e)
                | Inr (buf, argv, remain', left_) \<Rightarrow>
                    if remain' \<noteq> 0 \<or> left_ \<noteq> 0 then Some (NULL, LO_ESIZE)
                    else Some (Ref \<lparr>
                      m_types = take (nat tlen) types, m_typelen = length ty, m_typesize = nat tlen,
                      m_data = buf, m_datalen = nat remain, m_datasize = nat remain,
                      m_source = NULL, m_argv = (if argc \<noteq> 0 then Ref argv else NULL),
                      m_ts = LO_TT_IMMEDIATE, m_refcount = 0\<rparr>, 0)
              }
            }
          }
        }
      })"

section \<open>Bundle validation\<close>

text \<open>The loop over the elements: an error code, or what remains.\<close>

function check_elems :: "bool \<Rightarrow> byte list \<Rightarrow> int \<Rightarrow> (int + int) option" where
  "check_elems be bs remain =
     (if remain < 4 then Some (Inr remain)
      else case rd_host32 be bs of
        None \<Rightarrow> None
      | Some w \<Rightarrow>
          let elem_len = uint (lo_otoh32 be w) in
          if elem_len > remain - 4 then Some (Inl (- LO_ESIZE))
          else check_elems be (drop (4 + nat elem_len) bs) (remain - 4 - elem_len))"
  by pat_completeness auto
termination
proof (relation "measure (\<lambda>(be, bs, remain). nat remain)")
  fix be bs remain w x
  assume "\<not> remain < (4 :: int)" "x = uint (lo_otoh32 be w)" "\<not> remain - 4 < x"
  moreover from this have "0 \<le> x" by (simp only: uint_ge_0)
  ultimately have "nat (remain - 4 - x) < nat remain" by linarith
  then show "((be, drop (4 + nat x) bs, remain - 4 - x), be, bs, remain)
     \<in> measure (\<lambda>(be, bs, remain). nat remain)"
    by simp
qed simp

declare check_elems.simps [simp del]

definition lo_validate_bundle :: "bool \<Rightarrow> byte list \<Rightarrow> int \<Rightarrow> int option" where
  "lo_validate_bundle be data sz = do {
     len \<leftarrow> lo_validate_string data sz;
     if len < 0 then Some (- LO_ESIZE)
     else do {
       eq \<leftarrow> str_eq data ''#bundle'';
       if \<not> eq then Some (- LO_EINVALIDBUND)
       else if sz - len < 8 then Some (- LO_ESIZE)
       else do {
         r \<leftarrow> check_elems be (drop (nat len + 8) data) (sz - len - 8);
         case r of
           Inl e \<Rightarrow> Some e
         | Inr remain \<Rightarrow> Some (if remain \<noteq> 0 then - LO_ESIZE else sz)
       }
     }
   }"

section \<open>The wire form of a message\<close>

definition type_tags :: "osc_arg list \<Rightarrow> byte list" where
  "type_tags xs = CHR '','' # map arg_tag xs"

definition wire_message :: "byte list \<Rightarrow> osc_arg list \<Rightarrow> byte list" where
  "wire_message path xs = padstr path @ padstr (type_tags xs) @ concat (map wire_arg xs)"

definition wire_len :: "byte list \<Rightarrow> osc_arg list \<Rightarrow> nat" where
  "wire_len path xs = lo_strsize path + lo_strsize (type_tags xs) + args_len xs"

lemma length_wire_message [simp, wire_simps]: "length (wire_message path xs) = wire_len path xs"
  by (simp add: wire_message_def wire_len_def args_len_def)

lemma NUL_type_tags [simp]: "NUL \<notin> set (type_tags xs)"
  by (auto simp: type_tags_def)

lemma wire_len_dvd: "4 dvd wire_len path xs"
  by (simp add: wire_len_def args_len_dvd)

lemma msg_repr_types:
  assumes "msg_repr be m xs"
  shows "cstr (m_types m) = Some (type_tags xs)"
    "take (m_typelen m - 1) (drop 1 (m_types m)) = map arg_tag xs"
proof -
  have t: "take (length xs + 2) (m_types m) = type_tags xs @ [NUL]" "m_typelen m = Suc (length xs)"
    using assms by (simp_all add: msg_repr_def types_ok_def type_tags_def)
  then have "m_types m = type_tags xs @ NUL # drop (length xs + 2) (m_types m)"
    by (metis append.assoc append_Cons append_Nil append_take_drop_id)
  then show "cstr (m_types m) = Some (type_tags xs)"
    by (metis NUL_type_tags cstr_append)
  have "take (length xs) (drop 1 (m_types m)) = take (length xs) (drop 1 (take (length xs + 2) (m_types m)))"
    by (simp add: drop_take)
  then show "take (m_typelen m - 1) (drop 1 (m_types m)) = map arg_tag xs"
    unfolding t(1) by (simp add: t(2) type_tags_def)
qed

lemma msg_repr_length: "msg_repr be m xs \<Longrightarrow> lo_message_length m path = Some (wire_len path xs)"
  using data_ok_datalen [of be m xs]
  by (simp add: lo_message_length_def msg_repr_types wire_len_def msg_repr_def)

text \<open>The five writes of the serialiser are one.\<close>

lemma serialise_pokes:
  fixes path ty data buf :: "byte list"
  defines "p \<equiv> lo_strsize path" and "t \<equiv> lo_strsize ty"
  assumes "p + t + length data \<le> length buf"
  shows "poke (poke (poke (poke (poke buf (p - 4) (replicate 4 NUL)) 0 (path @ [NUL])) (p + t - 4) (replicate 4 NUL))
      p (ty @ [NUL])) (p + t) data = padstr path @ padstr ty @ data @ drop (p + t + length data) buf"
proof -
  have 1: "poke (poke buf (p - 4) (replicate 4 NUL)) 0 (path @ [NUL]) = poke buf 0 (padstr path)"
    using poke_padstr [of 0 path buf] assms by simp
  define b where "b = poke buf 0 (padstr path)"
  have len: "length b = length buf" using assms by (simp add: b_def length_poke)
  have "poke (poke b (p + t - 4) (replicate 4 NUL)) p (ty @ [NUL]) = poke b p (padstr ty)"
    unfolding t_def using assms len by (intro poke_padstr) (simp add: t_def)
  also have "\<dots> = poke buf 0 (padstr path @ padstr ty)"
    using poke_append [of 0 "padstr path" "padstr ty" buf] assms by (simp add: b_def)
  finally have 2: "poke (poke b (p + t - 4) (replicate 4 NUL)) p (ty @ [NUL]) = poke buf 0 (padstr path @ padstr ty)" .
  have "poke (poke buf 0 (padstr path @ padstr ty)) (p + t) data = poke buf 0 ((padstr path @ padstr ty) @ data)"
    using poke_append [of 0 "padstr path @ padstr ty" data buf] assms by simp
  also have "\<dots> = padstr path @ padstr ty @ data @ drop (p + t + length data) buf"
    using assms by (subst poke_0) (simp_all add: add.assoc)
  finally show ?thesis by (simp only: 1 2 flip: b_def)
qed

lemma lo_message_serialise_into:
  assumes "msg_repr be m xs" "wire_len path xs \<le> length buf"
  shows "lo_message_serialise al be m path (Ref buf) =
     Some (wire_message path xs @ drop (wire_len path xs) buf, wire_len path xs)"
proof -
  have d: "take (m_datalen m) (m_data m) = concat (map (host_arg be) xs)" "list_all arg_ok xs"
    using assms(1) by (simp_all add: msg_repr_def data_ok_def)
  have len: "length (concat (map (host_arg be) xs)) = args_len xs" by (rule length_concat_host)
  have "walk_args (lo_arg_size be) (lo_arg_network_endian be) (map arg_tag xs)
     (concat (map (host_arg be) xs) @ rest) = Some (concat (map wire_arg xs) @ rest)" for rest
    using d(2) by (rule ser.walk_args_converts)
  moreover
  let ?p = "lo_strsize path" and ?t = "lo_strsize (type_tags xs)" and ?d = "concat (map (host_arg be) xs)"
  define b5 where "b5 = poke (poke (poke (poke (poke buf (?p - 4) (replicate 4 NUL)) 0 (path @ [NUL])) (?p + ?t - 4)
      (replicate 4 NUL)) ?p (type_tags xs @ [NUL])) (?p + ?t) ?d"
  have "b5 = padstr path @ padstr (type_tags xs) @ ?d @ drop (wire_len path xs) buf"
    using assms(2) serialise_pokes [of path "type_tags xs" ?d buf] by (simp only: b5_def len wire_len_def)
  then have "take (?p + ?t) b5 = padstr path @ padstr (type_tags xs)"
    "drop (?p + ?t) b5 = ?d @ drop (wire_len path xs) buf"
    by simp_all
  ultimately show ?thesis
    using assms(2)
    by (simp add: lo_message_serialise_def msg_repr_types [OF assms(1), unfolded One_nat_def]
        msg_repr_length [OF assms(1)] d(1) not_less wire_message_def b5_def [symmetric])
qed

lemma lo_message_serialise_new:
  assumes "msg_repr be m xs" "alloc_total al"
  shows "lo_message_serialise al be m path NULL = Some (wire_message path xs, wire_len path xs)"
proof -
  have "calloc al At_data (wire_len path xs) = Some (replicate (wire_len path xs) NUL)"
    using assms(2) by (auto simp: calloc_def alloc_total_def)
  then have "lo_message_serialise al be m path NULL =
     lo_message_serialise al be m path (Ref (replicate (wire_len path xs) NUL))"
    by (simp add: lo_message_serialise_def msg_repr_types [OF assms(1)] msg_repr_length [OF assms(1)])
  then show ?thesis using assms by (simp add: lo_message_serialise_into)
qed

section \<open>Deserialisation and the wire form\<close>

lemma c_int_small:
  assumes "n < 2 ^ 31"
  shows "c_int n = int n"
proof -
  have "uint (word_of_nat n :: u32) = int n"
    using assms unat_small [of n] by (simp only: uint_nat) simp
  then show ?thesis
    using assms by (simp add: c_int_def sint_uint signed_take_bit_int_eq_self)
qed

lemma c_int_le: "c_int n \<le> int n"
proof -
  have "c_int n \<le> uint (word_of_nat n :: u32)"
    unfolding c_int_def sint_uint signed_take_bit_int_less_eq_self_iff
    by (rule order_trans [OF _ uint_ge_0]) simp
  also have "\<dots> \<le> int n"
    by (simp only: uint_nat unat_of_nat of_nat_le_iff mod_less_eq_dividend)
  finally show ?thesis .
qed

lemma take_padstr:
  assumes "n = length s + 1"
  shows "take n (padstr s) = s @ [NUL]"
  using padstr_eq [of s] assms by auto

text \<open>The message object the receiver makes of the wire form.\<close>

definition received_message :: "bool \<Rightarrow> osc_arg list \<Rightarrow> lo_message" where
  "received_message be xs =
     \<lparr>m_types = padstr (type_tags xs), m_typelen = Suc (length xs), m_typesize = lo_strsize (type_tags xs),
      m_data = concat (map (host_arg be) xs), m_datalen = args_len xs, m_datasize = args_len xs,
      m_source = NULL, m_argv = (if length xs \<noteq> 0 then Ref (arg_offsets xs 0) else NULL),
      m_ts = LO_TT_IMMEDIATE, m_refcount = 0\<rparr>"

lemma received_message_repr:
  assumes "list_all arg_ok xs"
  shows "msg_repr be (received_message be xs) xs"
proof -
  have "take (length xs + 2) (padstr (type_tags xs)) = CHR '','' # map arg_tag xs @ [NUL]"
    using take_padstr [of "length xs + 2" "type_tags xs"] by (simp add: type_tags_def)
  moreover have "Suc (length xs) < lo_strsize (type_tags xs)"
    using lo_strsize_gt [of "type_tags xs"] by (simp add: type_tags_def del: lo_strsize_gt)
  ultimately show ?thesis
    using assms by (simp add: received_message_def msg_repr_def types_ok_def data_ok_def length_concat_host args_len_dvd)
qed

lemma deserialise_received:
  assumes "NUL \<notin> set path" "list_all arg_ok xs" "alloc_total al" "wire_len path xs < 2 ^ 31"
  shows "lo_message_deserialise al be (wire_message path xs @ rest) (wire_len path xs) = Some (Ref (received_message be xs), 0)"
proof -
  let ?p = "lo_strsize path" and ?t = "lo_strsize (type_tags xs)" and ?d = "concat (map wire_arg xs)"
  have al: "al s n \<noteq> None" for s n using assms(3) by (simp add: alloc_total_def)
  have v1: "lo_validate_string (padstr path @ r) (int (wire_len path xs)) = Some (int ?p)" for r
    using assms(1) by (intro lo_validate_string_padstr) (simp_all add: wire_len_def)
  have v2: "lo_validate_string (padstr (type_tags xs) @ r) (int (wire_len path xs) - int ?p) = Some (int ?t)" for r
    by (intro lo_validate_string_padstr) (simp_all add: wire_len_def)
  have dl: "int (wire_len path xs) - int ?p - int ?t = int (length ?d)" by (simp add: wire_len_def args_len_def)
  obtain k where "padstr (type_tags xs) = type_tags xs @ NUL # replicate k NUL" using padstr_eq by blast
  then have tl: "take (length xs) (drop 1 (padstr (type_tags xs) @ r)) = map arg_tag xs" for r
    by (simp only:) (simp add: type_tags_def)
  have da: "deser_args be (map arg_tag xs) ?d (int (length ?d)) 0 =
      Some (Inr (concat (map (host_arg be) xs), arg_offsets xs 0, 0, 0))"
    using deser_args_wire [OF assms(2), of "int (length ?d)" be "[]" 0] by simp
  have ty: "length (type_tags xs) = Suc (length xs)" "take 1 (type_tags xs) = '',''"
    by (simp_all add: type_tags_def)
  have pos: "0 < wire_len path xs" "\<not> int (wire_len path xs) - int ?p \<le> 0"
    using lo_strsize_pos [of path] lo_strsize_pos [of "type_tags xs"] by (simp_all add: wire_len_def del: lo_strsize_pos)
  have pieces: "drop (lo_strsize s) (padstr s @ r) = r" "take (lo_strsize s) (padstr s @ r) = padstr s" for s r
    by simp_all
  have data: "take (length ?d) (?d @ rest) = ?d" by simp
  have ty0: "length (type_tags []) = Suc 0" by (simp add: type_tags_def)
  show ?thesis
    unfolding lo_message_deserialise_def c_int_small [OF assms(4)] Let_def wire_message_def append.assoc v1
    using pos al by (simp add: pieces data ty0 v2 dl ty [unfolded One_nat_def] tl [unfolded One_nat_def] da
        received_message_def args_len_def del: append_eq_conv_conj drop_append take_append)
qed

lemma deserialise_wire_message:
  assumes "NUL \<notin> set path" "list_all arg_ok xs" "alloc_total al" "wire_len path xs < 2 ^ 31"
  shows "\<exists>m. lo_message_deserialise al be (wire_message path xs @ rest) (wire_len path xs) = Some (Ref m, 0)
     \<and> msg_repr be m xs \<and> m_refcount m = 0 \<and> m_ts m = LO_TT_IMMEDIATE \<and> m_source m = NULL"
  using deserialise_received [OF assms] received_message_repr [OF assms(2), of be]
  by (simp add: received_message_def)

text \<open>Whatever is accepted is a wire message of well-formed arguments, of exactly the given size.\<close>

lemma padstr_first: "take 1 s = '','' \<Longrightarrow> \<exists>ts. s = CHR '','' # ts"
  by (cases s) auto

lemma deserialise_accepts:
  assumes "lo_message_deserialise al be data sz = Some (Ref m, r)" "sz < 2 ^ 31" "sz \<le> length data"
  shows "\<exists>path xs. take sz data = wire_message path xs \<and> NUL \<notin> set path \<and> list_all arg_ok xs \<and> r = 0"
proof -
  note D = assms(1) [unfolded lo_message_deserialise_def c_int_small [OF assms(2)] Let_def]
  obtain len where len: "lo_validate_string data (int sz) = Some len" "0 \<le> len" "0 < int sz - len"
    using D by (auto simp: not_less not_le split: if_splits bind_splits)
  then obtain path r1 where p: "data = padstr path @ r1" "NUL \<notin> set path" "len = int (lo_strsize path)"
    using lo_validate_string_SomeD by blast
  have dr: "drop (nat len) data = r1" by (simp add: p)
  obtain tlen where tlen: "lo_validate_string r1 (int sz - len) = Some tlen" "0 \<le> tlen"
    using D len(1,2) by (auto simp: dr not_less not_le split: if_splits bind_splits)
  then obtain ty r2 where t: "r1 = padstr ty @ r2" "NUL \<notin> set ty" "tlen = int (lo_strsize ty)" "tlen \<le> int sz - len"
    using lo_validate_string_SomeD by blast
  define remain where "remain = int sz - len - tlen"
  have cs: "cstr r1 = Some ty" using t by simp
  have comma: "take 1 ty = '',''" "r = 0"
    using D len tlen by (auto simp: dr cs split: if_splits bind_splits sum.splits prod.splits)
  then obtain ts where ts: "ty = CHR '','' # ts" using padstr_first by blast
  obtain k where k: "padstr ty = ty @ NUL # replicate k NUL" using padstr_eq by blast
  have tk: "take (length ty - 1) (drop 1 r1) = ts" by (simp only: t(1) k) (simp add: ts)
  have dr2: "drop (nat tlen) r1 = r2" by (simp add: t)
  obtain buf argv where
    "deser_args be ts (take (nat remain) r2) remain 0 = Some (Inr (buf, argv, 0, 0))"
    and le: "nat remain \<le> length r2"
    using D len tlen comma
    by (auto simp: dr dr2 cs tk [unfolded One_nat_def] remain_def not_less split: if_splits bind_splits sum.splits prod.splits)
  moreover have "0 \<le> remain" using t(4) by (simp add: remain_def)
  ultimately obtain xs rest where xs: "ts = map arg_tag xs" "list_all arg_ok xs"
    "take (nat remain) r2 = concat (map wire_arg xs) @ rest" "0 = remain - int (length (concat (map wire_arg xs)))"
    using deser_args_SomeD by (metis int_nat_eq length_take min.absorb2 order_refl)
  have ln: "length (take (nat remain) r2) = nat remain" using le by simp
  have nr: "nat remain = length (concat (map wire_arg xs))" using xs(4) by simp
  have "rest = []" using ln [unfolded xs(3)] unfolding nr by simp
  have sz: "sz = lo_strsize path + (lo_strsize ty + nat remain)"
    using \<open>0 \<le> remain\<close> by (simp add: remain_def p(3) t(3))
  have "take sz data = padstr path @ padstr ty @ take (nat remain) r2"
    unfolding sz p(1) t(1) by simp
  also have "\<dots> = wire_message path xs"
    using xs \<open>rest = []\<close> by (simp add: wire_message_def type_tags_def ts)
  finally show ?thesis using p(2) xs(2) comma(2) by blast
qed

text \<open>
  No input of the given size is read out of bounds, unless a blob is announced: the blob validator
  reads the four bytes of the size before it looks at how many bytes there are.
\<close>

lemma lo_validate_arg_total:
  assumes "sz \<le> int (length data)" "t \<noteq> typechar LO_BLOB \<or> 4 \<le> length data"
  shows "lo_validate_arg be t data sz \<noteq> None"
proof (cases "lo_type_of t = Some LO_BLOB")
  case True
  then have l: "4 \<le> length data" using assms(2) by (simp add: lo_type_of_Some)
  then obtain w where w: "rd_host32 be data = Some w" using rd_host32_None [of be data] by fastforce
  have "pad_zero (drop s data) (n - s) \<noteq> None" if "int n \<le> sz" for n s
    using that assms(1) by (intro pad_zero_total) simp
  then have "lo_validate_blob be data sz \<noteq> None"
    by (auto simp: lo_validate_blob_def w Let_def bind_eq_None_conv simp del: not_None_eq)
  then show ?thesis using True by (auto simp: lo_validate_arg_def)
next
  case False
  then show ?thesis
    using lo_validate_string_total [OF assms(1)]
    by (auto simp: lo_validate_arg_def split: option.splits lo_type.splits)
qed

text \<open>
  The arguments \<open>xs\<close>, then a blob of which not even the size is there: \<open>ts\<close> are the types, \<open>bs\<close> the bytes.
\<close>

definition cut_blob :: "byte list \<Rightarrow> byte list \<Rightarrow> bool" where
  "cut_blob ts bs \<longleftrightarrow> (\<exists>xs ts' few. ts = map arg_tag xs @ CHR ''b'' # ts' \<and> list_all arg_ok xs \<and>
     bs = concat (map wire_arg xs) @ few \<and> length few < 4)"

lemma cut_blob_Cons: "cut_blob ts rest \<Longrightarrow> arg_ok a \<Longrightarrow> cut_blob (arg_tag a # ts) (wire_arg a @ rest)"
  unfolding cut_blob_def by (elim exE conjE, rule_tac x = "a # xs" in exI) auto

lemma deser_args_None:
  "deser_args be ts bs remain off = None \<Longrightarrow> remain \<le> int (length bs) \<Longrightarrow> cut_blob ts bs"
proof (induction be ts bs remain off rule: deser_args.induct)
  case (2 be t ts bs remain off)
  show ?case
  proof (cases "lo_validate_arg be t bs remain = None")
    case True
    then have "t = typechar LO_BLOB" "length bs < 4"
      using lo_validate_arg_total [OF "2.prems"(2)] by (meson not_less)+
    then show ?thesis unfolding cut_blob_def
      by (intro exI [of _ "[]"] exI [of _ ts] exI [of _ bs]) (simp add: typechar.simps)
  next
    case False
    then obtain len where len: "lo_validate_arg be t bs remain = Some len" "0 \<le> len"
      using "2.prems"(1) by (auto split: if_splits)
    with "2.prems" obtain a rest where a: "t = arg_tag a" "arg_ok a" "bs = wire_arg a @ rest"
      "len = int (length (wire_arg a))" "len \<le> remain"
      using lo_validate_arg_SomeD by blast
    have conv: "lo_arg_host_endian be t bs = Some (host_arg be a @ rest)"
      by (simp add: a host_endian_wire_arg)
    have dr: "drop (nat len) (host_arg be a @ rest) = rest" by (simp add: a length_host_arg)
    have "deser_args be ts rest (remain - len) (off + nat len) = None"
      using "2.prems"(1) len conv dr by (auto simp: not_less split: if_splits bind_splits sum.splits)
    then have "cut_blob ts rest"
      by (rule "2.IH" [OF _ len(1) _ conv, unfolded dr, rotated 2])
         (use "2.prems" len a in \<open>auto simp: not_less split: if_splits\<close>)
    then show ?thesis using cut_blob_Cons a(1-3) by simp
  qed
qed simp

lemma deser_args_cut:
  assumes "list_all arg_ok xs" "length few < 4" "int (length (concat (map wire_arg xs))) \<le> remain"
  shows "deser_args be (map arg_tag xs @ CHR ''b'' # ts) (concat (map wire_arg xs) @ few) remain off = None"
  using assms(1,3)
proof (induction xs arbitrary: remain off)
  case Nil
  have "lo_type_of (CHR ''b'') = Some LO_BLOB" by (simp add: lo_type_of_Some typechar.simps)
  moreover have "rd_host32 be few = None" using assms(2) by (simp add: rd_host32_None)
  ultimately show ?case using Nil.prems(2) by (simp add: lo_validate_arg_def lo_validate_blob_def)
next
  case (Cons a xs)
  let ?bs = "concat (map wire_arg xs) @ few"
  have v: "lo_validate_arg be (arg_tag a) (wire_arg a @ ?bs) remain = Some (int (length (wire_arg a)))"
    using Cons.prems by (intro lo_validate_arg_wire_arg) simp_all
  have conv: "lo_arg_host_endian be (arg_tag a) (wire_arg a @ ?bs) = Some (host_arg be a @ ?bs)"
    using Cons.prems(1) by (simp add: host_endian_wire_arg)
  have "drop (length (wire_arg a)) (host_arg be a @ ?bs) = ?bs" by (simp add: length_host_arg)
  then show ?case using Cons v conv by simp
qed

text \<open>
  What is read out of bounds: the blob validator reads the four bytes of the size before it looks at how
  many bytes there are.
\<close>

lemma deserialise_safe:
  assumes "lo_message_deserialise al be data sz = None" "sz \<le> length data" "sz < 2 ^ 31"
  shows "\<exists>path ts bs. take sz data = padstr path @ padstr (CHR '','' # ts) @ bs \<and> NUL \<notin> set path \<and> NUL \<notin> set ts \<and>
    cut_blob ts bs"
proof -
  have sz: "int sz \<le> int (length data)" using assms(2) by simp
  note D = assms(1) [unfolded lo_message_deserialise_def Let_def c_int_small [OF assms(3)]]
  obtain len where len: "lo_validate_string data (int sz) = Some len" "0 \<le> len" "0 < int sz - len"
    using D lo_validate_string_total [OF sz] by (auto simp: not_less not_le split: if_splits bind_splits)
  then obtain path r1 where p: "data = padstr path @ r1" "NUL \<notin> set path" "len = int (lo_strsize path)"
    using lo_validate_string_SomeD by blast
  have dr: "drop (nat len) data = r1" by (simp add: p)
  have sz1: "int sz - len \<le> int (length r1)" using sz by (simp add: p)
  obtain tlen where tlen: "lo_validate_string r1 (int sz - len) = Some tlen" "0 \<le> tlen"
    using D len lo_validate_string_total [OF sz1] by (auto simp: dr not_less not_le split: if_splits bind_splits)
  then obtain ty r2 where t: "r1 = padstr ty @ r2" "NUL \<notin> set ty" "tlen = int (lo_strsize ty)" "tlen \<le> int sz - len"
    using lo_validate_string_SomeD by blast
  define remain where "remain = int sz - len - tlen"
  have cs: "cstr r1 = Some ty" using t by simp
  have dr2: "drop (nat tlen) r1 = r2" by (simp add: t)
  have le: "remain \<le> int (length r2)" "0 \<le> remain" using sz1 t(4) by (simp_all add: t remain_def)
  then have le': "nat remain \<le> length r2" by simp
  have comma: "take 1 ty = '',''"
    using D len tlen by (auto simp: dr cs split: if_splits)
  then obtain ts where ts: "ty = CHR '','' # ts" using padstr_first by blast
  obtain k where k: "padstr ty = ty @ NUL # replicate k NUL" using padstr_eq by blast
  have tk: "take (length ty - 1) (drop 1 r1) = ts" by (simp only: t(1) k) (simp add: ts)
  have "deser_args be ts (take (nat remain) r2) remain 0 = None"
    using D len tlen comma le'
    by (auto simp: dr dr2 cs tk [unfolded One_nat_def] remain_def not_less split: if_splits bind_splits sum.splits prod.splits)
  then have c: "cut_blob ts (take (nat remain) r2)" by (rule deser_args_None) (use le in simp)
  have "sz = lo_strsize path + (lo_strsize ty + nat remain)" using le(2) by (simp add: remain_def p(3) t(3))
  then have "take sz data = padstr path @ padstr (CHR '','' # ts) @ take (nat remain) r2"
    unfolding p(1) t(1) ts by simp
  then show ?thesis using p(2) t(2) c unfolding ts by auto
qed

lemma deserialise_cut:
  assumes "NUL \<notin> set path" "NUL \<notin> set ts" "cut_blob ts bs" "alloc_total al"
    and "sz = lo_strsize path + lo_strsize (CHR '','' # ts) + length bs" "sz < 2 ^ 31"
  shows "lo_message_deserialise al be (padstr path @ padstr (CHR '','' # ts) @ bs @ rest) sz = None"
proof -
  have al: "al k n \<noteq> None" for k n using assms(4) by (simp add: alloc_total_def)
  let ?p = "lo_strsize path" and ?ty = "CHR '','' # ts" and ?t = "lo_strsize (CHR '','' # ts)"
  have v1: "lo_validate_string (padstr path @ r) (int sz) = Some (int ?p)" for r
    using assms(1,5) by (intro lo_validate_string_padstr) simp_all
  have v2: "lo_validate_string (padstr ?ty @ r) (int sz - int ?p) = Some (int ?t)" for r
    using assms(2,5) by (intro lo_validate_string_padstr) simp_all
  have rem: "int sz - int ?p - int ?t = int (length bs)" using assms(5) by simp
  have pos: "0 < sz" "\<not> int sz - int ?p \<le> 0"
    using lo_strsize_pos [of path] lo_strsize_pos [of ?ty] assms(5) by (simp_all del: lo_strsize_pos)
  obtain k where k: "padstr ?ty = ?ty @ NUL # replicate k NUL" using padstr_eq by blast
  have cs: "cstr (padstr ?ty @ r) = Some ?ty" "take (length ts) (drop 1 (padstr ?ty @ r)) = ts" for r
    unfolding k using assms(2) by simp_all
  have pieces: "drop (lo_strsize s) (padstr s @ r) = r" "take (length bs) (bs @ rest) = bs" for s r by simp_all
  obtain xs ts' few where x: "ts = map arg_tag xs @ CHR ''b'' # ts'" "list_all arg_ok xs"
    "bs = concat (map wire_arg xs) @ few" "length few < 4"
    using assms(3) unfolding cut_blob_def by blast
  have "deser_args be (map arg_tag xs @ CHR ''b'' # ts') (concat (map wire_arg xs) @ few) (int (length bs)) 0 = None"
    by (rule deser_args_cut [OF x(2,4)]) (simp add: x(3))
  then have da: "deser_args be ts bs (int (length bs)) 0 = None" by (simp add: x(1,3))
  show ?thesis
    unfolding lo_message_deserialise_def c_int_small [OF assms(6)] Let_def v1
    using pos al by (simp add: pieces v2 cs [unfolded One_nat_def] rem da
        del: append_eq_conv_conj drop_append take_append)
qed

section \<open>Copies and accessors of a represented message\<close>

lemma lo_message_clone_repr:
  assumes "msg_repr be m xs" "alloc_total al"
  shows "\<exists>m'. lo_message_clone al (Ref m) = Some (Ref m') \<and> msg_repr be m' xs \<and>
    m_source m' = NULL \<and> m_ts m' = LO_TT_IMMEDIATE \<and> m_refcount m' = 0"
proof -
  obtain x where st: "al At_struct 0 = Some x" using assms(2) unfolding alloc_total_def by (metis not_None_eq)
  have cal: "calloc al k n = Some (replicate n NUL)" for k n
    using assms(2) by (auto simp: calloc_def alloc_total_def)
  have t: "m_typelen m = Suc (length xs)" "m_typelen m < m_typesize m" "length (m_types m) = m_typesize m"
    "take (length xs + 2) (m_types m) = type_tags xs @ [NUL]"
    using assms(1) by (simp_all add: msg_repr_def types_ok_def type_tags_def)
  have d: "length (m_data m) = m_datasize m" "m_datalen m \<le> m_datasize m" "4 dvd m_datasize m"
    "take (m_datalen m) (m_data m) = concat (map (host_arg be) xs)" "list_all arg_ok xs"
    using assms(1) by (simp_all add: msg_repr_def data_ok_def)
  have len: "length (type_tags xs) = Suc (length xs)" by (simp add: type_tags_def)
  define m' where "m' = \<lparr>m_types = poke (replicate (m_typesize m) NUL) 0 (type_tags xs @ [NUL]),
     m_typelen = m_typelen m, m_typesize = m_typesize m,
     m_data = poke (replicate (m_datasize m) NUL) 0 (take (m_datalen m) (m_data m)),
     m_datalen = m_datalen m, m_datasize = m_datasize m, m_source = NULL, m_argv = NULL,
     m_ts = LO_TT_IMMEDIATE, m_refcount = 0\<rparr>"
  have "lo_message_clone al (Ref m) = Some (Ref m')"
    by (simp add: lo_message_clone_def st cal msg_repr_types [OF assms(1)] m'_def)
  moreover have "types_ok m' xs"
    using t by (simp add: m'_def types_ok_def poke_def len) (simp add: type_tags_def)
  moreover have "data_ok be m' xs"
  proof -
    have "length (concat (map (host_arg be) xs)) = m_datalen m"
      using d(1,2) by (simp flip: d(4))
    then show ?thesis using d by (simp add: m'_def data_ok_def poke_def)
  qed
  ultimately show ?thesis using d(5) by (auto simp: m'_def msg_repr_def)
qed

text \<open>Where the arguments are in the data of a message, and the characters among them.\<close>

lemma msg_repr_at:
  assumes "msg_repr be m xs" "i < length xs"
  shows "take (length (wire_arg (xs ! i))) (drop (args_len (take i xs)) (m_data m)) = host_arg be (xs ! i)"
proof -
  have d: "m_data m = concat (map (host_arg be) xs) @ drop (m_datalen m) (m_data m)"
    using assms(1) append_take_drop_id [of "m_datalen m" "m_data m"] by (simp add: msg_repr_def data_ok_def)
  have "concat (map (host_arg be) xs) =
      concat (map (host_arg be) (take i xs)) @ host_arg be (xs ! i) @ concat (map (host_arg be) (drop (Suc i) xs))"
    by (subst id_take_nth_drop [OF assms(2)]) simp
  moreover have "length (concat (map (host_arg be) (take i xs))) = args_len (take i xs)" by (rule length_concat_host)
  ultimately show ?thesis by (subst d) (simp add: length_host_arg)
qed

lemma msg_repr_char:
  assumes "msg_repr be' m xs" "i < length xs" "xs ! i = OChar (char_cell be c)"
  shows "m_data m ! args_len (take i xs) = (if be' = be then c else NUL)"
proof -
  let ?o = "args_len (take i xs)"
  have t: "take 4 (drop ?o (m_data m)) = host_arg be' (OChar (char_cell be c))"
    using msg_repr_at [OF assms(1,2)] assms(3) by simp
  then have "drop ?o (m_data m) \<noteq> []" by (auto simp: host32_def be32_def split: if_splits)
  then have "m_data m ! ?o = hd (take 4 (drop ?o (m_data m)))" by (simp add: hd_drop_conv_nth)
  then show ?thesis unfolding t char_read .
qed

lemma arg_offsets_point:
  "i < length xs \<Longrightarrow> wire_arg (xs ! i) \<noteq> [] \<Longrightarrow>
   \<exists>pre post. arg_offsets xs off ! i = Ref (off + length pre) \<and>
     concat (map (host_arg be) xs) = pre @ host_arg be (xs ! i) @ post"
proof (induction xs arbitrary: i off)
  case (Cons a xs)
  show ?case
  proof (cases i)
    case 0
    then show ?thesis using Cons.prems by (intro exI [of _ "[]"] exI [of _ "concat (map (host_arg be) xs)"]) simp
  next
    case (Suc j)
    then obtain pre post where
      "arg_offsets xs (off + length (wire_arg a)) ! j = Ref (off + length (wire_arg a) + length pre)"
      "concat (map (host_arg be) xs) = pre @ host_arg be (xs ! j) @ post"
      using Cons.IH [of j "off + length (wire_arg a)"] Cons.prems by auto
    then show ?thesis using Suc
      by (intro exI [of _ "host_arg be a @ pre"] exI [of _ post]) (simp add: length_host_arg)
  qed
qed simp

section \<open>Properties\<close>

text \<open>
  C6: The serialiser writes the OSC wire form. For a message that holds the arguments \<open>xs\<close> it
  returns the padded path, the padded type string and the images of the arguments in network byte
  order, and a size that is the one \<open>lo_message_length\<close> announced; into a buffer of the caller it
  writes the same bytes and leaves those behind them.
\<close>

theorem serialise_wire_form:
  assumes "msg_repr be m xs" "alloc_total al"
  shows "lo_message_length m path = Some (length (wire_message path xs)) \<and>
    lo_message_serialise al be m path NULL = Some (wire_message path xs, length (wire_message path xs)) \<and>
    (\<forall>buf. length (wire_message path xs) \<le> length buf \<longrightarrow>
      lo_message_serialise al be m path (Ref buf) =
        Some (wire_message path xs @ drop (length (wire_message path xs)) buf, length (wire_message path xs)))"
  using assms by (simp add: msg_repr_length lo_message_serialise_new lo_message_serialise_into)

text \<open>
  C5: What one host serialises another one deserialises, whatever the byte orders of the two: the
  receiver's message holds the same arguments in its own byte order, has no sender yet and the
  immediate timetag. A character is the exception: its cell of four bytes is carried like an integer, so that
  the byte at which \<open>argv->c\<close> looks holds the character of \<open>lo_message_add_char\<close> on a host of
  the same byte order, and zero on one of the other.
\<close>

theorem serialise_deserialise:
  assumes "msg_repr be m xs" "alloc_total al" "alloc_total al'" "NUL \<notin> set path" "wire_len path xs < 2 ^ 31"
  shows "\<exists>data n m'. lo_message_serialise al be m path NULL = Some (data, n) \<and> n = length data \<and>
    lo_get_path data (int n) = Some (Ref data) \<and> cstr data = Some path \<and>
    lo_message_deserialise al' be' data n = Some (Ref m', 0) \<and> msg_repr be' m' xs \<and>
    m_source m' = NULL \<and> m_ts m' = LO_TT_IMMEDIATE \<and>
    (\<forall>i c. i < length xs \<and> xs ! i = OChar (char_cell be c) \<longrightarrow>
      m_data m' ! args_len (take i xs) = (if be' = be then c else NUL))"
proof -
  have ok: "list_all arg_ok xs" using assms(1) by (simp add: msg_repr_def)
  have "lo_validate_string (wire_message path xs) (int (wire_len path xs)) = Some (int (lo_strsize path))"
    unfolding wire_message_def using assms(4) by (intro lo_validate_string_padstr) (simp_all add: wire_len_def)
  moreover have "4 \<le> lo_strsize path" by (simp add: lo_strsize_def)
  moreover have "cstr (wire_message path xs) = Some path"
    using padstr_eq [of path] assms(4) by (auto simp: wire_message_def)
  ultimately show ?thesis
    using deserialise_wire_message [OF assms(4) ok assms(3,5), of be' "[]"]
      lo_message_serialise_new [OF assms(1,2), of path] msg_repr_char [of be' _ xs _ be]
    by (fastforce simp: lo_get_path_def)
qed

text \<open>
  C4: Deserialisation is strict. Whatever it accepts is, byte for byte, the wire form of the message
  it returns: serialising that message again under the received path gives the received bytes.
\<close>

theorem deserialise_serialise:
  assumes "lo_message_deserialise al be data sz = Some (Ref m, r)"
    and "sz < 2 ^ 31" "sz \<le> length data" "alloc_total al"
  shows "\<exists>path xs. cstr data = Some path \<and> msg_repr be m xs \<and> r = 0 \<and>
    lo_message_serialise al be m path NULL = Some (take sz data, sz)"
proof -
  obtain path xs where w: "take sz data = wire_message path xs" "NUL \<notin> set path" "list_all arg_ok xs" "r = 0"
    using deserialise_accepts [OF assms(1-3)] by blast
  have sz: "sz = wire_len path xs" using arg_cong [OF w(1), of length] assms(3) by simp
  have data: "data = wire_message path xs @ drop sz data" using w(1) by (metis append_take_drop_id)
  obtain m' where "lo_message_deserialise al be (wire_message path xs @ drop sz data) (wire_len path xs) = Some (Ref m', 0)"
    "msg_repr be m' xs"
    using deserialise_wire_message [OF w(2,3) assms(4)] assms(2) sz by blast
  then have m: "msg_repr be m xs" using assms(1) data sz by simp
  obtain k where k: "padstr path = path @ NUL # replicate k NUL" using padstr_eq by blast
  have "cstr (wire_message path xs @ drop sz data) = Some path"
    unfolding wire_message_def k using w(2) by simp
  then show ?thesis using m w(4) lo_message_serialise_new [OF m assms(4), of path] data sz w(1) by auto
qed

text \<open>
  C35: Memory safety of deserialisation, exactly. On memory of at least the announced size, with every
  allocation granted, all accesses are in bounds and the call returns a message or an error, but for one
  kind of input: after a path, a type string and well-formed arguments, a blob is announced of which fewer
  than four bytes are there; then, and only then, the size of the blob is read behind the end.
\<close>

theorem deserialise_in_bounds:
  assumes "sz \<le> length data" "sz < 2 ^ 31" "alloc_total al"
  shows "lo_message_deserialise al be data sz = None \<longleftrightarrow>
    (\<exists>path xs ts few. take sz data =
        padstr path @ padstr (CHR '','' # map arg_tag xs @ CHR ''b'' # ts) @ concat (map wire_arg xs) @ few \<and>
      NUL \<notin> set path \<and> NUL \<notin> set ts \<and> list_all arg_ok xs \<and> length few < 4)"
proof
  assume "lo_message_deserialise al be data sz = None"
  from deserialise_safe [OF this assms(1,2)] show "\<exists>path xs ts few. take sz data =
        padstr path @ padstr (CHR '','' # map arg_tag xs @ CHR ''b'' # ts) @ concat (map wire_arg xs) @ few \<and>
      NUL \<notin> set path \<and> NUL \<notin> set ts \<and> list_all arg_ok xs \<and> length few < 4"
    unfolding cut_blob_def by force
next
  assume "\<exists>path xs ts few. take sz data =
        padstr path @ padstr (CHR '','' # map arg_tag xs @ CHR ''b'' # ts) @ concat (map wire_arg xs) @ few \<and>
      NUL \<notin> set path \<and> NUL \<notin> set ts \<and> list_all arg_ok xs \<and> length few < 4"
  then obtain path xs ts few where t: "take sz data =
        padstr path @ padstr (CHR '','' # map arg_tag xs @ CHR ''b'' # ts) @ concat (map wire_arg xs) @ few"
      "NUL \<notin> set path" "NUL \<notin> set ts" "list_all arg_ok xs" "length few < 4"
    by blast
  let ?ts = "map arg_tag xs @ CHR ''b'' # ts" and ?bs = "concat (map wire_arg xs) @ few"
  have "NUL \<notin> set ?ts" "cut_blob ?ts ?bs" using t(3-5) by (auto simp: cut_blob_def)
  moreover have "sz = lo_strsize path + lo_strsize (CHR '','' # ?ts) + length ?bs"
    using arg_cong [OF t(1), of length] assms(1) by simp
  ultimately have "lo_message_deserialise al be (padstr path @ padstr (CHR '','' # ?ts) @ ?bs @ drop sz data) sz = None"
    using t(2) assms(2,3) by (intro deserialise_cut)
  moreover have "padstr path @ padstr (CHR '','' # ?ts) @ ?bs @ drop sz data = data"
    using append_take_drop_id [of sz data] unfolding t(1) by simp
  ultimately show "lo_message_deserialise al be data sz = None" by simp
qed

text \<open>
  The exception is real: a message whose last type is a blob of which no byte was sent makes the
  validator read the blob's size behind the end of the message, for every path.
\<close>

theorem missing_blob_overread:
  assumes "NUL \<notin> set path" "lo_strsize path + 4 < 2 ^ 31" "alloc_total al"
  shows "lo_message_deserialise al be (padstr path @ padstr '',b'') (lo_strsize path + 4) = None"
proof -
  have al: "al k n \<noteq> None" for k n using assms(3) by (simp add: alloc_total_def)
  let ?p = "lo_strsize path" and ?t = "padstr '',b''"
  have p4: "?t = [CHR '','', CHR ''b'', NUL, NUL]" by (simp add: padstr_def lo_strsize_def numeral_2_eq_2)
  have v1: "lo_validate_string (padstr path @ ?t) (int (?p + 4)) = Some (int ?p)"
    using assms(1) by (intro lo_validate_string_padstr) simp_all
  have v2: "lo_validate_string ?t 4 = Some 4"
    using lo_validate_string_padstr [of "'',b''" 4 "[]"] by (simp add: lo_strsize_def)
  have dr: "drop (nat (int ?p)) (padstr path @ ?t) = ?t" by simp
  have rem: "int (?p + 4) - int ?p = 4" "\<not> int (?p + 4) \<le> 0" by simp_all
  have "lo_type_of (CHR ''b'') = Some LO_BLOB" by (simp add: lo_type_of_Some typechar.simps)
  then have da: "lo_validate_arg be CHR ''b'' [] 0 = None"
    by (simp add: lo_validate_arg_def lo_validate_blob_def)
  have cs: "cstr ?t = Some '',b''" "drop (nat 4) ?t = []" "take 1 '',b'' = '',''"
    "take (length '',b'' - 1) (drop 1 ?t) = ''b''"
    unfolding p4 by simp_all
  show ?thesis
    unfolding lo_message_deserialise_def c_int_small [OF assms(2)] Let_def v1 bind.bind_lunit dr rem v2 cs
    using al by (simp add: da)
qed

text \<open>
  A clone holds the same arguments as the original, in buffers of its own with the sizes of the
  original; sender, timetag and reference count start afresh.
\<close>

theorem clone_same_arguments:
  assumes "msg_repr be m xs" "alloc_total al"
  shows "\<exists>m'. lo_message_clone al (Ref m) = Some (Ref m') \<and> msg_repr be m' xs \<and>
    lo_message_serialise al be m' path NULL = lo_message_serialise al be m path NULL \<and>
    m_source m' = NULL \<and> m_ts m' = LO_TT_IMMEDIATE \<and> m_refcount m' = 0"
  using lo_message_clone_repr [OF assms] lo_message_serialise_new assms by metis

text \<open>
  The argument vector has one entry for each argument; the entry of one that has data points at
  its image inside the data buffer. Asking again gives the same vector.
\<close>

theorem argv_points_at_arguments:
  assumes "msg_repr be m xs"
  shows "\<exists>argv m'. lo_message_get_argv be m = Some (argv, m') \<and> lo_message_get_argv be m' = Some (argv, m') \<and>
    int (length argv) = lo_message_get_argc m \<and>
    (\<forall>i < length xs. wire_arg (xs ! i) \<noteq> [] \<longrightarrow>
      (\<exists>off. argv ! i = Ref off \<and> off + length (host_arg be (xs ! i)) \<le> m_datalen m' \<and>
         take (length (host_arg be (xs ! i))) (drop off (m_data m')) = host_arg be (xs ! i)))"
proof -
  obtain m' where m': "lo_message_get_argv be m = Some (arg_offsets xs 0, m')" "msg_repr be m' xs"
    using lo_message_get_argv_repr [OF assms] by blast
  then have again: "lo_message_get_argv be m' = Some (arg_offsets xs 0, m')"
    by (auto simp: lo_message_get_argv_def split: ptr.splits bind_splits)
  have d: "take (m_datalen m') (m_data m') = concat (map (host_arg be) xs)" "m_datalen m' \<le> length (m_data m')"
    using m'(2) by (simp_all add: msg_repr_def data_ok_def)
  have "\<exists>off. arg_offsets xs 0 ! i = Ref off \<and> off + length (host_arg be (xs ! i)) \<le> m_datalen m' \<and>
      take (length (host_arg be (xs ! i))) (drop off (m_data m')) = host_arg be (xs ! i)"
    if i: "i < length xs" "wire_arg (xs ! i) \<noteq> []" for i
  proof -
    obtain pre post where p: "arg_offsets xs 0 ! i = Ref (0 + length pre)"
      "concat (map (host_arg be) xs) = pre @ host_arg be (xs ! i) @ post"
      using arg_offsets_point [OF i] by blast
    have "m_data m' = (pre @ host_arg be (xs ! i) @ post) @ drop (m_datalen m') (m_data m')"
      using d(1) p(2) by (metis append_take_drop_id)
    then have "take (length (host_arg be (xs ! i))) (drop (length pre) (m_data m')) = host_arg be (xs ! i)"
      by (metis append.assoc append_eq_conv_conj)
    moreover have "m_datalen m' = length (pre @ host_arg be (xs ! i) @ post)"
      using d p(2) by (metis length_take min.absorb2)
    ultimately show ?thesis using p(1) by simp
  qed
  then show ?thesis
    using m' again assms by (intro exI [of _ "arg_offsets xs 0"] exI [of _ m'])
      (simp add: lo_message_get_argc_def msg_repr_def types_ok_def)
qed

section \<open>Concrete instances\<close>

definition sample_message :: lo_message where
  "sample_message = \<lparr>m_types = '',i'' @ replicate 6 NUL, m_typelen = 2, m_typesize = 8,
     m_data = [NUL, NUL, NUL, CHR 0x07, NUL, NUL, NUL, NUL], m_datalen = 4, m_datasize = 8,
     m_source = NULL, m_argv = NULL, m_ts = LO_TT_IMMEDIATE, m_refcount = 0\<rparr>"

lemma be32_7: "be32 7 = [NUL, NUL, NUL, CHR 0x07]"
  unfolding be32_def by code_simp

lemma host32_7: "host32 True 7 = [NUL, NUL, NUL, CHR 0x07]"
  by (simp add: host32_def be32_7)

lemma sample_repr: "msg_repr True sample_message [OInt32 7]"
proof -
  have "arg_tag (OInt32 7) = CHR ''i''" by (simp add: arg_tag_def typechar.simps)
  moreover have "host_arg True (OInt32 7) = [NUL, NUL, NUL, CHR 0x07]" by (simp add: host32_7)
  moreover have "replicate 6 NUL = [NUL, NUL, NUL, NUL, NUL, NUL]" by (simp add: eval_nat_numeral)
  ultimately show ?thesis
    by (simp add: msg_repr_def types_ok_def data_ok_def sample_message_def)
qed

lemma sample_wire: "wire_message ''/a'' [OInt32 7] = ''/a'' @ [NUL, NUL] @ '',i'' @ [NUL, NUL, NUL, NUL, NUL, CHR 0x07]"
proof -
  have "padstr ''/a'' = ''/a'' @ [NUL, NUL]" "padstr '',i'' = '',i'' @ [NUL, NUL]"
    by (simp_all add: padstr_def lo_strsize_def numeral_2_eq_2)
  moreover have "type_tags [OInt32 7] = '',i''" by (simp add: type_tags_def arg_tag_def typechar.simps)
  ultimately show ?thesis by (simp add: wire_message_def be32_7)
qed

lemma sample_wire_len: "wire_len ''/a'' [OInt32 7] = 12"
  using arg_cong [OF sample_wire, of length] by simp

theorem serialise_wire_form_witness:
  "lo_message_serialise al_zero True sample_message ''/a'' NULL =
     Some (''/a'' @ [NUL, NUL] @ '',i'' @ [NUL, NUL, NUL, NUL, NUL, CHR 0x07], 12)"
  using serialise_wire_form [OF sample_repr alloc_total_al_zero, of "''/a''"] by (simp add: sample_wire sample_wire_len)

theorem serialise_deserialise_witness:
  "\<exists>data n m'. lo_message_serialise al_zero True sample_message ''/a'' NULL = Some (data, n) \<and>
     lo_message_deserialise al_zero False data n = Some (Ref m', 0) \<and> msg_repr False m' [OInt32 7]"
  using serialise_deserialise [OF sample_repr alloc_total_al_zero alloc_total_al_zero, of "''/a''" False]
  by (auto simp: sample_wire_len)

lemma sample_deserialise:
  "\<exists>m. lo_message_deserialise al_zero True (wire_message ''/a'' [OInt32 7]) 12 = Some (Ref m, 0)"
  using deserialise_wire_message [of "''/a''" "[OInt32 7]" al_zero True "[]"] by (auto simp: sample_wire_len)

theorem deserialise_serialise_witness:
  "\<exists>m. lo_message_deserialise al_zero True (wire_message ''/a'' [OInt32 7]) 12 = Some (Ref m, 0) \<and>
     (\<exists>path. lo_message_serialise al_zero True m path NULL = Some (wire_message ''/a'' [OInt32 7], 12))"
proof -
  obtain m where m: "lo_message_deserialise al_zero True (wire_message ''/a'' [OInt32 7]) 12 = Some (Ref m, 0)"
    using sample_deserialise by blast
  have "take 12 (wire_message ''/a'' [OInt32 7]) = wire_message ''/a'' [OInt32 7]"
    by (simp add: sample_wire_len)
  then show ?thesis
    using deserialise_serialise [OF m] m by (auto simp: sample_wire_len)
qed

text \<open>An integer and a blob are announced, and the integer is sent with two bytes more.\<close>

theorem deserialise_in_bounds_witness:
  "lo_message_deserialise al_zero True (padstr ''/a'' @ padstr '',ib'' @ be32 7 @ ''xy'') 14 = None"
proof -
  have s: "lo_strsize ''/a'' = 4" "lo_strsize '',ib'' = 4" by (simp_all add: lo_strsize_def)
  let ?d = "padstr ''/a'' @ padstr '',ib'' @ be32 7 @ ''xy''"
  have "\<exists>path xs ts few. take 14 ?d =
        padstr path @ padstr (CHR '','' # map arg_tag xs @ CHR ''b'' # ts) @ concat (map wire_arg xs) @ few \<and>
      NUL \<notin> set path \<and> NUL \<notin> set ts \<and> list_all arg_ok xs \<and> length few < 4"
    by (intro exI [of _ "''/a''"] exI [of _ "[OInt32 7]"] exI [of _ "[]"] exI [of _ "''xy''"])
      (simp add: s arg_tag_def typechar.simps)
  then show ?thesis using deserialise_in_bounds [OF _ _ alloc_total_al_zero, of 14 ?d True] by (simp add: s)
qed

theorem missing_blob_overread_witness:
  "lo_message_deserialise al_zero True (padstr ''/a'' @ padstr '',b'') 8 = None"
  using missing_blob_overread [of "''/a''" al_zero True] by (simp add: lo_strsize_def)

theorem clone_same_arguments_witness:
  "\<exists>m'. lo_message_clone al_zero (Ref sample_message) = Some (Ref m') \<and> msg_repr True m' [OInt32 7]"
  using clone_same_arguments [OF sample_repr alloc_total_al_zero] by blast

theorem argv_points_at_arguments_witness:
  "\<exists>argv m'. lo_message_get_argv True sample_message = Some (argv, m') \<and> length argv = 1 \<and>
     (\<exists>off. argv ! 0 = Ref off \<and> take 4 (drop off (m_data m')) = [NUL, NUL, NUL, CHR 0x07])"
proof -
  have "lo_message_get_argc sample_message = 1" by (simp add: lo_message_get_argc_def sample_message_def)
  moreover have "host_arg True (OInt32 7) = [NUL, NUL, NUL, CHR 0x07]" "wire_arg (OInt32 7) \<noteq> []"
    using be32_7 by (simp_all add: host32_7)
  ultimately show ?thesis
    using argv_points_at_arguments [OF sample_repr] by (auto simp: eval_nat_numeral simp del: host_arg.simps wire_arg.simps)
qed

end
