(* ===== verification/Bundle.thy ===== *)
theory Bundle
  imports Wire
begin

text \<open>
  Bundles (\<open>src/bundle.c\<close>): construction with reference counts and the check against circular
  references, accessors, the length and the serialisation of nested bundles, and both ways of
  freeing. Bundles and messages are objects in a store; a C pointer to one is its address.
\<close>

section \<open>The objects\<close>

datatype lo_element =
    El_message (el_msg: nat) (el_path: "byte list")
  | El_bundle (el_bundle: nat)

text \<open>\<open>b_elmnts\<close> is NULL after a failed \<open>realloc\<close>; only the first \<open>b_len\<close> entries are live.\<close>

record lo_bundle =
  b_size :: nat
  b_len :: nat
  b_ts :: lo_timetag
  b_elmnts :: "lo_element list ptr"
  b_refcount :: int

record heap =
  bundles :: "lo_bundle option list"
  messages :: "lo_message option list"

abbreviation bundle_at :: "heap \<Rightarrow> nat \<Rightarrow> lo_bundle option" where
  "bundle_at h a \<equiv> deref (bundles h) a"

abbreviation message_at :: "heap \<Rightarrow> nat \<Rightarrow> lo_message option" where
  "message_at h a \<equiv> deref (messages h) a"

definition put_bundle :: "heap \<Rightarrow> nat \<Rightarrow> lo_bundle option \<Rightarrow> heap" where
  "put_bundle h a b = h\<lparr>bundles := (bundles h)[a := b]\<rparr>"

definition put_message :: "heap \<Rightarrow> nat \<Rightarrow> lo_message option \<Rightarrow> heap" where
  "put_message h a m = h\<lparr>messages := (messages h)[a := m]\<rparr>"

text \<open>Reading the live elements.\<close>

definition elements :: "lo_bundle \<Rightarrow> lo_element list option" where
  "elements b =
     (case b_elmnts b of
        Ref es \<Rightarrow> Some (take (b_len b) es)
      | NULL \<Rightarrow> if b_len b = 0 then Some [] else None)"

definition lo_bundle_new :: "alloc \<Rightarrow> heap \<Rightarrow> lo_timetag \<Rightarrow> (nat \<times> heap) option" where
  "lo_bundle_new al h tt =
     (if al At_struct 0 = None then None
      else Some (length (bundles h),
        h\<lparr>bundles := bundles h @ [Some \<lparr>b_size = 4, b_len = 0, b_ts = tt,
             b_elmnts = (if al At_data 4 = None then NULL else Ref []), b_refcount = 0\<rparr>]\<rparr>))"

definition lo_bundle_incref :: "heap \<Rightarrow> nat \<Rightarrow> heap option" where
  "lo_bundle_incref h a = do {
     b \<leftarrow> bundle_at h a;
     Some (put_bundle h a (Some (b\<lparr>b_refcount := b_refcount b + 1\<rparr>)))
   }"

definition lo_bundle_decref :: "heap \<Rightarrow> nat \<Rightarrow> heap option" where
  "lo_bundle_decref h a = do {
     b \<leftarrow> bundle_at h a;
     Some (put_bundle h a (Some (b\<lparr>b_refcount := b_refcount b - 1\<rparr>)))
   }"

section \<open>Circular references\<close>

text \<open>
  The list of parents grows at its end; popping it before returning restores the caller's list, so
  it is passed down and not back. The storage of the list (\<open>realloc\<close> when full) is not modelled.
\<close>

definition push_to_list :: "nat list \<Rightarrow> nat \<Rightarrow> nat list" where
  "push_to_list B b = B @ [b]"

definition is_in_list :: "nat list \<Rightarrow> nat \<Rightarrow> bool" where
  "is_in_list B b \<longleftrightarrow> List.member B b"

text \<open>Every bundle pushed is one fewer that can still be entered.\<close>

definition unvisited :: "heap \<Rightarrow> nat list \<Rightarrow> nat" where
  "unvisited h B = card ({..<length (bundles h)} - set B)"

lemma unvisited_push:
  assumes "bundle_at h a = Some b" "\<not> is_in_list B a"
  shows "unvisited h (push_to_list B a) < unvisited h B"
proof -
  have "a \<in> {..<length (bundles h)} - set B"
    using assms by (simp add: deref_Some_bound is_in_list_def)
  moreover have "{..<length (bundles h)} - set (push_to_list B a) = {..<length (bundles h)} - set B - {a}"
    by (auto simp: push_to_list_def)
  ultimately show ?thesis unfolding unvisited_def by (simp only: card_Diff1_less finite_Diff finite_lessThan)
qed

text \<open>\<open>Some True\<close> is the result -1: a bundle is its own ancestor.\<close>

function (sequential) walk_tree :: "heap \<Rightarrow> nat list \<Rightarrow> nat \<Rightarrow> bool option"
  and walk_elements :: "heap \<Rightarrow> nat list \<Rightarrow> lo_element list \<Rightarrow> bool option" where
  "walk_tree h B a =
     (if is_in_list B a then Some True
      else case bundle_at h a of
        None \<Rightarrow> None
      | Some b \<Rightarrow>
          (case elements b of
             None \<Rightarrow> None
           | Some es \<Rightarrow> walk_elements h (push_to_list B a) es))"
| "walk_elements h B [] = Some False"
| "walk_elements h B (El_message m p # es) = walk_elements h B es"
| "walk_elements h B (El_bundle c # es) =
     (case walk_tree h B c of
        None \<Rightarrow> None
      | Some True \<Rightarrow> Some True
      | Some False \<Rightarrow> walk_elements h B es)"
  by pat_completeness auto

termination
  by (relation "inv_image (less_than <*lex*> less_than)
       (\<lambda>x. case x of Inl (h, B, a) \<Rightarrow> (unvisited h B, 0) | Inr (h, B, es) \<Rightarrow> (unvisited h B, Suc (length es)))")
     (auto simp: unvisited_push)

declare walk_tree.simps [simp del]

definition lo_bundle_circular :: "heap \<Rightarrow> nat \<Rightarrow> bool option" where
  "lo_bundle_circular h a = walk_tree h [] a"

lemma elements_refcount [simp]: "elements (b\<lparr>b_refcount := r\<rparr>) = elements b"
  by (cases "b_elmnts b") (simp_all add: elements_def)

section \<open>Adding elements\<close>

text \<open>
  The store of an element at \<open>elmnts[len]\<close> and the increment of \<open>len\<close>; NULL cannot be written to.
\<close>

definition append_element :: "heap \<Rightarrow> nat \<Rightarrow> lo_element \<Rightarrow> heap option" where
  "append_element h a e = do {
     b \<leftarrow> bundle_at h a;
     (case b_elmnts b of
        NULL \<Rightarrow> None
      | Ref es \<Rightarrow> Some (put_bundle h a (Some
          (b\<lparr>b_elmnts := Ref (take (b_len b) es @ [e]), b_len := b_len b + 1\<rparr>))))
   }"

definition lo_bundle_add_element :: "alloc \<Rightarrow> heap \<Rightarrow> nat \<Rightarrow> lo_element \<Rightarrow> (int \<times> heap) option" where
  "lo_bundle_add_element al h a e = do {
     b \<leftarrow> bundle_at h a;
     let full = b_len b \<ge> b_size b;
     let b1 = (if full then b\<lparr>b_size := b_size b * 2\<rparr> else b);
     if full \<and> al At_data (b_size b1) = None
     then Some (- 1, put_bundle h a (Some (b1\<lparr>b_elmnts := NULL\<rparr>)))
     else do {
       let h1 = put_bundle h a (Some b1);
       (case e of
          El_message m path \<Rightarrow> do {
            msg \<leftarrow> message_at h1 m;
            h2 \<leftarrow> append_element (put_message h1 m (Some (lo_message_incref msg))) a e;
            Some (0, h2)
          }
        | El_bundle n \<Rightarrow> do {
            h2 \<leftarrow> lo_bundle_incref h1 n;
            h3 \<leftarrow> append_element h2 a e;
            circ \<leftarrow> lo_bundle_circular h3 a;
            if circ then do {
              h4 \<leftarrow> lo_bundle_decref h3 n;
              b4 \<leftarrow> bundle_at h4 a;
              Some (- 1, put_bundle h4 a (Some (b4\<lparr>b_len := b_len b4 - 1\<rparr>)))
            }
            else Some (0, h3)
          })
     }
   }"

definition lo_bundle_add_message :: "alloc \<Rightarrow> heap \<Rightarrow> nat \<Rightarrow> byte list \<Rightarrow> nat ptr \<Rightarrow> (int \<times> heap) option" where
  "lo_bundle_add_message al h b path m =
     (case m of NULL \<Rightarrow> Some (0, h) | Ref m \<Rightarrow> lo_bundle_add_element al h b (El_message m path))"

definition lo_bundle_add_bundle :: "alloc \<Rightarrow> heap \<Rightarrow> nat \<Rightarrow> nat ptr \<Rightarrow> (int \<times> heap) option" where
  "lo_bundle_add_bundle al h b n =
     (case n of NULL \<Rightarrow> Some (0, h) | Ref n \<Rightarrow> lo_bundle_add_element al h b (El_bundle n))"

section \<open>Accessors\<close>

definition LO_ELEMENT_MESSAGE :: int where "LO_ELEMENT_MESSAGE = 1"
definition LO_ELEMENT_BUNDLE :: int where "LO_ELEMENT_BUNDLE = 2"

text \<open>\<open>elmnts[index]\<close> for an index the code compared with \<open>len\<close>: a negative one is out of bounds.\<close>

definition element_at :: "lo_bundle \<Rightarrow> int \<Rightarrow> lo_element option" where
  "element_at b index =
     (case elements b of
        None \<Rightarrow> None
      | Some es \<Rightarrow> if 0 \<le> index \<and> index < int (length es) then Some (es ! nat index) else None)"

definition lo_bundle_get_type :: "lo_bundle \<Rightarrow> int \<Rightarrow> int option" where
  "lo_bundle_get_type b index =
     (if index < int (b_len b) then
        map_option (\<lambda>e. case e of El_message _ _ \<Rightarrow> LO_ELEMENT_MESSAGE | El_bundle _ \<Rightarrow> LO_ELEMENT_BUNDLE)
          (element_at b index)
      else Some 0)"

definition lo_bundle_get_bundle :: "lo_bundle \<Rightarrow> int \<Rightarrow> nat ptr option" where
  "lo_bundle_get_bundle b index =
     (if index < int (b_len b) then
        map_option (\<lambda>e. case e of El_message _ _ \<Rightarrow> NULL | El_bundle n \<Rightarrow> Ref n) (element_at b index)
      else Some NULL)"

text \<open>The second component is what is stored through \<open>path\<close>, when it is.\<close>

definition lo_bundle_get_message :: "lo_bundle \<Rightarrow> int \<Rightarrow> (nat ptr \<times> byte list option) option" where
  "lo_bundle_get_message b index =
     (if index < int (b_len b) then
        map_option (\<lambda>e. case e of El_message m path \<Rightarrow> (Ref m, Some path) | El_bundle _ \<Rightarrow> (NULL, None))
          (element_at b index)
      else Some (NULL, None))"

definition lo_bundle_get_timestamp :: "lo_bundle \<Rightarrow> lo_timetag" where
  "lo_bundle_get_timestamp b = b_ts b"

definition lo_bundle_count :: "lo_bundle \<Rightarrow> nat" where
  "lo_bundle_count b = b_len b"

section \<open>Length and serialisation\<close>

text \<open>
  The recursion follows the bundles, so it does not end on a circular one; \<open>fuel\<close> bounds the
  depth of the nesting.
\<close>

fun sum_lengths :: "(lo_element \<Rightarrow> nat option) \<Rightarrow> lo_element list \<Rightarrow> nat \<Rightarrow> nat option" where
  "sum_lengths len [] sz = Some sz"
| "sum_lengths len (e # es) sz = do { n \<leftarrow> len e; sum_lengths len es (sz + n) }"

definition message_length_at :: "heap \<Rightarrow> nat \<Rightarrow> byte list \<Rightarrow> nat option" where
  "message_length_at h m path = do { msg \<leftarrow> message_at h m; lo_message_length msg path }"

primrec lo_bundle_length :: "nat \<Rightarrow> heap \<Rightarrow> nat ptr \<Rightarrow> nat option" where
  "lo_bundle_length 0 h bp = None"
| "lo_bundle_length (Suc fuel) h bp =
     (case bp of
        NULL \<Rightarrow> Some 0
      | Ref a \<Rightarrow> do {
          b \<leftarrow> bundle_at h a;
          es \<leftarrow> elements b;
          sum_lengths (\<lambda>e. case e of
              El_bundle n \<Rightarrow> lo_bundle_length fuel h (Ref n)
            | El_message m path \<Rightarrow> message_length_at h m path) es (16 + b_len b * 4)
        })"

text \<open>
  The loop over the elements, on the memory from \<open>pos\<close> on: each is written by \<open>ser\<close> behind the
  place of its size. \<open>remaining\<close> is what the computed length leaves; the flag says whether the size
  checks passed.
\<close>

fun ser_elements ::
  "bool \<Rightarrow> (lo_element \<Rightarrow> byte list \<Rightarrow> (byte list \<times> nat) option) \<Rightarrow> lo_element list \<Rightarrow> byte list \<Rightarrow> int \<Rightarrow>
   (byte list \<times> bool) option" where
  "ser_elements be ser [] mem remaining = Some (mem, remaining = 0)"
| "ser_elements be ser (e # es) mem remaining =
     (if length mem < 4 then None
      else do {
        (body, skip) \<leftarrow> ser e (drop 4 mem);
        let bes = host32 be (lo_htoo32 be (word_of_nat skip));
        let left' = remaining - 4 - int skip;
        if left' < 0 then Some (bes @ body, False)
        else do {
          (rest, ok) \<leftarrow> ser_elements be ser es (drop skip body) left';
          Some (bes @ take skip body @ rest, ok)
        }
      })"

definition message_serialise_at ::
  "alloc \<Rightarrow> bool \<Rightarrow> heap \<Rightarrow> nat \<Rightarrow> byte list \<Rightarrow> byte list \<Rightarrow> (byte list \<times> nat) option" where
  "message_serialise_at al be h m path mem = do {
     msg \<leftarrow> message_at h m;
     lo_message_serialise al be msg path (Ref mem)
   }"

text \<open>
  The result is the memory at \<open>to\<close>, whether \<open>to\<close> is returned (NULL otherwise), and the size stored
  through \<open>size\<close>.
\<close>

primrec lo_bundle_serialise ::
  "nat \<Rightarrow> alloc \<Rightarrow> bool \<Rightarrow> heap \<Rightarrow> nat ptr \<Rightarrow> byte list ptr \<Rightarrow> (byte list \<times> bool \<times> nat) option" where
  "lo_bundle_serialise 0 al be h bp to = None"
| "lo_bundle_serialise (Suc fuel) al be h bp to =
     (case bp of
        NULL \<Rightarrow> Some ([], False, 0)
      | Ref a \<Rightarrow> do {
          s \<leftarrow> lo_bundle_length (Suc fuel) h bp;
          b \<leftarrow> bundle_at h a;
          buf \<leftarrow> (case to of NULL \<Rightarrow> calloc al At_data s | Ref t \<Rightarrow> Some t);
          es \<leftarrow> elements b;
          if length buf < 16 then None
          else do {
            (rest, ok) \<leftarrow> ser_elements be (\<lambda>e mem. case e of
                El_message m path \<Rightarrow> message_serialise_at al be h m path mem
              | El_bundle n \<Rightarrow> map_option (\<lambda>(body, _, skip). (body, skip))
                                (lo_bundle_serialise fuel al be h (Ref n) (Ref mem)))
              es (drop 16 buf) (int s - 16);
            Some (''#bundle'' @ NUL # host32 be (lo_htoo32 be (tt_sec (b_ts b)))
                    @ host32 be (lo_htoo32 be (tt_frac (b_ts b))) @ rest, ok, s)
          }
        })"

section \<open>Freeing\<close>

definition lo_bundle_free :: "heap \<Rightarrow> nat ptr \<Rightarrow> heap option" where
  "lo_bundle_free h bp =
     (case bp of
        NULL \<Rightarrow> Some h
      | Ref a \<Rightarrow> do {
          h1 \<leftarrow> lo_bundle_decref h a;
          b \<leftarrow> bundle_at h1 a;
          if b_refcount b > 0 then Some h1 else Some (put_bundle h1 a None)
        })"

definition free_message_at :: "heap \<Rightarrow> nat \<Rightarrow> heap option" where
  "free_message_at h m = do {
     msg \<leftarrow> message_at h m;
     Some (put_message h m (case lo_message_free (Ref msg) of NULL \<Rightarrow> None | Ref m' \<Rightarrow> Some m'))
   }"

fun collect_elements :: "(heap \<Rightarrow> lo_element \<Rightarrow> heap option) \<Rightarrow> heap \<Rightarrow> lo_element list \<Rightarrow> heap option" where
  "collect_elements collect_element h [] = Some h"
| "collect_elements collect_element h (e # es) = do {
     h' \<leftarrow> collect_element h e;
     collect_elements collect_element h' es
   }"

primrec lo_bundle_free_recursive :: "nat \<Rightarrow> heap \<Rightarrow> nat ptr \<Rightarrow> heap option" where
  "lo_bundle_free_recursive 0 h bp = None"
| "lo_bundle_free_recursive (Suc fuel) h bp =
     (case bp of
        NULL \<Rightarrow> Some h
      | Ref a \<Rightarrow> do {
          h1 \<leftarrow> lo_bundle_decref h a;
          b \<leftarrow> bundle_at h1 a;
          if b_refcount b > 0 then Some h1
          else do {
            es \<leftarrow> elements b;
            h2 \<leftarrow> collect_elements (\<lambda>h e. case e of
                El_message m path \<Rightarrow> free_message_at h m
              | El_bundle n \<Rightarrow> lo_bundle_free_recursive fuel h (Ref n)) h1 es;
            Some (put_bundle h2 a None)
          }
        })"

definition lo_bundle_free_messages :: "nat \<Rightarrow> heap \<Rightarrow> nat ptr \<Rightarrow> heap option" where
  "lo_bundle_free_messages = lo_bundle_free_recursive"

section \<open>The circularity check\<close>

text \<open>What the operations observe of a store: the live elements and the reference counts.\<close>

definition live :: "heap \<Rightarrow> nat \<Rightarrow> lo_element list option" where
  "live h a = (case bundle_at h a of None \<Rightarrow> None | Some b \<Rightarrow> elements b)"

definition child :: "heap \<Rightarrow> (nat \<times> nat) set" where
  "child h = {(a, c). \<exists>es. live h a = Some es \<and> El_bundle c \<in> set es}"

lemma walk_safe:
  "walk_tree h B a = Some False \<Longrightarrow> (a, c) \<in> (child h)\<^sup>* \<Longrightarrow> c \<notin> set B \<and> (c, c) \<notin> (child h)\<^sup>+"
  "walk_elements h B es = Some False \<Longrightarrow> El_bundle n \<in> set es \<Longrightarrow> (n, c) \<in> (child h)\<^sup>* \<Longrightarrow>
     c \<notin> set B \<and> (c, c) \<notin> (child h)\<^sup>+"
proof (induction h B a and h B es arbitrary: c and c n rule: walk_tree_walk_elements.induct)
  case (1 h B a)
  then obtain b es where b: "a \<notin> set B" "bundle_at h a = Some b" "elements b = Some es"
    "walk_elements h (push_to_list B a) es = Some False"
    by (auto simp: walk_tree.simps [of h B a] is_in_list_def split: if_splits option.splits)
  have step: "\<exists>n. El_bundle n \<in> set es \<and> (n, d) \<in> (child h)\<^sup>*" if "(a, d) \<in> (child h)\<^sup>+" for d
    using that b by (auto simp: child_def live_def dest!: tranclD)
  have below: "d \<notin> set B \<and> d \<noteq> a \<and> (d, d) \<notin> (child h)\<^sup>+"
    if "El_bundle n \<in> set es" "(n, d) \<in> (child h)\<^sup>*" for n d
    using "1.IH" [OF _ b(2,3,4) that] b(1) by (auto simp: is_in_list_def push_to_list_def)
  show ?case
  proof (cases "c = a")
    case True
    then show ?thesis using b(1) step below by blast
  next
    case False
    then have "(a, c) \<in> (child h)\<^sup>+" using rtranclD [OF "1.prems"(2)] by auto
    then show ?thesis using step below by blast
  qed
next
  case (4 h B m es)
  then show ?case by (auto split: option.splits bool.splits)
qed (auto)

lemma walk_cycle:
  "walk_tree h B a = Some True \<Longrightarrow> \<exists>c. (a, c) \<in> (child h)\<^sup>* \<and> (c \<in> set B \<or> (c, c) \<in> (child h)\<^sup>+)"
  "walk_elements h B es = Some True \<Longrightarrow>
     \<exists>n c. El_bundle n \<in> set es \<and> (n, c) \<in> (child h)\<^sup>* \<and> (c \<in> set B \<or> (c, c) \<in> (child h)\<^sup>+)"
proof (induction h B a and h B es rule: walk_tree_walk_elements.induct)
  case (1 h B a)
  show ?case
  proof (cases "a \<in> set B")
    case False
    with 1 obtain b es n c where b: "bundle_at h a = Some b" "elements b = Some es"
      "El_bundle n \<in> set es" "(n, c) \<in> (child h)\<^sup>*" "c \<in> set B \<or> c = a \<or> (c, c) \<in> (child h)\<^sup>+"
      by (fastforce simp: walk_tree.simps [of h B a] is_in_list_def push_to_list_def split: if_splits option.splits)
    have "(a, n) \<in> child h" using b by (auto simp: child_def live_def)
    then have "(a, c) \<in> (child h)\<^sup>+" using b(4) by (rule rtrancl_into_trancl2)
    then show ?thesis using b(5) by (metis trancl_into_rtrancl)
  qed auto
next
  case (4 h B m es)
  then show ?case by (fastforce split: option.splits bool.splits)
qed auto

lemma circular_iff:
  "lo_bundle_circular h a = Some r \<Longrightarrow> r \<longleftrightarrow> (\<exists>c. (a, c) \<in> (child h)\<^sup>* \<and> (c, c) \<in> (child h)\<^sup>+)"
  using walk_safe(1) [of h "[]" a] walk_cycle(1) [of h "[]" a]
  by (cases r) (auto simp: lo_bundle_circular_def)

text \<open>Bundles whose element array is allocated, and whose elements are live objects.\<close>

definition bundle_wf :: "heap \<Rightarrow> lo_bundle \<Rightarrow> bool" where
  "bundle_wf h b \<longleftrightarrow>
     (\<exists>es. b_elmnts b = Ref es \<and> b_len b \<le> length es \<and>
        (\<forall>e \<in> set (take (b_len b) es). case e of
            El_message m p \<Rightarrow> message_at h m \<noteq> None
          | El_bundle n \<Rightarrow> bundle_at h n \<noteq> None))"

definition closed :: "heap \<Rightarrow> bool" where
  "closed h \<longleftrightarrow> (\<forall>a b. bundle_at h a = Some b \<longrightarrow> bundle_wf h b)"

lemma bundle_wf_elements: "bundle_wf h b \<Longrightarrow> \<exists>es. elements b = Some es \<and> length es = b_len b"
  by (auto simp: bundle_wf_def elements_def)

lemma closed_elements:
  assumes "closed h" "bundle_at h a = Some b" "elements b = Some es" "e \<in> set es"
  shows "case e of El_message m p \<Rightarrow> message_at h m \<noteq> None | El_bundle n \<Rightarrow> bundle_at h n \<noteq> None"
proof -
  have "bundle_wf h b" using assms(1,2) unfolding closed_def by blast
  then obtain es' where "b_elmnts b = Ref es'"
    "\<forall>e \<in> set (take (b_len b) es'). case e of El_message m p \<Rightarrow> message_at h m \<noteq> None | El_bundle n \<Rightarrow> bundle_at h n \<noteq> None"
    unfolding bundle_wf_def by blast
  then show ?thesis using assms(3,4) by (simp add: elements_def)
qed

lemma walk_total:
  "closed h \<Longrightarrow> bundle_at h a \<noteq> None \<Longrightarrow> walk_tree h B a \<noteq> None"
  "closed h \<Longrightarrow> (\<And>n. El_bundle n \<in> set es \<Longrightarrow> bundle_at h n \<noteq> None) \<Longrightarrow> walk_elements h B es \<noteq> None"
proof (induction h B a and h B es rule: walk_tree_walk_elements.induct)
  case (1 h B a)
  then obtain b where b: "bundle_at h a = Some b" by auto
  then obtain es where es: "elements b = Some es"
    using "1.prems"(1) bundle_wf_elements unfolding closed_def by blast
  have "bundle_at h n \<noteq> None" if "El_bundle n \<in> set es" for n
    using closed_elements [OF "1.prems"(1) b es that] by simp
  then have "\<not> is_in_list B a \<Longrightarrow> walk_elements h (push_to_list B a) es \<noteq> None"
    using "1.IH" [OF _ b es "1.prems"(1)] by blast
  then show ?case by (simp add: walk_tree.simps [of h B a] b es del: not_None_eq)
next
  case (4 h B m es)
  then show ?case by (force split: option.splits bool.splits)
qed simp_all

section \<open>The invariant of a store\<close>

definition bref :: "heap \<Rightarrow> nat \<Rightarrow> int" where
  "bref h a = (case bundle_at h a of None \<Rightarrow> 0 | Some b \<Rightarrow> b_refcount b)"

definition mref :: "heap \<Rightarrow> nat \<Rightarrow> int" where
  "mref h m = (case message_at h m of None \<Rightarrow> 0 | Some msg \<Rightarrow> m_refcount msg)"

text \<open>How often the live bundles hold an element that satisfies \<open>P\<close>.\<close>

definition occurrences :: "(lo_element \<Rightarrow> bool) \<Rightarrow> heap \<Rightarrow> nat" where
  "occurrences P h = (\<Sum>a<length (bundles h). case live h a of None \<Rightarrow> 0 | Some es \<Rightarrow> length (filter P es))"

text \<open>
  Every element is live, no bundle contains itself, and no object is referenced more often than it
  is counted.
\<close>

definition heap_ok :: "heap \<Rightarrow> bool" where
  "heap_ok h \<longleftrightarrow> closed h \<and> acyclic (child h) \<and>
     (\<forall>a. bundle_at h a \<noteq> None \<longrightarrow> int (occurrences (\<lambda>e. e = El_bundle a) h) \<le> bref h a) \<and>
     (\<forall>m. message_at h m \<noteq> None \<longrightarrow> int (occurrences (\<lambda>e. \<exists>p. e = El_message m p) h) \<le> mref h m)"

lemma bundle_at_put [simp]:
  "bundle_at (put_bundle h a b) c = (if c = a \<and> a < length (bundles h) then b else bundle_at h c)"
  "bundle_at (put_message h m x) c = bundle_at h c"
  by (simp_all add: put_bundle_def put_message_def deref_update)

lemma message_at_put [simp]:
  "message_at (put_message h m x) c = (if c = m \<and> m < length (messages h) then x else message_at h c)"
  "message_at (put_bundle h a b) c = message_at h c"
  by (simp_all add: put_bundle_def put_message_def deref_update)

lemma length_put [simp]:
  "length (bundles (put_bundle h a b)) = length (bundles h)"
  "length (bundles (put_message h m x)) = length (bundles h)"
  "length (messages (put_bundle h a b)) = length (messages h)"
  "length (messages (put_message h m x)) = length (messages h)"
  by (simp_all add: put_bundle_def put_message_def)

text \<open>One element more in one bundle.\<close>

lemma occurrences_append:
  assumes "live h a = Some es" "live h' = (live h)(a \<mapsto> es @ [e])" "length (bundles h') = length (bundles h)"
  shows "occurrences P h' = occurrences P h + (if P e then 1 else 0)"
proof -
  let ?n = "\<lambda>h c. case live h c of None \<Rightarrow> 0 | Some es \<Rightarrow> length (filter P es)"
  have a: "a \<in> {..<length (bundles h)}"
    using assms(1) by (auto simp: live_def dest: deref_Some_bound split: option.splits)
  have "occurrences P h' = ?n h' a + (\<Sum>c \<in> {..<length (bundles h)} - {a}. ?n h' c)"
    unfolding occurrences_def assms(3) using a by (intro sum.remove) simp_all
  also have "\<dots> = (?n h a + (if P e then 1 else 0)) + (\<Sum>c \<in> {..<length (bundles h)} - {a}. ?n h c)"
    using assms(1,2) by (auto intro!: sum.cong arg_cong2 [where f = "(+)"])
  also have "\<dots> = occurrences P h + (if P e then 1 else 0)"
    unfolding occurrences_def using a by (simp add: sum.remove)
  finally show ?thesis .
qed

lemma occurrences_same:
  "live h' = live h \<Longrightarrow> length (bundles h') = length (bundles h) \<Longrightarrow> occurrences P h' = occurrences P h"
  by (simp add: occurrences_def)

lemma child_append:
  assumes "live h a = Some es" "live h' = (live h)(a \<mapsto> es @ [e])"
  shows "child h' = child h \<union> {(a, c) | c. e = El_bundle c}"
  using assms by (auto simp: child_def split: if_splits)

lemma acyclic_insert_checked:
  assumes "acyclic r" "\<nexists>c. (a, c) \<in> (insert (a, n) r)\<^sup>* \<and> (c, c) \<in> (insert (a, n) r)\<^sup>+"
  shows "acyclic (insert (a, n) r)"
proof -
  have "(n, a) \<notin> r\<^sup>*"
  proof
    assume "(n, a) \<in> r\<^sup>*"
    then have "(a, a) \<in> (insert (a, n) r)\<^sup>+"
      by (meson insertI1 rtrancl_into_trancl2 rtrancl_mono subset_iff subset_insertI)
    then show False using assms(2) by blast
  qed
  then show ?thesis using assms(1) by (simp add: acyclic_insert)
qed

text \<open>The invariant in terms of what is observed.\<close>

definition stored :: "heap \<Rightarrow> bool" where
  "stored h \<longleftrightarrow> (\<forall>a b. bundle_at h a = Some b \<longrightarrow> (\<exists>es. b_elmnts b = Ref es \<and> b_len b \<le> length es))"

definition target_ok :: "heap \<Rightarrow> lo_element \<Rightarrow> bool" where
  "target_ok h e = (case e of El_message m p \<Rightarrow> message_at h m \<noteq> None | El_bundle n \<Rightarrow> live h n \<noteq> None)"

lemma live_None:
  assumes "stored h"
  shows "live h a = None \<longleftrightarrow> bundle_at h a = None"
proof (cases "bundle_at h a")
  case (Some b)
  then obtain es where "b_elmnts b = Ref es" using assms unfolding stored_def by blast
  with Some show ?thesis by (simp add: live_def elements_def)
qed (simp add: live_def)

lemma closed_live:
  "closed h \<longleftrightarrow> stored h \<and> (\<forall>a es e. live h a = Some es \<longrightarrow> e \<in> set es \<longrightarrow> target_ok h e)" (is "?L = ?R")
proof
  assume c: ?L
  then have st: "stored h" by (fastforce simp: closed_def stored_def bundle_wf_def)
  have "target_ok h e" if l: "live h a = Some es" and e: "e \<in> set es" for a es e
  proof -
    obtain b where "bundle_at h a = Some b" "elements b = Some es"
      using l by (auto simp: live_def split: option.splits)
    from closed_elements [OF c this e] show ?thesis
      by (cases e) (simp_all add: target_ok_def live_None [OF st])
  qed
  with st show ?R by blast
next
  assume r: ?R
  have "bundle_wf h b" if b: "bundle_at h a = Some b" for a b
  proof -
    obtain es where es: "b_elmnts b = Ref es" "b_len b \<le> length es"
      using r b unfolding stored_def by blast
    then have "live h a = Some (take (b_len b) es)" using b by (simp add: live_def elements_def)
    then have "\<forall>e \<in> set (take (b_len b) es). target_ok h e" using r by blast
    then have "\<forall>e \<in> set (take (b_len b) es). case e of
        El_message m p \<Rightarrow> message_at h m \<noteq> None | El_bundle n \<Rightarrow> bundle_at h n \<noteq> None"
      using live_None [of h] r by (auto simp: target_ok_def split: lo_element.split)
    then show ?thesis using es unfolding bundle_wf_def by blast
  qed
  then show ?L unfolding closed_def by blast
qed

lemma heap_ok_live:
  "heap_ok h \<longleftrightarrow> stored h \<and> (\<forall>a es e. live h a = Some es \<longrightarrow> e \<in> set es \<longrightarrow> target_ok h e) \<and>
     acyclic (child h) \<and>
     (\<forall>a. live h a \<noteq> None \<longrightarrow> int (occurrences (\<lambda>e. e = El_bundle a) h) \<le> bref h a) \<and>
     (\<forall>m. message_at h m \<noteq> None \<longrightarrow> int (occurrences (\<lambda>e. \<exists>p. e = El_message m p) h) \<le> mref h m)"
proof (cases "stored h")
  case True
  show ?thesis unfolding heap_ok_def closed_live live_None [OF True] by blast
qed (simp add: heap_ok_def closed_live)

text \<open>What adding a bundle does before and after the check.\<close>

lemma add_bundle_steps:
  assumes "stored h" "alloc_total al" "live h a = Some es" "live h n \<noteq> None"
  shows "\<exists>h3 h4. lo_bundle_add_element al h a (El_bundle n) =
       do { circ \<leftarrow> lo_bundle_circular h3 a; Some (if circ then (- 1, h4) else (0, h3)) } \<and>
     stored h3 \<and> live h3 = (live h)(a \<mapsto> es @ [El_bundle n]) \<and> bref h3 = (bref h)(n := bref h n + 1) \<and>
     messages h3 = messages h \<and> length (bundles h3) = length (bundles h) \<and>
     stored h4 \<and> live h4 = live h \<and> bref h4 = bref h \<and> messages h4 = messages h \<and>
     length (bundles h4) = length (bundles h)"
proof -
  obtain b where b: "bundle_at h a = Some b" "elements b = Some es"
    using assms(3) by (auto simp: live_def split: option.splits)
  obtain c where c: "bundle_at h n = Some c"
    using assms(1,4) live_None [of h n] by auto
  obtain st where st: "b_elmnts b = Ref st" "b_len b \<le> length st" "es = take (b_len b) st"
    using assms(1) b unfolding stored_def by (fastforce simp: elements_def)
  have al: "al s k \<noteq> None" for s k using assms(2) by (simp add: alloc_total_def)
  have bd: "a < length (bundles h)" "n < length (bundles h)"
    using b c by (simp_all add: deref_Some_bound)
  define b1 where "b1 = (if b_len b \<ge> b_size b then b\<lparr>b_size := b_size b * 2\<rparr> else b)"
  define h1 where "h1 = put_bundle h a (Some b1)"
  define c1 where "c1 = (if n = a then b1 else c)"
  define h2 where "h2 = put_bundle h1 n (Some (c1\<lparr>b_refcount := b_refcount c1 + 1\<rparr>))"
  define b2 where "b2 = (if n = a then b1\<lparr>b_refcount := b_refcount b1 + 1\<rparr> else b1)"
  define b3 where "b3 = b2\<lparr>b_elmnts := Ref (es @ [El_bundle n]), b_len := b_len b + 1\<rparr>"
  define h3 where "h3 = put_bundle h2 a (Some b3)"
  define c3 where "c3 = (if n = a then b3 else c\<lparr>b_refcount := b_refcount c + 1\<rparr>)"
  define c4 where "c4 = c3\<lparr>b_refcount := b_refcount c3 - 1\<rparr>"
  define b4 where "b4 = (if n = a then c4 else b3)\<lparr>b_len := b_len b3 - 1\<rparr>"
  define h4 where "h4 = put_bundle (put_bundle h3 n (Some c4)) a (Some b4)"
  have b1f: "b_len b1 = b_len b" "b_elmnts b1 = Ref st" "b_refcount b1 = b_refcount b"
    by (simp_all add: b1_def st)
  have i: "lo_bundle_incref h1 n = Some h2"
    using bd c by (auto simp: lo_bundle_incref_def h1_def h2_def c1_def)
  have ap: "append_element h2 a (El_bundle n) = Some h3"
    using bd b1f by (auto simp: append_element_def h1_def h2_def h3_def b2_def b3_def c1_def st(3))
  have h3n: "bundle_at h3 n = Some c3" "n < length (bundles h3)" "a < length (bundles h3)"
    using bd c by (auto simp: h1_def h2_def h3_def c3_def c1_def)
  have h3a: "bundle_at h3 a = Some b3" using bd by (simp add: h1_def h2_def h3_def)
  have dec: "do { h4 \<leftarrow> lo_bundle_decref h3 n; b4 \<leftarrow> bundle_at h4 a;
       Some (- 1 :: int, put_bundle h4 a (Some (b4\<lparr>b_len := b_len b4 - 1\<rparr>))) } = Some (- 1, h4)"
    using h3n h3a by (auto simp: lo_bundle_decref_def h4_def b4_def c4_def c3_def)
  have eq: "lo_bundle_add_element al h a (El_bundle n) =
       do { circ \<leftarrow> lo_bundle_circular h3 a; Some (if circ then (- 1, h4) else (0, h3)) }"
    using b(1) i ap dec al [of At_data "b_size b1"]
    by (cases "lo_bundle_circular h3 a")
       (auto simp: lo_bundle_add_element_def Let_def b1_def [symmetric] h1_def [symmetric])
  have at3: "bundle_at h3 x = (if x = a then Some b3 else if x = n then Some (c\<lparr>b_refcount := b_refcount c + 1\<rparr>) else bundle_at h x)" for x
    using bd by (simp add: h3_def h2_def h1_def c1_def)
  have at4: "bundle_at h4 x = (if x = a then Some b4 else bundle_at h x)" for x
    using bd c at3 h3n by (auto simp: h4_def c4_def c3_def)
  have f3: "b_elmnts b3 = Ref (es @ [El_bundle n])" "b_len b3 = b_len b + 1" "length es = b_len b"
    "b_refcount b3 = (if n = a then b_refcount b + 1 else b_refcount b)"
    using st b1f by (simp_all add: b3_def b2_def)
  have f4: "b_elmnts b4 = Ref (es @ [El_bundle n])" "b_len b4 = b_len b" "b_refcount b4 = b_refcount b"
    using f3 by (simp_all add: b4_def c4_def c3_def)
  have el: "elements b3 = Some (es @ [El_bundle n])" "elements b4 = Some es"
    using f3 f4 by (simp_all add: elements_def)
  have "stored h3" using assms(1) f3 c unfolding stored_def at3 by (auto split: if_splits)
  moreover have "live h3 = (live h)(a \<mapsto> es @ [El_bundle n])"
    using c by (auto simp: fun_eq_iff live_def at3 el)
  moreover have "bref h3 = (bref h)(n := bref h n + 1)"
    using b c f3 by (auto simp: fun_eq_iff bref_def at3)
  moreover have "stored h4" using assms(1) f3 f4 unfolding stored_def at4 by (auto split: if_splits)
  moreover have "live h4 = live h" using b by (auto simp: fun_eq_iff live_def at4 el)
  moreover have "bref h4 = bref h" using b f4 by (auto simp: fun_eq_iff bref_def at4)
  moreover have "messages h3 = messages h" "messages h4 = messages h"
    by (simp_all add: h4_def h3_def h2_def h1_def put_bundle_def)
  moreover have "length (bundles h3) = length (bundles h)" "length (bundles h4) = length (bundles h)"
    by (simp_all add: h4_def h3_def h2_def h1_def)
  ultimately show ?thesis using eq by blast
qed

text \<open>Adding a bundle keeps the invariant, and says no exactly when it would close a cycle.\<close>

lemma add_bundle_checked:
  assumes "heap_ok h" "alloc_total al" "live h a = Some es" "live h n \<noteq> None"
  shows "\<exists>h'. lo_bundle_add_element al h a (El_bundle n) =
       Some (if (n, a) \<in> (child h)\<^sup>* then - 1 else 0, h') \<and> heap_ok h' \<and>
     live h' = (if (n, a) \<in> (child h)\<^sup>* then live h else (live h)(a \<mapsto> es @ [El_bundle n])) \<and>
     messages h' = messages h"
proof -
  have ok: "stored h" "\<forall>a es e. live h a = Some es \<longrightarrow> e \<in> set es \<longrightarrow> target_ok h e" "acyclic (child h)"
     "\<forall>a. live h a \<noteq> None \<longrightarrow> int (occurrences (\<lambda>e. e = El_bundle a) h) \<le> bref h a"
     "\<forall>m. message_at h m \<noteq> None \<longrightarrow> int (occurrences (\<lambda>e. \<exists>p. e = El_message m p) h) \<le> mref h m"
    using assms(1) unfolding heap_ok_live by blast+
  obtain h3 h4 where eq: "lo_bundle_add_element al h a (El_bundle n) =
       do { circ \<leftarrow> lo_bundle_circular h3 a; Some (if circ then (- 1, h4) else (0, h3)) }"
    and h3: "stored h3" "live h3 = (live h)(a \<mapsto> es @ [El_bundle n])" "bref h3 = (bref h)(n := bref h n + 1)"
      "messages h3 = messages h" "length (bundles h3) = length (bundles h)"
    and h4: "stored h4" "live h4 = live h" "bref h4 = bref h" "messages h4 = messages h"
      "length (bundles h4) = length (bundles h)"
    using add_bundle_steps [OF ok(1) assms(2-4)] by blast
  have ch: "child h3 = insert (a, n) (child h)"
    using child_append [OF assms(3) h3(2)] by auto
  have tgt: "target_ok h3 e" if "live h3 x = Some es'" "e \<in> set es'" for x es' e
  proof -
    have "target_ok h e \<or> e = El_bundle n"
      using that ok(2) assms(3) by (auto simp: h3(2) split: if_splits)
    then show ?thesis using assms(4) h3(2,4) by (auto simp: target_ok_def split: lo_element.splits)
  qed
  have cl: "closed h3" using h3(1) tgt unfolding closed_live by blast
  have "bundle_at h3 a \<noteq> None" using h3(1,2) live_None [of h3 a] by simp
  then obtain circ where circ: "lo_bundle_circular h3 a = Some circ"
    using walk_total(1) [OF cl] unfolding lo_bundle_circular_def by blast
  have iff: "circ \<longleftrightarrow> (n, a) \<in> (child h)\<^sup>*"
  proof
    assume circ
    then have "\<not> acyclic (child h3)" using circular_iff [OF circ] by (auto simp: acyclic_def)
    then show "(n, a) \<in> (child h)\<^sup>*" using ok(3) by (simp add: ch acyclic_insert)
  next
    assume "(n, a) \<in> (child h)\<^sup>*"
    then have "(n, a) \<in> (child h3)\<^sup>*" unfolding ch by (meson rtrancl_mono subsetD subset_insertI)
    moreover have "(a, n) \<in> child h3" by (simp add: ch)
    ultimately have "(a, a) \<in> (child h3)\<^sup>+" by (metis rtrancl_into_trancl2)
    then show circ using circular_iff [OF circ] by blast
  qed
  have o3: "occurrences P h3 = occurrences P h + (if P (El_bundle n) then 1 else 0)" for P
    using occurrences_append [OF assms(3) h3(2,5)] .
  have o4: "occurrences P h4 = occurrences P h" for P
    using occurrences_same [OF h4(2,5)] .
  have c4: "child h4 = child h" by (simp add: child_def h4(2))
  have "heap_ok h4"
    unfolding heap_ok_live target_ok_def mref_def o4 c4 h4 using h4(1) ok unfolding target_ok_def mref_def by blast
  moreover have "heap_ok h3" if "\<not> circ"
  proof -
    have "acyclic (child h3)" using that iff ok(3) by (simp add: ch acyclic_insert)
    moreover have "int (occurrences (\<lambda>e. e = El_bundle x) h3) \<le> bref h3 x" if x: "live h3 x \<noteq> None" for x
    proof -
      have "live h x \<noteq> None" using x assms(3) by (auto simp: h3(2) split: if_splits)
      then show ?thesis using ok(4) by (auto simp: o3 h3(3))
    qed
    moreover have "int (occurrences (\<lambda>e. \<exists>p. e = El_message m p) h3) \<le> mref h3 m"
      if "message_at h3 m \<noteq> None" for m
      using that ok(5) by (simp add: o3 h3(4) mref_def)
    ultimately show ?thesis using h3(1) tgt unfolding heap_ok_live by blast
  qed
  ultimately show ?thesis using eq circ iff h3(2,4) h4(2,4) by auto
qed

lemma add_message_ok:
  assumes "heap_ok h" "alloc_total al" "live h a = Some es" "message_at h m \<noteq> None"
  shows "\<exists>h'. lo_bundle_add_element al h a (El_message m p) = Some (0, h') \<and> heap_ok h' \<and>
     live h' = (live h)(a \<mapsto> es @ [El_message m p]) \<and>
     messages h' = (messages h)[m := map_option lo_message_incref (message_at h m)]"
proof -
  have ok: "stored h" "\<forall>a es e. live h a = Some es \<longrightarrow> e \<in> set es \<longrightarrow> target_ok h e" "acyclic (child h)"
     "\<forall>a. live h a \<noteq> None \<longrightarrow> int (occurrences (\<lambda>e. e = El_bundle a) h) \<le> bref h a"
     "\<forall>m. message_at h m \<noteq> None \<longrightarrow> int (occurrences (\<lambda>e. \<exists>p. e = El_message m p) h) \<le> mref h m"
    using assms(1) unfolding heap_ok_live by blast+
  obtain b where b: "bundle_at h a = Some b" "elements b = Some es"
    using assms(3) by (auto simp: live_def split: option.splits)
  obtain st where st: "b_elmnts b = Ref st" "b_len b \<le> length st" "es = take (b_len b) st"
    using ok(1) b unfolding stored_def by (fastforce simp: elements_def)
  obtain msg where msg: "message_at h m = Some msg" using assms(4) by blast
  have bd: "a < length (bundles h)" "m < length (messages h)"
    using b msg by (simp_all add: deref_Some_bound)
  have al: "al s k \<noteq> None" for s k using assms(2) by (simp add: alloc_total_def)
  define b1 where "b1 = (if b_len b \<ge> b_size b then b\<lparr>b_size := b_size b * 2\<rparr> else b)"
  define h1 where "h1 = put_message (put_bundle h a (Some b1)) m (Some (lo_message_incref msg))"
  define b2 where "b2 = b1\<lparr>b_elmnts := Ref (es @ [El_message m p]), b_len := b_len b + 1\<rparr>"
  define h2 where "h2 = put_bundle h1 a (Some b2)"
  have b1f: "b_len b1 = b_len b" "b_elmnts b1 = Ref st" "b_refcount b1 = b_refcount b"
    by (simp_all add: b1_def st)
  have ap: "append_element h1 a (El_message m p) = Some h2"
    using bd b1f by (simp add: append_element_def h1_def h2_def b2_def st(3))
  have eq: "lo_bundle_add_element al h a (El_message m p) = Some (0, h2)"
    using b(1) msg ap al [of At_data "b_size b1"]
    by (auto simp: lo_bundle_add_element_def Let_def b1_def [symmetric] h1_def [symmetric])
  have at2: "bundle_at h2 x = (if x = a then Some b2 else bundle_at h x)" for x
    using bd by (simp add: h2_def h1_def)
  have mt2: "message_at h2 x = (if x = m then Some (lo_message_incref msg) else message_at h x)" for x
    using bd by (simp add: h2_def h1_def)
  have f2: "b_elmnts b2 = Ref (es @ [El_message m p])" "b_len b2 = b_len b + 1" "length es = b_len b"
    "b_refcount b2 = b_refcount b"
    using st b1f by (simp_all add: b2_def)
  have st2: "stored h2" using ok(1) f2 unfolding stored_def at2 by (auto split: if_splits)
  have lv: "live h2 = (live h)(a \<mapsto> es @ [El_message m p])"
    using f2 by (auto simp: fun_eq_iff live_def at2 elements_def [of b2])
  have br: "bref h2 = bref h" using b f2 by (auto simp: fun_eq_iff bref_def at2)
  have mr: "mref h2 = (mref h)(m := mref h m + 1)"
    using msg by (auto simp: fun_eq_iff mref_def mt2 lo_message_incref_def)
  have len: "length (bundles h2) = length (bundles h)" by (simp add: h2_def h1_def)
  have occ: "occurrences P h2 = occurrences P h + (if P (El_message m p) then 1 else 0)" for P
    using occurrences_append [OF assms(3) lv len] .
  have "child h2 = child h" using child_append [OF assms(3) lv] by auto
  moreover have "target_ok h2 e" if "live h2 x = Some es'" "e \<in> set es'" for x es' e
  proof -
    have "target_ok h e \<or> e = El_message m p"
      using that ok(2) assms(3) by (auto simp: lv split: if_splits)
    then show ?thesis by (auto simp: target_ok_def lv mt2 split: lo_element.splits)
  qed
  moreover have "int (occurrences (\<lambda>e. e = El_bundle x) h2) \<le> bref h2 x" if x: "live h2 x \<noteq> None" for x
  proof -
    have "live h x \<noteq> None" using x assms(3) by (auto simp: lv split: if_splits)
    then show ?thesis using ok(4) by (simp add: occ br)
  qed
  moreover have "int (occurrences (\<lambda>e. \<exists>p. e = El_message x p) h2) \<le> mref h2 x"
    if "message_at h2 x \<noteq> None" for x
  proof -
    have "message_at h x \<noteq> None" using that msg by (auto simp: mt2 split: if_splits)
    then show ?thesis using ok(5) by (auto simp: occ mr)
  qed
  ultimately have "heap_ok h2" using st2 ok(3) unfolding heap_ok_live by simp
  moreover have "messages h2 = (messages h)[m := map_option lo_message_incref (message_at h m)]"
    by (simp add: h2_def h1_def put_bundle_def put_message_def msg)
  ultimately show ?thesis using eq lv by blast
qed

section \<open>The wire form of a bundle\<close>

datatype packet = PMessage "byte list" "osc_arg list" | PBundle lo_timetag "packet list"

fun wire_packet :: "packet \<Rightarrow> byte list" where
  "wire_packet (PMessage path xs) = wire_message path xs"
| "wire_packet (PBundle tt ps) =
     ''#bundle'' @ NUL # be32 (tt_sec tt) @ be32 (tt_frac tt) @
     concat (map (\<lambda>p. be32 (word_of_nat (length (wire_packet p))) @ wire_packet p) ps)"

fun depth :: "packet \<Rightarrow> nat" where
  "depth (PMessage _ _) = 0"
| "depth (PBundle _ ps) = Suc (Max (insert 0 (set (map depth ps))))"

text \<open>The element of a bundle that stands for a packet.\<close>

fun represents :: "bool \<Rightarrow> heap \<Rightarrow> lo_element \<Rightarrow> packet \<Rightarrow> bool" where
  "represents be h e (PMessage path xs) =
     (\<exists>m msg. e = El_message m path \<and> message_at h m = Some msg \<and> msg_repr be msg xs)"
| "represents be h e (PBundle tt ps) =
     (\<exists>a b es. e = El_bundle a \<and> bundle_at h a = Some b \<and> b_ts b = tt \<and> elements b = Some es \<and>
        length es = b_len b \<and> list_all2 (represents be h) es ps)"

text \<open>
  The interface between a loop over elements and what it calls for each of them: \<open>len\<close> announces
  the size of the image of the packet an element stands for, and \<open>ser\<close> writes that image.
\<close>

definition framed :: "byte list list \<Rightarrow> byte list" where
  "framed ws = concat (map (\<lambda>w. be32 (word_of_nat (length w)) @ w) ws)"

lemma framed_simps [simp]:
  "framed [] = []" "framed (w # ws) = be32 (word_of_nat (length w)) @ w @ framed ws"
  by (simp_all add: framed_def)

locale element_writer =
  fixes len :: "lo_element \<Rightarrow> nat option"
    and ser :: "lo_element \<Rightarrow> byte list \<Rightarrow> (byte list \<times> nat) option"
    and img :: "'p \<Rightarrow> byte list"
    and rel :: "lo_element \<Rightarrow> 'p \<Rightarrow> bool"
  assumes len_img: "rel e p \<Longrightarrow> len e = Some (length (img p))"
    and ser_img: "rel e p \<Longrightarrow> length (img p) \<le> length mem \<Longrightarrow>
      ser e mem = Some (img p @ drop (length (img p)) mem, length (img p))"
begin

lemma sum_lengths_img:
  "list_all2 rel es ps \<Longrightarrow> sum_lengths len es sz = Some (sz + (\<Sum>p\<leftarrow>ps. length (img p)))"
  by (induction arbitrary: sz rule: list_all2_induct) (simp_all add: len_img)

lemma length_framed: "length (framed (map img ps)) = 4 * length ps + (\<Sum>p\<leftarrow>ps. length (img p))"
  by (induction ps) simp_all

lemma ser_elements_img:
  "list_all2 rel es ps \<Longrightarrow> length (framed (map img ps)) \<le> length mem \<Longrightarrow>
   ser_elements be ser es mem (int (length (framed (map img ps)))) =
     Some (framed (map img ps) @ drop (length (framed (map img ps))) mem, True)"
proof (induction arbitrary: mem rule: list_all2_induct)
  case (Cons e es p ps)
  let ?w = "img p" and ?f = "framed (map img ps)"
  have s: "ser e (drop 4 mem) = Some (?w @ drop (length ?w) (drop 4 mem), length ?w)"
    using Cons.hyps(1) Cons.prems by (intro ser_img) simp_all
  have "ser_elements be ser es (drop (4 + length ?w) mem) (int (length ?f)) =
      Some (?f @ drop (length ?f) (drop (4 + length ?w) mem), True)"
    using Cons.prems by (intro Cons.IH) simp
  then show ?case using Cons.prems by (simp add: s add.commute add.left_commute)
qed simp

end

section \<open>Serialisation writes the wire form\<close>

lemma wire_bundle:
  "wire_packet (PBundle tt ps) =
     ''#bundle'' @ NUL # be32 (tt_sec tt) @ be32 (tt_frac tt) @ framed (map wire_packet ps)"
  by (simp add: framed_def comp_def)

declare wire_packet.simps(2) [simp del]

abbreviation element_length :: "nat \<Rightarrow> heap \<Rightarrow> lo_element \<Rightarrow> nat option" where
  "element_length fuel h e \<equiv> (case e of
      El_bundle n \<Rightarrow> lo_bundle_length fuel h (Ref n)
    | El_message m path \<Rightarrow> message_length_at h m path)"

abbreviation element_serialise ::
  "nat \<Rightarrow> alloc \<Rightarrow> bool \<Rightarrow> heap \<Rightarrow> lo_element \<Rightarrow> byte list \<Rightarrow> (byte list \<times> nat) option" where
  "element_serialise fuel al be h e mem \<equiv> (case e of
      El_message m path \<Rightarrow> message_serialise_at al be h m path mem
    | El_bundle n \<Rightarrow> map_option (\<lambda>(body, _, skip). (body, skip))
                      (lo_bundle_serialise fuel al be h (Ref n) (Ref mem)))"

lemma depth_children: "depth (PBundle tt ps) \<le> Suc n \<longleftrightarrow> (\<forall>p \<in> set ps. depth p \<le> n)"
  by auto

lemma bundle_serialise_step:
  assumes "element_writer (element_length n h) (element_serialise n al be h) wire_packet
      (\<lambda>e p. represents be h e p \<and> depth p \<le> n)"
    and "represents be h (El_bundle a) (PBundle tt ps)" "depth (PBundle tt ps) \<le> Suc n"
    and "length (wire_packet (PBundle tt ps)) \<le> length mem"
  shows "lo_bundle_length (Suc n) h (Ref a) = Some (length (wire_packet (PBundle tt ps)))"
    and "lo_bundle_serialise (Suc n) al be h (Ref a) (Ref mem) =
      Some (wire_packet (PBundle tt ps) @ drop (length (wire_packet (PBundle tt ps))) mem, True,
            length (wire_packet (PBundle tt ps)))"
proof -
  let ?f = "framed (map wire_packet ps)"
  obtain b es where b: "bundle_at h a = Some b" "b_ts b = tt" "elements b = Some es" "length es = b_len b"
    "list_all2 (represents be h) es ps"
    using assms(2) by auto
  have rel: "list_all2 (\<lambda>e p. represents be h e p \<and> depth p \<le> n) es ps"
    using b(5) assms(3) unfolding depth_children by (auto simp: list_all2_conv_all_nth)
  have len: "length ps = b_len b" using b(4,5) by (simp add: list_all2_lengthD)
  have sz: "length (wire_packet (PBundle tt ps)) = 16 + length ?f"
    by (simp only: wire_bundle length_append list.size length_be32)
  show l: "lo_bundle_length (Suc n) h (Ref a) = Some (length (wire_packet (PBundle tt ps)))"
    unfolding sz element_writer.length_framed [OF assms(1)]
    using b element_writer.sum_lengths_img [OF assms(1) rel] by (simp add: len)
  have loop: "ser_elements be (element_serialise n al be h) es (drop 16 mem) (int (length ?f)) =
      Some (?f @ drop (length ?f) (drop 16 mem), True)"
    using element_writer.ser_elements_img [OF assms(1) rel] assms(4) by (simp add: sz)
  show "lo_bundle_serialise (Suc n) al be h (Ref a) (Ref mem) =
      Some (wire_packet (PBundle tt ps) @ drop (length (wire_packet (PBundle tt ps))) mem, True,
            length (wire_packet (PBundle tt ps)))"
    using assms(4) b loop unfolding lo_bundle_serialise.simps ptr.case l sz wire_bundle
    by (simp add: add.commute)
qed

lemma message_writer:
  assumes "represents be h e (PMessage path xs)"
  shows "element_length n h e = Some (length (wire_packet (PMessage path xs)))"
    and "length (wire_packet (PMessage path xs)) \<le> length mem \<Longrightarrow> element_serialise n al be h e mem =
      Some (wire_packet (PMessage path xs) @ drop (length (wire_packet (PMessage path xs))) mem,
            length (wire_packet (PMessage path xs)))"
  using assms
  by (auto simp: message_length_at_def msg_repr_length message_serialise_at_def lo_message_serialise_into)

lemma packet_writer:
  "element_writer (element_length n h) (element_serialise n al be h) wire_packet
     (\<lambda>e p. represents be h e p \<and> depth p \<le> n)"
proof (induction n)
  case 0
  show ?case
  proof
    fix e p and mem :: "byte list" assume r: "represents be h e p \<and> depth p \<le> 0"
    then obtain path xs where p: "p = PMessage path xs" by (cases p) simp_all
    from r show "element_length 0 h e = Some (length (wire_packet p))"
      unfolding p by (intro message_writer) simp
    assume "length (wire_packet p) \<le> length mem"
    with r show "element_serialise 0 al be h e mem =
        Some (wire_packet p @ drop (length (wire_packet p)) mem, length (wire_packet p))"
      unfolding p by (intro message_writer) simp_all
  qed
next
  case (Suc n)
  show ?case
  proof
    fix e p and mem :: "byte list" assume r: "represents be h e p \<and> depth p \<le> Suc n"
    show "element_length (Suc n) h e = Some (length (wire_packet p))"
    proof (cases p)
      case (PMessage path xs)
      with r show ?thesis by (metis message_writer(1))
    next
      case (PBundle tt ps)
      then obtain a where a: "e = El_bundle a" using r by auto
      show ?thesis
        using bundle_serialise_step(1) [OF Suc.IH, where a = a and tt = tt and ps = ps and mem = "wire_packet p"] r
        unfolding a PBundle by simp
    qed
    assume l: "length (wire_packet p) \<le> length mem"
    show "element_serialise (Suc n) al be h e mem =
        Some (wire_packet p @ drop (length (wire_packet p)) mem, length (wire_packet p))"
    proof (cases p)
      case (PMessage path xs)
      with r l show ?thesis by (metis message_writer(2))
    next
      case (PBundle tt ps)
      then obtain a where a: "e = El_bundle a" using r by auto
      show ?thesis
        using bundle_serialise_step(2) [OF Suc.IH, where a = a and tt = tt and ps = ps and mem = mem] r l
        unfolding a PBundle by simp
    qed
  qed
qed

interpretation pw: element_writer "element_length n h" "element_serialise n al be h" wire_packet
  "\<lambda>e p. represents be h e p \<and> depth p \<le> n" for n al be h
  by (rule packet_writer)

section \<open>Validation accepts the wire form\<close>

definition bundle_tag :: "byte list" where
  "bundle_tag = ''#bundle''"

lemma padstr_bundle_tag: "padstr bundle_tag = ''#bundle'' @ [NUL]" "lo_strsize bundle_tag = 8" "NUL \<notin> set bundle_tag"
  by (simp_all add: padstr_def lo_strsize_def bundle_tag_def)

lemma wire_bundle_padstr:
  "wire_packet (PBundle tt ps) = padstr bundle_tag @ be32 (tt_sec tt) @ be32 (tt_frac tt) @ framed (map wire_packet ps)"
  unfolding wire_bundle padstr_bundle_tag by simp

lemma uint_small: "n < 2 ^ 32 \<Longrightarrow> uint (word_of_nat n :: u32) = int n"
  using unat_small [of n] by (simp only: uint_nat) simp

lemma check_elems_framed:
  "(\<And>w. w \<in> set ws \<Longrightarrow> length w < 2 ^ 32) \<Longrightarrow>
   check_elems be (framed ws @ rest) (int (length (framed ws))) = Some (Inr 0)"
proof (induction ws)
  case Nil
  then show ?case by (simp add: check_elems.simps)
next
  case (Cons w ws)
  have IH: "check_elems be (framed ws @ rest) (int (length (framed ws))) = Some (Inr 0)"
    using Cons.prems by (intro Cons.IH) simp
  have u: "uint (word_of_nat (length w) :: u32) = int (length w)"
    using Cons.prems by (intro uint_small) simp
  have rd: "rd_host32 be (framed (w # ws) @ rest) = Some (lo_htoo32 be (word_of_nat (length w)))"
    by simp
  have dr: "drop (4 + nat (int (length w))) (framed (w # ws) @ rest) = framed ws @ rest" by simp
  have len: "int (length (framed (w # ws))) - 4 - int (length w) = int (length (framed ws))"
    "\<not> int (length (framed (w # ws))) < 4" "\<not> int (length w) > int (length (framed (w # ws))) - 4"
    by simp_all
  show ?case
    unfolding check_elems.simps [of be "framed (w # ws) @ rest"] rd option.case otoh32_htoo32 u Let_def dr len
    using len IH by simp
qed

lemma validate_wire_bundle:
  assumes "\<And>p. p \<in> set ps \<Longrightarrow> length (wire_packet p) < 2 ^ 32"
  shows "lo_validate_bundle be (wire_packet (PBundle tt ps) @ rest) (int (length (wire_packet (PBundle tt ps)))) =
    Some (int (length (wire_packet (PBundle tt ps))))"
proof -
  let ?f = "framed (map wire_packet ps)"
  have sz: "length (wire_packet (PBundle tt ps)) = 16 + length ?f"
    by (simp add: wire_bundle_padstr padstr_bundle_tag)
  have v: "lo_validate_string (padstr bundle_tag @ r) (int (16 + length ?f)) = Some 8" for r
    using lo_validate_string_padstr [of bundle_tag "int (16 + length ?f)" r] by (simp add: padstr_bundle_tag)
  have eq: "str_eq (padstr bundle_tag @ r) ''#bundle'' = Some True" for r
    using str_eq_padstr [of bundle_tag bundle_tag r] by (simp add: padstr_bundle_tag(3)) (simp add: bundle_tag_def)
  have chk: "check_elems be (?f @ rest) (int (length ?f)) = Some (Inr 0)"
    using assms by (intro check_elems_framed) auto
  let ?R = "be32 (tt_sec tt) @ be32 (tt_frac tt) @ ?f @ rest"
  have D: "wire_packet (PBundle tt ps) @ rest = padstr bundle_tag @ ?R"
    by (simp add: wire_bundle_padstr)
  have "length (padstr bundle_tag @ be32 (tt_sec tt) @ be32 (tt_frac tt)) = 16"
    by (simp add: padstr_bundle_tag(2))
  then have dr: "drop 16 (padstr bundle_tag @ ?R) = ?f @ rest"
    using append_eq_conv_conj [of "padstr bundle_tag @ be32 (tt_sec tt) @ be32 (tt_frac tt)" "?f @ rest"] by simp
  have rem: "int (16 + length ?f) - 8 - 8 = int (length ?f)" "\<not> int (16 + length ?f) - 8 < 8" by simp_all
  show ?thesis
    unfolding lo_validate_bundle_def sz D v eq bind.bind_lunit using chk by (simp add: dr del: drop_append)
qed

section \<open>The recursion over an acyclic store ends\<close>

text \<open>
  A walk that finds no cycle unfolds the store into a packet, whose depth is bounded by the bundles
  not yet visited.
\<close>

lemma walk_packet:
  assumes msgs: "\<And>m msg. message_at h m = Some msg \<Longrightarrow> \<exists>xs. msg_repr be msg xs"
    and cl: "closed h"
  shows "walk_tree g B a = Some False \<Longrightarrow> g = h \<Longrightarrow>
      \<exists>p. represents be h (El_bundle a) p \<and> depth p \<le> unvisited h B"
    and "walk_elements g B es = Some False \<Longrightarrow> g = h \<Longrightarrow>
      (\<forall>m p. El_message m p \<in> set es \<longrightarrow> message_at h m \<noteq> None) \<Longrightarrow>
      \<exists>ps. list_all2 (represents be h) es ps \<and> (\<forall>p\<in>set ps. depth p \<le> unvisited h B)"
proof (induction g B a and g B es rule: walk_tree_walk_elements.induct)
  case (1 g B a)
  have w: "walk_tree h B a = Some False" and g: "g = h" using 1(2,3) by simp_all
  from w obtain b es where b: "\<not> is_in_list B a" "bundle_at h a = Some b" "elements b = Some es"
    and w: "walk_elements h (push_to_list B a) es = Some False"
    unfolding walk_tree.simps [of h B a] by (simp split: if_splits option.splits)
  have "\<forall>m p. El_message m p \<in> set es \<longrightarrow> message_at h m \<noteq> None"
    using closed_elements [OF cl b(2,3)] by fastforce
  then obtain ps where ps: "list_all2 (represents be h) es ps"
    "\<forall>p\<in>set ps. depth p \<le> unvisited h (push_to_list B a)"
    using "1.IH" [unfolded g, OF b(1) b(2,3) w refl] by blast
  have len: "length es = b_len b" using bundle_wf_elements [of h b] cl b(2,3) unfolding closed_def by auto
  have "depth (PBundle (b_ts b) ps) \<le> Suc (unvisited h (push_to_list B a))" using ps(2) by simp
  also have "\<dots> \<le> unvisited h B" using unvisited_push [OF b(2,1)] by simp
  finally show ?case
    using b ps(1) len by (intro exI [of _ "PBundle (b_ts b) ps"]) (simp del: depth.simps)
next
  case (3 g B m p es)
  obtain ps where "list_all2 (represents be h) es ps" "\<forall>p\<in>set ps. depth p \<le> unvisited h B"
    using "3.IH" 3(2-4) by auto
  moreover obtain msg where "message_at h m = Some msg" using 3(4) by auto
  moreover then obtain xs where "msg_repr be msg xs" using msgs by blast
  ultimately show ?case by (intro exI [of _ "PMessage p xs # ps"]) simp
next
  case (4 g B c es)
  have g: "g = h" by (rule 4)
  have w: "walk_tree g B c = Some False" "walk_elements g B es = Some False"
    using 4(3) by (simp_all split: option.splits bool.splits)
  obtain p where "represents be h (El_bundle c) p \<and> depth p \<le> unvisited h B"
    using "4.IH"(1) [OF w(1) g] by blast
  moreover obtain ps where "list_all2 (represents be h) es ps" "\<forall>p\<in>set ps. depth p \<le> unvisited h B"
    using "4.IH"(2) [of False] w g 4(5) by auto
  ultimately show ?case by (intro exI [of _ "p # ps"]) simp
qed simp

lemma acyclic_packet:
  assumes "heap_ok h" "live h a \<noteq> None" "\<And>m msg. message_at h m = Some msg \<Longrightarrow> \<exists>xs. msg_repr be msg xs"
  shows "\<exists>tt ps. represents be h (El_bundle a) (PBundle tt ps) \<and> depth (PBundle tt ps) \<le> length (bundles h)"
proof -
  have cl: "closed h" "acyclic (child h)" using assms(1) by (simp_all add: heap_ok_def)
  have "bundle_at h a \<noteq> None" using assms(2) by (auto simp: live_def split: option.splits)
  then obtain r where r: "walk_tree h [] a = Some r" using walk_total(1) [OF cl(1)] by blast
  have "\<not> r" using circular_iff [of h a r] r cl(2) by (auto simp: lo_bundle_circular_def acyclic_def)
  then have w: "walk_tree h [] a = Some False" using r by simp
  have "\<exists>p. represents be h (El_bundle a) p \<and> depth p \<le> unvisited h []"
    by (rule walk_packet(1) [OF _ cl(1) w refl]) (rule assms(3))
  then obtain p where p: "represents be h (El_bundle a) p" "depth p \<le> unvisited h []" by blast
  moreover from p(1) obtain tt ps where "p = PBundle tt ps" by (cases p) auto
  moreover have "unvisited h [] \<le> length (bundles h)" by (simp add: unvisited_def)
  ultimately show ?thesis by (metis order_trans)
qed

lemma bundle_serialise_packet:
  assumes "represents be h (El_bundle a) (PBundle tt ps)" "depth (PBundle tt ps) \<le> fuel" "alloc_total al"
  shows "lo_bundle_length fuel h (Ref a) = Some (length (wire_packet (PBundle tt ps)))"
    and "lo_bundle_serialise fuel al be h (Ref a) NULL =
      Some (wire_packet (PBundle tt ps), True, length (wire_packet (PBundle tt ps)))"
    and "length (wire_packet (PBundle tt ps)) \<le> length mem \<Longrightarrow>
      lo_bundle_serialise fuel al be h (Ref a) (Ref mem) =
      Some (wire_packet (PBundle tt ps) @ drop (length (wire_packet (PBundle tt ps))) mem, True,
        length (wire_packet (PBundle tt ps)))"
proof -
  obtain n where n: "fuel = Suc n" using assms(2) by (cases fuel) auto
  let ?w = "wire_packet (PBundle tt ps)"
  note step = bundle_serialise_step [where al = al, OF packet_writer assms(1) assms(2) [unfolded n]]
  show len: "lo_bundle_length fuel h (Ref a) = Some (length ?w)"
    unfolding n by (rule step(1) [of ?w]) simp
  show into: "lo_bundle_serialise fuel al be h (Ref a) (Ref mem) = Some (?w @ drop (length ?w) mem, True, length ?w)"
    if "length ?w \<le> length mem" for mem
    unfolding n by (rule step(2)) (rule that)
  have "calloc al At_data (length ?w) = Some (replicate (length ?w) NUL)"
    using assms(3) by (auto simp: calloc_def alloc_total_def)
  then have "lo_bundle_serialise fuel al be h (Ref a) NULL =
      lo_bundle_serialise fuel al be h (Ref a) (Ref (replicate (length ?w) NUL))"
    using len unfolding n by (simp del: lo_bundle_length.simps wire_packet.simps)
  then show "lo_bundle_serialise fuel al be h (Ref a) NULL = Some (?w, True, length ?w)"
    using into [of "replicate (length ?w) NUL"] by (simp del: wire_packet.simps)
qed

section \<open>Stores built by the interface\<close>

text \<open>Every store a client can build: new messages and bundles, and any attempt to add an element.\<close>

inductive built :: "bool \<Rightarrow> heap \<Rightarrow> bool" for be :: bool where
  empty: "built be \<lparr>bundles = [], messages = []\<rparr>"
| new_message: "built be h \<Longrightarrow> msg_repr be m xs \<Longrightarrow> m_refcount m = 0 \<Longrightarrow> built be (h\<lparr>messages := messages h @ [Some m]\<rparr>)"
| new_bundle: "built be h \<Longrightarrow> alloc_total al \<Longrightarrow> lo_bundle_new al h tt = Some (a, h') \<Longrightarrow> built be h'"
| add_message: "built be h \<Longrightarrow> alloc_total al \<Longrightarrow> bundle_at h a \<noteq> None \<Longrightarrow>
    lo_bundle_add_message al h a path m = Some (r, h') \<Longrightarrow> built be h'"
| add_bundle: "built be h \<Longrightarrow> alloc_total al \<Longrightarrow> bundle_at h a \<noteq> None \<Longrightarrow>
    lo_bundle_add_bundle al h a n = Some (r, h') \<Longrightarrow> built be h'"

lemma heap_ok_same_bundles:
  assumes "heap_ok h" "bundles h' = bundles h" "\<And>m. message_at h m \<noteq> None \<Longrightarrow> message_at h' m = message_at h m"
    and "\<And>m. message_at h m = None \<Longrightarrow> mref h' m \<ge> 0"
  shows "heap_ok h'"
proof -
  have l: "live h' = live h" "child h' = child h" "bref h' = bref h" "stored h' = stored h" "occurrences P h' = occurrences P h" for P
    using assms(2) by (simp_all add: live_def child_def bref_def stored_def occurrences_def fun_eq_iff)
  have ok: "stored h" "\<forall>a es e. live h a = Some es \<longrightarrow> e \<in> set es \<longrightarrow> target_ok h e" "acyclic (child h)"
     "\<forall>a. live h a \<noteq> None \<longrightarrow> int (occurrences (\<lambda>e. e = El_bundle a) h) \<le> bref h a"
     "\<forall>m. message_at h m \<noteq> None \<longrightarrow> int (occurrences (\<lambda>e. \<exists>p. e = El_message m p) h) \<le> mref h m"
    using assms(1) unfolding heap_ok_live by blast+
  have tgt: "target_ok h e \<Longrightarrow> target_ok h' e" for e
    using assms(3) by (auto simp: target_ok_def l split: lo_element.splits)
  have "occurrences (\<lambda>e. \<exists>p. e = El_message m p) h = 0" if "message_at h m = None" for m
  proof -
    have "filter (\<lambda>e. \<exists>p. e = El_message m p) es = []" if "live h a = Some es" for a es
      using ok(2) that \<open>message_at h m = None\<close> by (fastforce simp: filter_empty_conv target_ok_def)
    then show ?thesis by (auto simp: occurrences_def split: option.splits)
  qed
  then have "int (occurrences (\<lambda>e. \<exists>p. e = El_message m p) h) \<le> mref h' m" for m
    using ok(5) assms(3,4) [of m] by (cases "message_at h m") (auto simp: mref_def)
  then show ?thesis using ok tgt unfolding heap_ok_live l by blast
qed

lemma bundle_new_ok:
  assumes "heap_ok h" "alloc_total al" "lo_bundle_new al h tt = Some (a, h')"
  shows "heap_ok h'" "messages h' = messages h"
proof -
  have new: "bundles h' = bundles h @ [Some \<lparr>b_size = 4, b_len = 0, b_ts = tt, b_elmnts = Ref [], b_refcount = 0\<rparr>]"
    and m: "messages h' = messages h"
    using assms(3) assms(2) [unfolded alloc_total_def] spec [of "\<lambda>n. al At_data n \<noteq> None" 4]
    by (auto simp: lo_bundle_new_def simp del: not_None_eq split: if_splits)
  let ?n = "length (bundles h)"
  have at: "bundle_at h' c = (if c = ?n then Some \<lparr>b_size = 4, b_len = 0, b_ts = tt, b_elmnts = Ref [], b_refcount = 0\<rparr>
      else bundle_at h c)" for c
    by (simp add: new deref_fresh)
  have none: "bundle_at h ?n = None" "live h ?n = None" by (auto simp: live_def deref_def)
  have l: "live h' = (live h)(?n \<mapsto> [])" by (auto simp: live_def at elements_def fun_eq_iff)
  have ok: "stored h" "\<forall>a es e. live h a = Some es \<longrightarrow> e \<in> set es \<longrightarrow> target_ok h e" "acyclic (child h)"
     "\<forall>a. live h a \<noteq> None \<longrightarrow> int (occurrences (\<lambda>e. e = El_bundle a) h) \<le> bref h a"
     "\<forall>m. message_at h m \<noteq> None \<longrightarrow> int (occurrences (\<lambda>e. \<exists>p. e = El_message m p) h) \<le> mref h m"
    using assms(1) unfolding heap_ok_live by blast+
  have c: "child h' = child h" using none by (auto simp: child_def l split: if_splits)
  have o: "occurrences P h' = occurrences P h" for P
    by (simp add: occurrences_def new l)
  have tgt: "target_ok h' e" if "target_ok h e" for e
    using that by (auto simp: target_ok_def m l split: lo_element.splits)
  have "stored h'" using ok(1) by (auto simp: stored_def at)
  moreover have "target_ok h' e" if "live h' x = Some es" "e \<in> set es" for x es e
    using that ok(2) tgt by (auto simp: l split: if_splits)
  moreover have "int (occurrences (\<lambda>e. e = El_bundle x) h) \<le> bref h' x" if "live h' x \<noteq> None" for x
  proof (cases "x = ?n")
    case True
    have "filter (\<lambda>e. e = El_bundle ?n) es = []" if "live h c = Some es" for c es
      using ok(2) that none(2) by (fastforce simp: filter_empty_conv target_ok_def)
    then have "occurrences (\<lambda>e. e = El_bundle ?n) h = 0" by (auto simp: occurrences_def split: option.splits)
    then show ?thesis using True by (simp add: bref_def at)
  next
    case False
    then show ?thesis using that ok(4) by (auto simp: bref_def at l)
  qed
  moreover have "mref h' = mref h" by (simp add: mref_def m fun_eq_iff)
  ultimately show "heap_ok h'" unfolding heap_ok_live c o m using ok(3,5) by simp
  show "messages h' = messages h" by (rule m)
qed

lemma heap_ok_live_iff: "heap_ok h \<Longrightarrow> bundle_at h a \<noteq> None \<longleftrightarrow> live h a \<noteq> None"
  using live_None [of h a] unfolding heap_ok_live by metis

lemma add_element_target:
  assumes "lo_bundle_add_element al h a e = Some (r, h')" "alloc_total al"
  shows "case e of El_message m p \<Rightarrow> message_at h m \<noteq> None | El_bundle n \<Rightarrow> bundle_at h n \<noteq> None"
proof -
  obtain b where b: "bundle_at h a = Some b" using assms(1) by (auto simp: lo_bundle_add_element_def split: bind_splits)
  have al: "al k n \<noteq> None" for k n using assms(2) by (simp add: alloc_total_def)
  show ?thesis
  proof (cases e)
    case (El_message m p)
    have "message_at h m = None \<Longrightarrow> lo_bundle_add_element al h a e = None"
      by (simp add: lo_bundle_add_element_def b El_message Let_def al del: not_None_eq)
    then show ?thesis using assms(1) El_message by auto
  next
    case (El_bundle n)
    have "bundle_at h n = None \<Longrightarrow> lo_bundle_add_element al h a e = None"
      using b by (auto simp: lo_bundle_add_element_def El_bundle Let_def al lo_bundle_incref_def simp del: not_None_eq)
    then show ?thesis using assms(1) El_bundle by auto
  qed
qed

lemma incref_repr: "msg_repr be (lo_message_incref x) = msg_repr be x"
  by (simp add: fun_eq_iff) (simp add: lo_message_incref_def msg_repr_def types_ok_def data_ok_def)

definition store_ok :: "bool \<Rightarrow> heap \<Rightarrow> bool" where
  "store_ok be h \<longleftrightarrow> heap_ok h \<and> (\<forall>m msg. message_at h m = Some msg \<longrightarrow> (\<exists>xs. msg_repr be msg xs))"

lemma store_ok_add_message:
  assumes "store_ok be h" "alloc_total al" "bundle_at h a \<noteq> None"
    and "lo_bundle_add_message al h a path m = Some (r, h')"
  shows "store_ok be h'"
proof (cases m)
  case NULL
  then show ?thesis using assms by (simp add: lo_bundle_add_message_def)
next
  case (Ref k)
  have ok: "heap_ok h" using assms(1) by (simp add: store_ok_def)
  have e: "lo_bundle_add_element al h a (El_message k path) = Some (r, h')"
    using assms(4) Ref by (simp add: lo_bundle_add_message_def)
  have k: "message_at h k \<noteq> None" using add_element_target [OF e assms(2)] by simp
  obtain es where es: "live h a = Some es" using assms(3) heap_ok_live_iff [OF ok] by blast
  have "heap_ok h'" "messages h' = (messages h)[k := map_option lo_message_incref (message_at h k)]"
    using add_message_ok [OF ok assms(2) es k, of path] e by auto
  then show ?thesis using assms(1) by (auto simp: store_ok_def deref_update incref_repr split: if_splits)
qed

lemma store_ok_add_bundle:
  assumes "store_ok be h" "alloc_total al" "bundle_at h a \<noteq> None"
    and "lo_bundle_add_bundle al h a n = Some (r, h')"
  shows "store_ok be h'"
proof (cases n)
  case NULL
  then show ?thesis using assms by (simp add: lo_bundle_add_bundle_def)
next
  case (Ref k)
  have ok: "heap_ok h" using assms(1) by (simp add: store_ok_def)
  have e: "lo_bundle_add_element al h a (El_bundle k) = Some (r, h')"
    using assms(4) Ref by (simp add: lo_bundle_add_bundle_def)
  have k: "live h k \<noteq> None" using add_element_target [OF e assms(2)] heap_ok_live_iff [OF ok] by simp
  obtain es where es: "live h a = Some es" using assms(3) heap_ok_live_iff [OF ok] by blast
  have "heap_ok h'" "messages h' = messages h"
    using add_bundle_checked [OF ok assms(2) es k] e by auto
  then show ?thesis using assms(1) by (simp add: store_ok_def)
qed

lemma store_ok_new_message:
  assumes "store_ok be h" "msg_repr be m xs" "m_refcount m = 0"
  shows "store_ok be (h\<lparr>messages := messages h @ [Some m]\<rparr>)"
proof -
  let ?h = "h\<lparr>messages := messages h @ [Some m]\<rparr>"
  have fresh: "message_at h (length (messages h)) = None" by (simp add: deref_def)
  have at: "message_at ?h k = (if k = length (messages h) then Some m else message_at h k)" for k
    by (simp add: deref_fresh)
  have "heap_ok ?h"
  proof (rule heap_ok_same_bundles [of h])
    show "heap_ok h" using assms(1) by (simp add: store_ok_def)
    show "bundles ?h = bundles h" by simp
    show "message_at ?h k = message_at h k" if "message_at h k \<noteq> None" for k
      using that fresh unfolding at by metis
    show "0 \<le> mref ?h k" if "message_at h k = None" for k
      using that assms(3) unfolding mref_def at by simp
  qed
  moreover have "\<exists>xs. msg_repr be msg xs" if "message_at ?h k = Some msg" for k msg
    using that assms(1,2) unfolding at store_ok_def by (cases "k = length (messages h)") auto
  ultimately show ?thesis unfolding store_ok_def by blast
qed

lemma store_ok_empty: "store_ok be \<lparr>bundles = [], messages = []\<rparr>"
proof -
  have none: "deref [] a = None" for a :: nat by (simp add: deref_def)
  have "child \<lparr>bundles = [], messages = []\<rparr> = {}" by (auto simp: child_def live_def none)
  then show ?thesis by (simp add: store_ok_def heap_ok_def closed_def none acyclic_def)
qed

lemma built_ok: "built be h \<Longrightarrow> store_ok be h"
proof (induction rule: built.induct)
  case (new_bundle h al tt a h')
  then show ?case using bundle_new_ok [of h al tt a h'] by (simp add: store_ok_def)
next
  case (add_message h al a path m r h')
  show ?case by (rule store_ok_add_message [OF add_message.IH add_message.hyps(2-4)])
next
  case (add_bundle h al a n r h')
  show ?case by (rule store_ok_add_bundle [OF add_bundle.IH add_bundle.hyps(2-4)])
qed (auto intro: store_ok_empty store_ok_new_message)

section \<open>Concrete stores\<close>

text \<open>Two bundles: the first holds a message and is an element of the second.\<close>

definition sample_heap :: heap where
  "sample_heap = \<lparr>bundles =
      [Some \<lparr>b_size = 4, b_len = 1, b_ts = Timetag 1 0, b_elmnts = Ref [El_message 0 ''/a''], b_refcount = 1\<rparr>,
       Some \<lparr>b_size = 4, b_len = 1, b_ts = Timetag 2 0, b_elmnts = Ref [El_bundle 0], b_refcount = 0\<rparr>],
     messages = [Some (lo_message_incref sample_message)]\<rparr>"

lemma sample_bundles:
  "bundle_at sample_heap a = (if a = 0 then Some \<lparr>b_size = 4, b_len = 1, b_ts = Timetag 1 0,
       b_elmnts = Ref [El_message 0 ''/a''], b_refcount = 1\<rparr>
     else if a = 1 then Some \<lparr>b_size = 4, b_len = 1, b_ts = Timetag 2 0,
       b_elmnts = Ref [El_bundle 0], b_refcount = 0\<rparr> else None)"
  "message_at sample_heap m = (if m = 0 then Some (lo_message_incref sample_message) else None)"
  by (auto simp: sample_heap_def deref_def less_Suc_eq nth_Cons')

lemma sample_live:
  "live sample_heap a = (if a = 0 then Some [El_message 0 ''/a''] else if a = 1 then Some [El_bundle 0] else None)"
  by (simp add: live_def sample_bundles elements_def)

lemma sample_child: "child sample_heap = {(1, 0)}"
  by (auto simp: child_def sample_live split: if_splits)

lemma sample_message_repr: "msg_repr True (lo_message_incref sample_message) [OInt32 7]"
  using sample_repr by (simp add: lo_message_incref_def msg_repr_def types_ok_def data_ok_def)

lemma sample_heap_ok: "heap_ok sample_heap"
proof -
  have "closed sample_heap"
    by (auto simp: closed_def bundle_wf_def sample_bundles split: if_splits)
  moreover have "acyclic (child sample_heap)"
    by (auto simp: sample_child acyclic_def trancl_insert)
  moreover have "occurrences P sample_heap =
      (if P (El_message 0 ''/a'') then 1 else 0) + (if P (El_bundle 0) then 1 else 0)" for P
    by (simp add: occurrences_def sample_live) (simp add: sample_heap_def numeral_2_eq_2 sample_live)
  ultimately show ?thesis
    by (auto simp: heap_ok_def bref_def mref_def sample_bundles lo_message_incref_def sample_message_def)
qed

section \<open>Properties\<close>

text \<open>
  C15: Whatever sequence of creations and attempted additions a client makes, the store is closed
  (each element of a live bundle is live), no bundle contains itself, and no bundle or message is
  an element more often than its reference count says.
\<close>

theorem built_stores_sound:
  assumes "built be h"
  shows "closed h \<and> acyclic (child h) \<and>
    (\<forall>a. bundle_at h a \<noteq> None \<longrightarrow> int (occurrences (\<lambda>e. e = El_bundle a) h) \<le> bref h a) \<and>
    (\<forall>m. message_at h m \<noteq> None \<longrightarrow> int (occurrences (\<lambda>e. \<exists>p. e = El_message m p) h) \<le> mref h m)"
  using built_ok [OF assms] unfolding store_ok_def heap_ok_def by blast

text \<open>
  C17: The recursive circularity test decides a graph property: in a closed store it returns, and it
  reports a cycle exactly if some bundle reachable from the tested one lies on a cycle.
\<close>

theorem circular_decides_cycle:
  assumes "closed h" "bundle_at h a \<noteq> None"
  shows "lo_bundle_circular h a = Some (\<exists>c. (a, c) \<in> (child h)\<^sup>* \<and> (c, c) \<in> (child h)\<^sup>+)"
proof -
  obtain r where r: "lo_bundle_circular h a = Some r"
    using walk_total(1) [OF assms] unfolding lo_bundle_circular_def by blast
  then show ?thesis using circular_iff [OF r] by simp
qed

text \<open>
  \<open>lo_bundle_add_bundle\<close> fails exactly when the addition would close a cycle, and then leaves the
  elements of every bundle as they were; otherwise it appends the element and nothing else changes.
  The invariant of the store is kept either way.
\<close>

theorem add_bundle_refuses_cycles:
  assumes "heap_ok h" "alloc_total al" "live h a = Some es" "live h n \<noteq> None"
  shows "\<exists>h'. lo_bundle_add_bundle al h a (Ref n) = Some (if (n, a) \<in> (child h)\<^sup>* then - 1 else 0, h') \<and>
    heap_ok h' \<and> messages h' = messages h \<and>
    live h' = (if (n, a) \<in> (child h)\<^sup>* then live h else (live h)(a \<mapsto> es @ [El_bundle n]))"
  using add_bundle_checked [OF assms] by (auto simp: lo_bundle_add_bundle_def)

text \<open>
  \<open>lo_bundle_add_message\<close> appends the message, counts the reference and keeps the invariant.
\<close>

theorem add_message_appends:
  assumes "heap_ok h" "alloc_total al" "live h a = Some es" "message_at h m \<noteq> None"
  shows "\<exists>h'. lo_bundle_add_message al h a p (Ref m) = Some (0, h') \<and> heap_ok h' \<and>
    live h' = (live h)(a \<mapsto> es @ [El_message m p]) \<and>
    messages h' = (messages h)[m := map_option lo_message_incref (message_at h m)]"
  using add_message_ok [OF assms] by (simp add: lo_bundle_add_message_def)

text \<open>
  C16: Serialising a bundle ends and succeeds in every store a client can build. With fuel for one
  more level than there are bundles, the announced length is the length of the wire form of the
  packet the bundle represents, and exactly that form is written, into a new buffer or one of the
  caller.
\<close>

theorem serialise_bundle_ends:
  assumes "built be h" "live h a \<noteq> None" "alloc_total al"
  shows "\<exists>p. represents be h (El_bundle a) p \<and>
    lo_bundle_length (Suc (length (bundles h))) h (Ref a) = Some (length (wire_packet p)) \<and>
    lo_bundle_serialise (Suc (length (bundles h))) al be h (Ref a) NULL =
      Some (wire_packet p, True, length (wire_packet p)) \<and>
    (\<forall>mem. length (wire_packet p) \<le> length mem \<longrightarrow>
      lo_bundle_serialise (Suc (length (bundles h))) al be h (Ref a) (Ref mem) =
        Some (wire_packet p @ drop (length (wire_packet p)) mem, True, length (wire_packet p)))"
proof -
  have ok: "heap_ok h" "\<And>m msg. message_at h m = Some msg \<Longrightarrow> \<exists>xs. msg_repr be msg xs"
    using built_ok [OF assms(1)] unfolding store_ok_def by blast+
  have "\<exists>tt ps. represents be h (El_bundle a) (PBundle tt ps) \<and> depth (PBundle tt ps) \<le> length (bundles h)"
    by (rule acyclic_packet [OF ok(1) assms(2)]) (rule ok(2))
  then obtain tt ps where p: "represents be h (El_bundle a) (PBundle tt ps)"
    and d: "depth (PBundle tt ps) \<le> Suc (length (bundles h))"
    using le_SucI by blast
  show ?thesis using p bundle_serialise_packet [OF p d assms(3)] by blast
qed

text \<open>
  The wire form of a bundle passes the validation on the receiving side, which returns its
  length and reads nothing behind it, as long as the size of each element fits its 32-bit field.
\<close>

theorem wire_bundle_validates:
  assumes "\<And>p. p \<in> set ps \<Longrightarrow> length (wire_packet p) < 2 ^ 32"
  shows "lo_validate_bundle be (wire_packet (PBundle tt ps) @ rest) (int (length (wire_packet (PBundle tt ps)))) =
    Some (int (length (wire_packet (PBundle tt ps))))"
  using assms by (rule validate_wire_bundle)

section \<open>Witnesses\<close>

theorem circular_decides_cycle_witness: "lo_bundle_circular sample_heap 1 = Some False"
proof -
  have "closed sample_heap" using sample_heap_ok by (simp add: heap_ok_def)
  moreover have "acyclic (child sample_heap)" using sample_heap_ok by (simp add: heap_ok_def)
  moreover have "bundle_at sample_heap 1 \<noteq> None" by (simp add: sample_bundles)
  ultimately show ?thesis using circular_decides_cycle [of sample_heap 1] by (auto simp: acyclic_def)
qed

theorem add_bundle_refuses_cycles_witness:
  "\<exists>h'. lo_bundle_add_bundle al_zero sample_heap 0 (Ref 1) = Some (- 1, h') \<and> live h' = live sample_heap"
  using add_bundle_refuses_cycles [OF sample_heap_ok alloc_total_al_zero, of 0 "[El_message 0 ''/a'']" 1]
  by (auto simp: sample_live sample_child)

theorem add_message_appends_witness:
  "\<exists>h'. lo_bundle_add_message al_zero sample_heap 1 ''/b'' (Ref 0) = Some (0, h') \<and>
     live h' 1 = Some [El_bundle 0, El_message 0 ''/b'']"
  using add_message_appends [OF sample_heap_ok alloc_total_al_zero, of 1 "[El_bundle 0]" 0 "''/b''"]
  by (auto simp: sample_live sample_bundles)

text \<open>Messages and bundles made in turn; the last addition, of a bundle to itself, is refused.\<close>

lemma built_example:
  "\<exists>h. built True h \<and> live h 0 = Some [El_message 0 ''/a''] \<and> length (bundles h) = 1"
proof -
  let ?e = "\<lparr>bundles = [], messages = []\<rparr> :: heap"
  let ?m = "\<lparr>bundles = [], messages = [Some sample_message]\<rparr> :: heap"
  have 1: "built True ?m"
    using built.new_message [OF built.empty sample_repr] by (simp add: sample_message_def)
  obtain h where h: "lo_bundle_new al_zero ?m (Timetag 0 1) = Some (0, h)" "length (bundles h) = 1"
    "bundle_at h 0 \<noteq> None" "live h 0 = Some []" "message_at h 0 \<noteq> None"
    by (simp add: lo_bundle_new_def al_zero_def live_def deref_def elements_def)
  have 2: "built True h" using built.new_bundle [OF 1 alloc_total_al_zero h(1)] .
  then have "heap_ok h" using built_ok unfolding store_ok_def by blast
  then obtain h' where h': "lo_bundle_add_message al_zero h 0 ''/a'' (Ref 0) = Some (0, h')"
    "live h' = (live h)(0 \<mapsto> [El_message 0 ''/a''])"
    using add_message_ok [OF _ alloc_total_al_zero h(4,5), of "''/a''"] by (auto simp: lo_bundle_add_message_def)
  have "length (bundles h') = 1"
    using h'(1) h(2) by (auto simp: lo_bundle_add_message_def lo_bundle_add_element_def append_element_def Let_def
        split: bind_splits if_splits ptr.splits)
  then show ?thesis using built.add_message [OF 2 alloc_total_al_zero h(3) h'(1)] h'(2) by auto
qed

theorem built_stores_sound_witness:
  "\<exists>h. live h 0 = Some [El_message 0 ''/a''] \<and> acyclic (child h)"
  using built_example built_stores_sound by blast

theorem serialise_bundle_ends_witness:
  "\<exists>h p. live h 0 = Some [El_message 0 ''/a''] \<and>
     lo_bundle_serialise 2 al_zero True h (Ref 0) NULL = Some (wire_packet p, True, length (wire_packet p))"
proof -
  obtain h where h: "built True h" "live h 0 = Some [El_message 0 ''/a'']" "length (bundles h) = 1"
    using built_example by blast
  moreover have "live h 0 \<noteq> None" using h(2) by simp
  ultimately show ?thesis
    using serialise_bundle_ends [OF h(1) _ alloc_total_al_zero, of 0] by (auto simp: numeral_2_eq_2 simp del: lo_bundle_serialise.simps)
qed

theorem wire_bundle_validates_witness:
  "lo_validate_bundle False (wire_packet (PBundle (Timetag 0 1) [PMessage ''/a'' [OInt32 7]])) 32 = Some 32"
proof -
  have "length (wire_packet (PBundle (Timetag 0 1) [PMessage ''/a'' [OInt32 7]])) = 32"
    by (simp add: wire_bundle sample_wire_len)
  then show ?thesis
    using wire_bundle_validates [of "[PMessage ''/a'' [OInt32 7]]" False "Timetag 0 1" "[]"]
    by (simp add: sample_wire_len del: wire_packet.simps(2))
qed

end
