(* ===== verification/Stream.thy ===== *)
theory Stream
  imports Prelude
begin

text \<open>
  Stream sockets (\<open>src/server.c\<close>): the receive buffer of a connection, reassembly of messages that
  arrive behind a 32-bit length, SLIP detection and decoding, and the growth of the buffer.
  \<open>slip_encode\<close> is the counterpart in \<open>src/send.c\<close>. A result \<open>None\<close> is undefined behaviour or, for
  the growth loop, that it never returns.
\<close>

section \<open>The context of a connection\<close>

record socket_context =
  sc_buffer :: "byte list ptr"
  sc_size :: nat
  sc_msg_offset :: u32
  sc_read_offset :: nat
  sc_is_slip :: int
  sc_slip_state :: nat

definition init_context :: "socket_context \<Rightarrow> socket_context" where
  "init_context sc =
     sc\<lparr>sc_is_slip := - 1, sc_buffer := NULL, sc_size := 0, sc_msg_offset := 0, sc_read_offset := 0\<rparr>"

text \<open>Zeroed memory, as \<open>calloc\<close> and \<open>memset\<close> leave it.\<close>

definition zero_context :: socket_context where
  "zero_context =
     \<lparr>sc_buffer = NULL, sc_size = 0, sc_msg_offset = 0, sc_read_offset = 0, sc_is_slip = 0, sc_slip_state = 0\<rparr>"

definition cleanup_context :: "socket_context \<Rightarrow> socket_context" where
  "cleanup_context sc = zero_context"

section \<open>Messages in the buffer\<close>

text \<open>Zero when there is no whole message.\<close>

definition lo_server_buffer_contains_msg :: "socket_context \<Rightarrow> nat option" where
  "lo_server_buffer_contains_msg sc =
     (if sc_read_offset sc > 4 then
        (case sc_buffer sc of
           NULL \<Rightarrow> None
         | Ref buf \<Rightarrow> do {
             w \<leftarrow> rd_be32 buf;
             let msg_len = unat w;
             Some (if msg_len + 4 \<le> sc_read_offset sc then msg_len else 0)
           })
      else Some 0)"

text \<open>The message, copied out, and what is left moved to the front.\<close>

definition lo_server_buffer_copy_for_dispatch ::
  "alloc \<Rightarrow> socket_context \<Rightarrow> (byte list ptr \<times> socket_context) option" where
  "lo_server_buffer_copy_for_dispatch al sc = do {
     msg_len \<leftarrow> lo_server_buffer_contains_msg sc;
     (if msg_len = 0 then Some (NULL, sc)
      else (case sc_buffer sc of
        NULL \<Rightarrow> None
      | Ref buf \<Rightarrow>
          if al At_data msg_len = None \<or> length buf < sc_read_offset sc then None
          else
            let data = take msg_len (drop 4 buf);
                left_over = sc_read_offset sc - (msg_len + 4);
                buf' = (if left_over > 0 then poke buf 0 (take left_over (drop (msg_len + 4) buf)) else buf)
            in Some (Ref data, sc\<lparr>sc_read_offset := left_over,
                      sc_msg_offset := sc_msg_offset sc - word_of_nat (msg_len + 4),
                      sc_buffer := Ref buf'\<rparr>)))
   }"

section \<open>SLIP\<close>

definition SLIP_END :: byte where "SLIP_END = CHR 0xC0"
definition SLIP_ESC :: byte where "SLIP_ESC = CHR 0xDB"
definition SLIP_ESC_END :: byte where "SLIP_ESC_END = CHR 0xDC"
definition SLIP_ESC_ESC :: byte where "SLIP_ESC_ESC = CHR 0xDD"

text \<open>
  The result, the bytes written, the state and \<open>*bytesread\<close>. Only the ordinary byte advances
  \<open>from\<close>.
\<close>

fun slip_decode :: "nat \<Rightarrow> byte list \<Rightarrow> nat \<Rightarrow> byte list \<Rightarrow> nat \<Rightarrow> (int \<times> byte list \<times> nat \<times> nat) option" where
  "slip_decode 0 src st out n = Some (1, out, st, n)"
| "slip_decode (Suc sz) [] st out n = None"
| "slip_decode (Suc sz) (b # src) st out n =
     (if st = 0 then
        (if b = SLIP_END then Some (0, out, 0, Suc n)
         else if b = SLIP_ESC then slip_decode sz (b # src) 1 out (Suc n)
         else slip_decode sz src 0 (out @ [b]) (Suc n))
      else if st = 1 then
        (if b = SLIP_ESC_END then slip_decode sz (b # src) 0 (out @ [SLIP_END]) (Suc n)
         else if b = SLIP_ESC_ESC then slip_decode sz (b # src) 0 (out @ [SLIP_ESC]) (Suc n)
         else slip_decode sz (b # src) 0 out (Suc n))
      else slip_decode sz (b # src) st out (Suc n))"

text \<open>
  The sender's side: \<open>slip_encode\<close> of \<open>src/send.c\<close>. The output, its closing \<open>SLIP_END\<close> and a zero
  byte go into a block of twice the size of the input; a write past it is undefined.
\<close>

fun slip_bytes :: "byte list \<Rightarrow> byte list" where
  "slip_bytes [] = []"
| "slip_bytes (b # data) =
     (if b = SLIP_ESC then SLIP_ESC # SLIP_ESC_ESC # slip_bytes data
      else if b = SLIP_END then SLIP_ESC # SLIP_ESC_END # slip_bytes data
      else b # slip_bytes data)"

definition slip_encode :: "byte list \<Rightarrow> byte list option" where
  "slip_encode data =
     (if length (slip_bytes data) + 2 > 2 * length data then None
      else Some (slip_bytes data @ [SLIP_END]))"

text \<open>\<open>isprint\<close> in the C locale.\<close>

definition print_or_nul :: "byte \<Rightarrow> bool" where
  "print_or_nul c \<longleftrightarrow> (0x20 \<le> (of_char c :: nat) \<and> (of_char c :: nat) \<le> 0x7e) \<or> c = NUL"

fun detect_slip :: "byte list \<Rightarrow> bool option" where
  "detect_slip (a # b # c # d # rest) =
     Some (a = SLIP_END \<and> b = CHR ''/'' \<and> print_or_nul c \<and> print_or_nul d
       \<or> a = CHR ''/'' \<and> print_or_nul b \<and> print_or_nul c \<and> print_or_nul d
       \<or> [a, b, c, d] = ''#bun'')"
| "detect_slip _ = None"

section \<open>Growing the buffer\<close>

text \<open>
  \<open>while (buffer_bytes_left < size/2)\<close>, with the size limited to \<open>LO_MAX_MSG_SIZE\<close>: the new size
  and what is free in it.
\<close>

partial_function (option) grow_loop :: "int \<Rightarrow> int \<Rightarrow> int \<Rightarrow> (int \<times> int) option" where
  "grow_loop read_offset sz bytes_left =
     (if bytes_left < sz div 2 then
        (let sz' = (if sz * 2 > int LO_MAX_MSG_SIZE then int LO_MAX_MSG_SIZE else sz * 2)
         in grow_loop read_offset sz' (sz' - read_offset))
      else Some (sz, bytes_left))"

definition grow_buffer :: "socket_context \<Rightarrow> int option" where
  "grow_buffer sc = do {
     let bytes_left = int (sc_size sc) - int (sc_read_offset sc);
     let sz = (if int (sc_size sc) < 64 then 64 else int (sc_size sc));
     (sz', _) \<leftarrow> grow_loop (int (sc_read_offset sc)) sz bytes_left;
     Some sz'
   }"

section \<open>Receiving\<close>

text \<open>A write into the buffer; past its end it is undefined.\<close>

definition write_at :: "byte list \<Rightarrow> nat \<Rightarrow> byte list \<Rightarrow> byte list option" where
  "write_at buf off bs = (if off + length bs \<le> length buf then Some (poke buf off bs) else None)"

lemma slip_decode_reads: "slip_decode sz src st out n = Some (0, out', st', n') \<Longrightarrow> n < n'"
proof (induction sz src st out n rule: slip_decode.induct)
  case (3 sz b src st out n)
  then show ?case by (auto split: if_splits)
qed auto

text \<open>
  The loop that decodes what was received behind a length header, from \<open>buffer_after\<close> on. When the
  buffer has to grow inside it, \<open>buffer_after\<close> keeps pointing into the old block, so that branch is
  undefined.
\<close>

function slip_loop :: "byte list \<Rightarrow> nat \<Rightarrow> byte list \<Rightarrow> socket_context \<Rightarrow> (nat \<times> socket_context) option" where
  "slip_loop stack after buf sc =
     (case slip_decode (length stack) stack (sc_slip_state sc) [] 0 of
        None \<Rightarrow> None
      | Some (r, out, st, bytes_read) \<Rightarrow>
          (case write_at buf after out of
             None \<Rightarrow> None
           | Some buf1 \<Rightarrow>
               let after1 = after + length out; sc1 = sc\<lparr>sc_slip_state := st\<rparr> in
               if r \<noteq> 0 then Some (length stack, sc1\<lparr>sc_buffer := Ref buf1, sc_read_offset := after1\<rparr>)
               else
                 let msg_len = word_of_nat after1 - sc_msg_offset sc - 4 :: u32 in
                 (case write_at buf1 (unat (sc_msg_offset sc)) (be32 msg_len) of
                    None \<Rightarrow> None
                  | Some buf2 \<Rightarrow>
                      let msg_offset = sc_msg_offset sc + msg_len + 4;
                          read_offset = after1 + 4 in
                      (case write_at buf2 (unat msg_offset) [NUL, NUL, NUL, NUL] of
                         None \<Rightarrow> None
                       | Some buf3 \<Rightarrow>
                           if bytes_read = 0 \<or> length stack < bytes_read then None
                           else if length stack - bytes_read + 4 > sc_size sc - read_offset then None
                           else slip_loop (drop bytes_read stack) (after1 + 4) buf3
                                  (sc1\<lparr>sc_msg_offset := msg_offset, sc_read_offset := read_offset\<rparr>)))))"
  by pat_completeness auto
termination by (relation "measure (\<lambda>(stack, _). length stack)") auto

declare slip_loop.simps [simp del]

text \<open>What \<open>recv\<close> gives: at least one byte, no data for now, or an error or the end of the stream.\<close>

datatype rx = Rx_data "byte list" | Rx_again | Rx_closed

text \<open>
  What \<open>recv\<close> stored, once decided whether this is a SLIP stream: the result is the bytes of
  \<open>bytes_recv\<close> left undecoded and the context.
\<close>

definition store_received :: "byte list \<Rightarrow> nat \<Rightarrow> byte list \<Rightarrow> socket_context \<Rightarrow> (nat \<times> socket_context) option" where
  "store_received buf bytes_left bytes sc =
     (if sc_is_slip sc = 1 then
        (if length bytes > bytes_left - 4 then None else slip_loop bytes (sc_read_offset sc) buf sc)
      else do {
        buf1 \<leftarrow> write_at buf (sc_read_offset sc) bytes;
        (if sc_is_slip sc = - 1 \<and> sc_read_offset sc + length bytes \<ge> 4 then do {
           slip \<leftarrow> detect_slip (drop (unat (sc_msg_offset sc)) buf1);
           let sc1 = sc\<lparr>sc_is_slip := (if slip then 1 else 0), sc_slip_state := 0\<rparr>;
           (if slip then do {
              buf2 \<leftarrow> write_at buf1 (sc_read_offset sc) [NUL, NUL, NUL, NUL];
              slip_loop bytes (sc_read_offset sc + 4) buf2 (sc1\<lparr>sc_read_offset := sc_read_offset sc + 4\<rparr>)
            }
            else Some (length bytes,
                   sc1\<lparr>sc_buffer := Ref buf1, sc_read_offset := sc_read_offset sc + length bytes\<rparr>))
         }
         else Some (length bytes,
                sc\<lparr>sc_buffer := Ref buf1, sc_read_offset := sc_read_offset sc + length bytes\<rparr>))
      })"

text \<open>Room for the next \<open>recv\<close>: the buffer and whether it could be had.\<close>

definition make_room :: "alloc \<Rightarrow> socket_context \<Rightarrow> (bool \<times> socket_context) option" where
  "make_room al sc = do {
     sz \<leftarrow> grow_buffer sc;
     (if sz > int (sc_size sc) then
        (case realloc al At_data (case sc_buffer sc of NULL \<Rightarrow> [] | Ref b \<Rightarrow> b) (nat sz) of
           None \<Rightarrow> Some (False, sc\<lparr>sc_size := nat sz, sc_buffer := NULL\<rparr>)
         | Some b \<Rightarrow> Some (True, sc\<lparr>sc_size := nat sz, sc_buffer := Ref b\<rparr>))
      else Some (True, sc))
   }"

text \<open>
  \<open>lo_server_recv_raw_stream_socket\<close>, from \<open>again:\<close> on, with the results of its \<open>recv\<close> calls. The
  flag \<open>closed\<close> says that the socket was removed from the server.
\<close>

record received =
  rv_ret :: int
  rv_data :: "byte list ptr"
  rv_sc :: socket_context
  rv_closed :: bool

fun lo_server_recv_raw_stream_socket :: "alloc \<Rightarrow> rx list \<Rightarrow> socket_context \<Rightarrow> received option" where
  "lo_server_recv_raw_stream_socket al [] sc = None"
| "lo_server_recv_raw_stream_socket al (r # rs) sc = do {
     (data, sc1) \<leftarrow> lo_server_buffer_copy_for_dispatch al sc;
     (if data \<noteq> NULL then Some \<lparr>rv_ret = 1, rv_data = data, rv_sc = sc1, rv_closed = False\<rparr>
      else do {
        (ok, sc2) \<leftarrow> make_room al sc1;
        (if \<not> ok then Some \<lparr>rv_ret = 0, rv_data = NULL, rv_sc = sc2, rv_closed = False\<rparr>
         else (case (r, sc_buffer sc2) of
           (Rx_again, _) \<Rightarrow> Some \<lparr>rv_ret = 0, rv_data = NULL, rv_sc = sc2, rv_closed = False\<rparr>
         | (Rx_closed, _) \<Rightarrow> Some \<lparr>rv_ret = 0, rv_data = NULL, rv_sc = cleanup_context sc2, rv_closed = True\<rparr>
         | (Rx_data _, NULL) \<Rightarrow> None
         | (Rx_data bytes, Ref buf) \<Rightarrow>
             let bytes_left = sc_size sc2 - sc_read_offset sc2 in
             if length bytes > bytes_left then None
             else do {
               (bytes_recv, sc3) \<leftarrow> store_received buf bytes_left bytes sc2;
               (data', sc4) \<leftarrow> lo_server_buffer_copy_for_dispatch al sc3;
               (if data' = NULL \<and> bytes_recv = bytes_left
                then lo_server_recv_raw_stream_socket al rs sc4
                else Some \<lparr>rv_ret = (if bytes_recv = bytes_left then 1 else 0), rv_data = data',
                           rv_sc = sc4, rv_closed = False\<rparr>)
             }))
      })
   }"

section \<open>SLIP round trip\<close>

definition slip_plain :: "byte list \<Rightarrow> bool" where
  "slip_plain data \<longleftrightarrow> (\<forall>b \<in> set data. b \<noteq> SLIP_END \<and> b \<noteq> SLIP_ESC)"

lemma slip_bytes_plain: "slip_plain data \<Longrightarrow> slip_bytes data = data"
  by (induction data) (auto simp: slip_plain_def)

lemma slip_consts [simp]: "SLIP_ESC \<noteq> SLIP_END" "SLIP_END \<noteq> SLIP_ESC"
  "SLIP_ESC \<noteq> SLIP_ESC_END" "SLIP_ESC \<noteq> SLIP_ESC_ESC"
  by (simp_all add: SLIP_ESC_def SLIP_END_def SLIP_ESC_END_def SLIP_ESC_ESC_def)

lemma slip_decode_plain:
  "slip_plain data \<Longrightarrow> slip_decode (length data + k) (data @ rest) 0 out n =
     slip_decode k rest 0 (out @ data) (n + length data)"
  by (induction data arbitrary: out n) (auto simp: slip_plain_def)

lemma slip_decode_frame:
  assumes "slip_plain data" "length data < sz"
  shows "slip_decode sz (data @ SLIP_END # rest) 0 out n = Some (0, out @ data, 0, n + length data + 1)"
proof -
  obtain k where "sz = length data + Suc k" using assms(2) by (metis add_Suc_right less_imp_Suc_add)
  then show ?thesis using slip_decode_plain [OF assms(1), of "Suc k"] by simp
qed

text \<open>
  From an escape byte on the decoder never advances: it uses up its input on that one byte and
  neither finds the end of the message nor writes anything.
\<close>

lemma slip_decode_stuck:
  "st \<le> 1 \<Longrightarrow> \<exists>st'. slip_decode k (SLIP_ESC # rest) st out n = Some (1, out, st', n + k)"
proof (induction k arbitrary: st n)
  case (Suc k)
  then show ?case using Suc.IH [of 0 "Suc n"] Suc.IH [of 1 "Suc n"] by (cases "st = 0") auto
qed simp

lemma slip_decode_escape:
  assumes "slip_plain pre"
  shows "\<exists>st. slip_decode (length pre + k) (pre @ SLIP_ESC # rest) 0 [] 0 = Some (1, pre, st, length pre + k)"
  using slip_decode_stuck [of 0 k rest pre "length pre"] slip_decode_plain [OF assms, of k "SLIP_ESC # rest" "[]" 0]
  by simp

section \<open>Growth\<close>

text \<open>While at most half of the largest buffer is in use the loop ends.\<close>

lemma grow_loop_ends:
  assumes "0 \<le> ro" "ro \<le> int LO_MAX_MSG_SIZE div 2" "64 \<le> sz" "sz \<le> int LO_MAX_MSG_SIZE" "bytes_left \<le> sz - ro"
    and "bytes_left < sz div 2 \<or> bytes_left = sz - ro"
  shows "\<exists>sz'. grow_loop ro sz bytes_left = Some (sz', sz' - ro) \<and> sz \<le> sz' \<and> sz' \<le> int LO_MAX_MSG_SIZE
    \<and> sz' div 2 \<le> sz' - ro"
  using assms
proof (induction "nat (int LO_MAX_MSG_SIZE - sz)" arbitrary: sz bytes_left rule: less_induct)
  case less
  show ?case
  proof (cases "bytes_left < sz div 2")
    case False
    then show ?thesis using less.prems by (subst grow_loop.simps) auto
  next
    case True
    define sz' where "sz' = (if sz * 2 > int LO_MAX_MSG_SIZE then int LO_MAX_MSG_SIZE else sz * 2)"
    have step: "grow_loop ro sz bytes_left = grow_loop ro sz' (sz' - ro)"
      using True by (subst grow_loop.simps) (simp add: sz'_def Let_def)
    have b: "sz \<le> sz'" "sz' \<le> int LO_MAX_MSG_SIZE" "64 \<le> sz'"
      using less.prems by (auto simp: sz'_def)
    show ?thesis
    proof (cases "sz' - ro < sz' div 2")
      case False
      then have "grow_loop ro sz' (sz' - ro) = Some (sz', sz' - ro)" by (subst grow_loop.simps) simp
      then show ?thesis using step b False by auto
    next
      case True
      then have "sz' < int LO_MAX_MSG_SIZE" using less.prems(2) b by (auto simp: LO_MAX_MSG_SIZE_def)
      then have "sz < sz'" using less.prems(3) by (auto simp: sz'_def split: if_splits)
      then have "\<exists>sz''. grow_loop ro sz' (sz' - ro) = Some (sz'', sz'' - ro) \<and> sz' \<le> sz'' \<and>
          sz'' \<le> int LO_MAX_MSG_SIZE \<and> sz'' div 2 \<le> sz'' - ro"
        using less.prems(1,2) b by (intro less.hyps) auto
      then show ?thesis using step b by force
    qed
  qed
qed

text \<open>With more in the buffer than half of the largest size it does not.\<close>

lemma grow_loop_Some:
  assumes "grow_loop ro sz bytes_left = Some r"
  shows "\<not> (int LO_MAX_MSG_SIZE div 2 < ro \<and> sz = int LO_MAX_MSG_SIZE \<and> bytes_left = sz - ro)"
proof (rule grow_loop.raw_induct [OF _ assms])
  fix loop :: "int \<Rightarrow> int \<Rightarrow> int \<Rightarrow> (int \<times> int) option" and ro sz bytes_left r
  assume IH: "\<And>ro sz bytes_left r. loop ro sz bytes_left = Some r \<Longrightarrow>
      \<not> (int LO_MAX_MSG_SIZE div 2 < ro \<and> sz = int LO_MAX_MSG_SIZE \<and> bytes_left = sz - ro)"
    and eq: "(if bytes_left < sz div 2 then
        (let sz' = (if sz * 2 > int LO_MAX_MSG_SIZE then int LO_MAX_MSG_SIZE else sz * 2)
         in loop ro sz' (sz' - ro))
      else Some (sz, bytes_left)) = Some r"
  show "\<not> (int LO_MAX_MSG_SIZE div 2 < ro \<and> sz = int LO_MAX_MSG_SIZE \<and> bytes_left = sz - ro)"
  proof
    assume a: "int LO_MAX_MSG_SIZE div 2 < ro \<and> sz = int LO_MAX_MSG_SIZE \<and> bytes_left = sz - ro"
    then have "loop ro (int LO_MAX_MSG_SIZE) (int LO_MAX_MSG_SIZE - ro) = Some r"
      using eq by (simp add: LO_MAX_MSG_SIZE_def Let_def split: if_splits)
    from IH [OF this] a show False by blast
  qed
qed

lemma grow_loop_diverges:
  "int LO_MAX_MSG_SIZE div 2 < ro \<Longrightarrow> grow_loop ro (int LO_MAX_MSG_SIZE) (int LO_MAX_MSG_SIZE - ro) = None"
  using grow_loop_Some [of ro "int LO_MAX_MSG_SIZE" "int LO_MAX_MSG_SIZE - ro"]
  by (cases "grow_loop ro (int LO_MAX_MSG_SIZE) (int LO_MAX_MSG_SIZE - ro)") auto

section \<open>Reassembly\<close>

definition content :: "socket_context \<Rightarrow> byte list" where
  "content sc = (case sc_buffer sc of NULL \<Rightarrow> [] | Ref buf \<Rightarrow> take (sc_read_offset sc) buf)"

definition context_ok :: "socket_context \<Rightarrow> bool" where
  "context_ok sc \<longleftrightarrow> sc_read_offset sc \<le> sc_size sc \<and> sc_size sc \<le> LO_MAX_MSG_SIZE \<and>
     (sc_size sc = 0 \<or> 64 \<le> sc_size sc) \<and>
     (case sc_buffer sc of NULL \<Rightarrow> sc_size sc = 0 | Ref buf \<Rightarrow> length buf = sc_size sc)"

definition frame :: "byte list \<Rightarrow> byte list" where
  "frame m = be32 (word_of_nat (length m)) @ m"

definition whole_message :: "byte list \<Rightarrow> bool" where
  "whole_message bs \<longleftrightarrow> (\<exists>w. 4 < length bs \<and> rd_be32 bs = Some w \<and> w \<noteq> 0 \<and> unat w + 4 \<le> length bs)"

lemma length_content: "context_ok sc \<Longrightarrow> length (content sc) = sc_read_offset sc"
  by (auto simp: context_ok_def content_def split: ptr.splits)

lemma rd_be32_take: "4 \<le> k \<Longrightarrow> k \<le> length bs \<Longrightarrow> rd_be32 (take k bs) = rd_be32 bs"
proof -
  assume k: "4 \<le> k" "k \<le> length bs"
  obtain k' where "k = 4 + k'" using k(1) by (metis le_Suc_ex)
  then show ?thesis using k(2) by (cases bs rule: rd_be32.cases) (simp_all add: eval_nat_numeral)
qed

lemma contains_msg_content:
  assumes "context_ok sc"
  shows "lo_server_buffer_contains_msg sc =
     Some (if whole_message (content sc) then unat (the (rd_be32 (content sc))) else 0)"
proof (cases "4 < sc_read_offset sc")
  case True
  then obtain buf where buf: "sc_buffer sc = Ref buf" "length buf = sc_size sc" "sc_read_offset sc \<le> length buf"
    using assms by (auto simp: context_ok_def split: ptr.splits)
  then obtain w where w: "rd_be32 buf = Some w" using True rd_be32_None [of buf] by fastforce
  then have "rd_be32 (content sc) = Some w"
    using rd_be32_take [of "sc_read_offset sc" buf] buf True by (simp add: content_def)
  moreover have "unat w = 0 \<longleftrightarrow> w = 0" by (simp add: unat_eq_0)
  ultimately show ?thesis
    using True buf w length_content [OF assms]
    by (auto simp: lo_server_buffer_contains_msg_def whole_message_def)
next
  case False
  then show ?thesis
    using length_content [OF assms] by (simp add: lo_server_buffer_contains_msg_def whole_message_def)
qed

text \<open>Handing out a message takes its frame off the front; without a whole one nothing changes.\<close>

lemma copy_whole:
  assumes "context_ok sc" "content sc = frame m @ rest" "m \<noteq> []" "alloc_total al"
  shows "\<exists>sc'. lo_server_buffer_copy_for_dispatch al sc = Some (Ref m, sc') \<and> context_ok sc' \<and>
     content sc' = rest \<and> sc_is_slip sc' = sc_is_slip sc \<and> sc_size sc' = sc_size sc"
proof -
  have len: "sc_read_offset sc = 4 + length m + length rest"
    using length_content [OF assms(1)] by (simp add: assms(2) frame_def)
  then obtain buf where buf: "sc_buffer sc = Ref buf" "length buf = sc_size sc" "sc_read_offset sc \<le> sc_size sc"
      "sc_size sc \<le> LO_MAX_MSG_SIZE"
    using assms(1) by (auto simp: context_ok_def split: ptr.splits)
  have m: "unat (word_of_nat (length m) :: u32) = length m"
    using len buf by (intro unat_small) (simp add: LO_MAX_MSG_SIZE_def)
  then have nz: "word_of_nat (length m) \<noteq> (0 :: u32)" using assms(3) by (metis length_0_conv unat_0)
  have "rd_be32 (content sc) = Some (word_of_nat (length m))" by (simp add: assms(2) frame_def)
  moreover have "0 < length m" using assms(3) by simp
  ultimately have c: "lo_server_buffer_contains_msg sc = Some (length m)"
    using nz m contains_msg_content [OF assms(1)] by (simp add: whole_message_def assms(2) frame_def)
  have tk: "take (sc_read_offset sc) buf = be32 (word_of_nat (length m)) @ m @ rest"
    using assms(2) buf(1) by (simp add: content_def frame_def)
  then have bs: "buf = be32 (word_of_nat (length m)) @ m @ rest @ drop (sc_read_offset sc) buf"
    by (metis append.assoc append_take_drop_id)
  have al: "al At_data n \<noteq> None" for n using assms(4) by (simp add: alloc_total_def)
  have data: "take (length m) (drop 4 buf) = m" by (subst bs) simp
  have rest: "take (length rest) (drop (length m + 4) buf) = rest" by (subst bs) simp
  define buf' where "buf' = (if 0 < length rest then poke buf 0 rest else buf)"
  have b': "length buf' = sc_size sc" "take (length rest) buf' = rest"
    using buf len by (auto simp: buf'_def length_poke poke_0)
  define sc' where "sc' = sc\<lparr>sc_read_offset := length rest,
     sc_msg_offset := sc_msg_offset sc - word_of_nat (length m + 4), sc_buffer := Ref buf'\<rparr>"
  have "lo_server_buffer_copy_for_dispatch al sc = Some (Ref m, sc')"
    using assms(3) al [of "length m"] buf c data rest len
    by (auto simp: lo_server_buffer_copy_for_dispatch_def Let_def sc'_def buf'_def add.commute)
  moreover have "context_ok sc'" using assms(1) b' buf len by (simp add: context_ok_def sc'_def)
  moreover have "content sc' = rest" using b' by (simp add: content_def sc'_def)
  ultimately show ?thesis by (auto simp: sc'_def)
qed

lemma copy_none:
  assumes "context_ok sc" "\<not> whole_message (content sc)"
  shows "lo_server_buffer_copy_for_dispatch al sc = Some (NULL, sc)"
  using contains_msg_content [OF assms(1)] assms(2) by (simp add: lo_server_buffer_copy_for_dispatch_def)

lemma whole_message_frame:
  assumes "whole_message bs"
  shows "\<exists>m rest. bs = frame m @ rest \<and> m \<noteq> [] \<and> length m < 2 ^ 32"
proof -
  obtain w where w: "rd_be32 bs = Some w" "w \<noteq> 0" "unat w + 4 \<le> length bs"
    using assms by (auto simp: whole_message_def)
  define m where "m = take (unat w) (drop 4 bs)"
  have len: "length m = unat w" using w(3) by (simp add: m_def)
  have "bs = be32 w @ drop 4 bs" using w(1) by (rule rd_be32_Some)
  also have "drop 4 bs = m @ drop (unat w) (drop 4 bs)" by (simp only: m_def append_take_drop_id)
  finally have "bs = frame m @ drop (unat w) (drop 4 bs)" by (simp add: frame_def len)
  moreover have "m \<noteq> []" using len w(2) by (metis length_0_conv unat_eq_0)
  moreover have "length m < 2 ^ 32" using len unsigned_less [of w, where ?'a = nat] by simp
  ultimately show ?thesis by blast
qed

lemma frame_whole:
  assumes "m \<noteq> []" "length m < 2 ^ 32"
  shows "whole_message (frame m @ rest)"
proof -
  have m: "unat (word_of_nat (length m) :: u32) = length m" using assms(2) by (simp add: unat_of_nat)
  then have "word_of_nat (length m) \<noteq> (0 :: u32)" using assms(1) by (metis length_0_conv unat_0)
  then show ?thesis using m assms(1) by (simp add: whole_message_def frame_def)
qed

lemma make_room_ok:
  assumes "context_ok sc" "sc_read_offset sc \<le> LO_MAX_MSG_SIZE div 2" "alloc_total al"
  shows "\<exists>n buf. make_room al sc = Some (True, sc\<lparr>sc_size := n, sc_buffer := Ref buf\<rparr>) \<and> length buf = n \<and>
     64 \<le> n \<and> n \<le> LO_MAX_MSG_SIZE \<and> n div 2 \<le> n - sc_read_offset sc \<and> sc_read_offset sc \<le> n \<and>
     take (sc_read_offset sc) buf = content sc"
proof -
  let ?ro = "int (sc_read_offset sc)"
  define sz where "sz = (if int (sc_size sc) < 64 then 64 else int (sc_size sc))"
  have ok: "sc_read_offset sc \<le> sc_size sc" "sc_size sc \<le> LO_MAX_MSG_SIZE" "sc_size sc = 0 \<or> 64 \<le> sc_size sc"
    using assms(1) by (simp_all add: context_ok_def)
  have sz: "64 \<le> sz" "sz \<le> int LO_MAX_MSG_SIZE" "int (sc_size sc) \<le> sz"
    "int (sc_size sc) - ?ro < sz div 2 \<or> int (sc_size sc) - ?ro = sz - ?ro"
    using ok by (auto simp: sz_def LO_MAX_MSG_SIZE_def)
  have "\<exists>sz'. grow_loop ?ro sz (int (sc_size sc) - ?ro) = Some (sz', sz' - ?ro) \<and> sz \<le> sz' \<and>
      sz' \<le> int LO_MAX_MSG_SIZE \<and> sz' div 2 \<le> sz' - ?ro"
    using sz assms(2) by (intro grow_loop_ends) (simp_all add: zdiv_int)
  then obtain sz' where s: "grow_loop ?ro sz (int (sc_size sc) - ?ro) = Some (sz', sz' - ?ro)" "sz \<le> sz'"
      "sz' \<le> int LO_MAX_MSG_SIZE" "sz' div 2 \<le> sz' - ?ro" by blast
  define n where "n = nat sz'"
  have n: "sz' = int n" "64 \<le> n" "n \<le> LO_MAX_MSG_SIZE" "sc_size sc \<le> n"
    using s sz by (simp_all add: n_def)
  have half: "n div 2 \<le> n - sc_read_offset sc" "sc_read_offset sc \<le> n"
    using s(4) n(1,4) ok by linarith+
  have g: "grow_buffer sc = Some (int n)"
    using s(1) n(1) by (simp add: grow_buffer_def sz_def Let_def)
  show ?thesis
  proof (cases "n = sc_size sc")
    case True
    then obtain buf where "sc_buffer sc = Ref buf" "length buf = n"
      using assms(1) n(2) by (auto simp: context_ok_def split: ptr.splits)
    moreover from this True have "sc\<lparr>sc_size := n, sc_buffer := Ref buf\<rparr> = sc" by simp
    ultimately show ?thesis
      using g n half True by (intro exI [of _ n] exI [of _ buf]) (simp add: make_room_def content_def)
  next
    case False
    define old where "old = (case sc_buffer sc of NULL \<Rightarrow> [] | Ref b \<Rightarrow> b)"
    obtain buf where b: "realloc al At_data old n = Some buf" using realloc_total [OF assms(3)] by blast
    have len: "length buf = n" using b alloc_total_ok [OF assms(3)] by (simp add: length_realloc)
    have old: "sc_read_offset sc \<le> length old" "take (sc_read_offset sc) old = content sc"
      using assms(1) by (auto simp: context_ok_def old_def content_def split: ptr.splits)
    have "take (sc_read_offset sc) buf = content sc"
      using take_realloc [OF b half(2) old(1)] old(2) by simp
    moreover have "make_room al sc = Some (True, sc\<lparr>sc_size := n, sc_buffer := Ref buf\<rparr>)"
      using g n False b by (simp add: make_room_def old_def)
    ultimately show ?thesis using len n half by blast
  qed
qed

text \<open>
  One \<open>recv\<close> on a connection with count prefixes: what arrives is appended, and the first whole
  message, if there is one now, is handed out.
\<close>

lemma receive_chunk:
  assumes "context_ok sc" "sc_is_slip sc = 0" "\<not> whole_message (content sc)"
    and "sc_read_offset sc \<le> LO_MAX_MSG_SIZE div 2" "alloc_total al"
  shows "\<exists>space \<ge> 32. \<forall>bytes rs. length bytes < space \<longrightarrow>
     (\<exists>r. lo_server_recv_raw_stream_socket al (Rx_data bytes # rs) sc = Some r \<and> \<not> rv_closed r \<and>
        context_ok (rv_sc r) \<and> sc_is_slip (rv_sc r) = 0 \<and>
        (if whole_message (content sc @ bytes)
         then \<exists>m. rv_data r = Ref m \<and> m \<noteq> [] \<and> content sc @ bytes = frame m @ content (rv_sc r)
         else rv_data r = NULL \<and> content (rv_sc r) = content sc @ bytes))"
proof -
  obtain n buf where room: "make_room al sc = Some (True, sc\<lparr>sc_size := n, sc_buffer := Ref buf\<rparr>)"
      "length buf = n" "64 \<le> n" "n \<le> LO_MAX_MSG_SIZE" "n div 2 \<le> n - sc_read_offset sc" "sc_read_offset sc \<le> n"
      "take (sc_read_offset sc) buf = content sc"
    using make_room_ok [OF assms(1,4,5)] by blast
  have copy0: "lo_server_buffer_copy_for_dispatch al sc = Some (NULL, sc)"
    using assms(1,3) by (rule copy_none)
  let ?ro = "sc_read_offset sc"
  have step: "\<exists>r. lo_server_recv_raw_stream_socket al (Rx_data bytes # rs) sc = Some r \<and> \<not> rv_closed r \<and>
        context_ok (rv_sc r) \<and> sc_is_slip (rv_sc r) = 0 \<and>
        (if whole_message (content sc @ bytes)
         then \<exists>m. rv_data r = Ref m \<and> m \<noteq> [] \<and> content sc @ bytes = frame m @ content (rv_sc r)
         else rv_data r = NULL \<and> content (rv_sc r) = content sc @ bytes)"
    if lt: "length bytes < n - ?ro" for bytes rs
  proof -
    define sc3 where "sc3 = sc\<lparr>sc_size := n, sc_buffer := Ref (poke buf ?ro bytes), sc_read_offset := ?ro + length bytes\<rparr>"
    have fits: "?ro + length bytes \<le> length buf" using lt room by simp
    have store: "store_received buf (n - ?ro) bytes (sc\<lparr>sc_size := n, sc_buffer := Ref buf\<rparr>) = Some (length bytes, sc3)"
      using assms(2) fits by (simp add: store_received_def write_at_def sc3_def)
    have ok3: "context_ok sc3" "sc_is_slip sc3 = 0"
      using room lt fits assms(2) by (auto simp: context_ok_def sc3_def length_poke)
    have c3: "content sc3 = content sc @ bytes"
      using room fits by (simp add: content_def sc3_def take_poke_end)
    show ?thesis
    proof (cases "whole_message (content sc @ bytes)")
      case True
      then obtain m rest where m: "content sc @ bytes = frame m @ rest" "m \<noteq> []"
        using whole_message_frame by blast
      obtain sc4 where sc4: "lo_server_buffer_copy_for_dispatch al sc3 = Some (Ref m, sc4)" "context_ok sc4"
          "content sc4 = rest" "sc_is_slip sc4 = 0"
        using copy_whole [OF ok3(1) _ m(2) assms(5), of rest] c3 m(1) ok3(2) by auto
      show ?thesis
        using copy0 room(1) store sc4 m True lt
        by (intro exI [of _ "\<lparr>rv_ret = 0, rv_data = Ref m, rv_sc = sc4, rv_closed = False\<rparr>"]) simp
    next
      case False
      then have "lo_server_buffer_copy_for_dispatch al sc3 = Some (NULL, sc3)"
        using ok3(1) c3 by (intro copy_none) simp_all
      then show ?thesis
        using copy0 room(1) store lt False ok3 c3
        by (intro exI [of _ "\<lparr>rv_ret = 0, rv_data = NULL, rv_sc = sc3, rv_closed = False\<rparr>"]) simp
    qed
  qed
  have "32 \<le> n - ?ro" using room(3,5) by simp
  with step show ?thesis by blast
qed

text \<open>More than half of the largest buffer in use and no whole message: the call never returns.\<close>

lemma receive_hangs:
  assumes "context_ok sc" "sc_size sc = LO_MAX_MSG_SIZE" "LO_MAX_MSG_SIZE div 2 < sc_read_offset sc"
    and "\<not> whole_message (content sc)"
  shows "lo_server_recv_raw_stream_socket al (r # rs) sc = None"
proof -
  have "int LO_MAX_MSG_SIZE div 2 < int (sc_read_offset sc)" using assms(3) by (simp add: zdiv_int)
  then have "grow_loop (int (sc_read_offset sc)) (int LO_MAX_MSG_SIZE) (int LO_MAX_MSG_SIZE - int (sc_read_offset sc)) = None"
    by (rule grow_loop_diverges)
  then have "make_room al sc = None"
    using assms(2) by (simp add: make_room_def grow_buffer_def Let_def LO_MAX_MSG_SIZE_def)
  then show ?thesis using copy_none [OF assms(1,4)] by simp
qed

section \<open>A whole stream\<close>

text \<open>The room a call of \<open>recv\<close> is offered.\<close>

definition free_space :: "alloc \<Rightarrow> socket_context \<Rightarrow> nat" where
  "free_space al sc =
     (case make_room al sc of Some (True, sc') \<Rightarrow> sc_size sc' - sc_read_offset sc' | _ \<Rightarrow> 0)"

lemma free_space_min:
  assumes "context_ok sc" "sc_read_offset sc \<le> LO_MAX_MSG_SIZE div 2" "alloc_total al"
  shows "32 \<le> free_space al sc"
proof -
  obtain n buf where "make_room al sc = Some (True, sc\<lparr>sc_size := n, sc_buffer := Ref buf\<rparr>)"
      "64 \<le> n" "n div 2 \<le> n - sc_read_offset sc"
    using make_room_ok [OF assms] by blast
  then show ?thesis by (simp add: free_space_def)
qed

text \<open>
  A connection with count prefixes: found to be one, or fresh and not decided yet. A first byte that
  is zero decides it.
\<close>

definition counted :: "socket_context \<Rightarrow> bool" where
  "counted sc \<longleftrightarrow> sc_is_slip sc = 0 \<or> sc_is_slip sc = - 1 \<and> sc_msg_offset sc = 0"

lemma byte_of_high:
  assumes "n < 2 ^ 24"
  shows "byte_of (drop_bit 24 (word_of_nat n :: u32)) = NUL"
proof -
  have n: "unat (word_of_nat n :: u32) = n" using assms by (simp add: unat_of_nat)
  have "unat (drop_bit 24 (word_of_nat n :: u32)) = drop_bit 24 n"
    by (simp only: unat_drop_bit_eq n)
  also have "\<dots> = 0" using assms by (simp add: drop_bit_eq_div)
  finally have "unat (drop_bit 24 (word_of_nat n :: u32)) = 0" .
  then have "drop_bit 24 (word_of_nat n :: u32) = 0" by (simp only: unat_eq_0)
  then show ?thesis by (simp add: byte_of_def char_of_def)
qed

lemma detect_counted: "4 \<le> length bs \<Longrightarrow> hd bs = NUL \<Longrightarrow> detect_slip bs = Some False"
  by (cases bs rule: detect_slip.cases) (simp_all add: SLIP_END_def)

lemma store_counted:
  assumes "context_ok sc" "counted sc" "length buf = n" "n \<le> LO_MAX_MSG_SIZE" "64 \<le> n"
    and "sc_read_offset sc + length bytes \<le> n" "take (sc_read_offset sc) buf = content sc"
    and "content sc @ bytes \<noteq> [] \<Longrightarrow> hd (content sc @ bytes) = NUL"
  shows "\<exists>sc3. store_received buf (n - sc_read_offset sc) bytes (sc\<lparr>sc_size := n, sc_buffer := Ref buf\<rparr>) = Some (length bytes, sc3) \<and>
     context_ok sc3 \<and> counted sc3 \<and> content sc3 = content sc @ bytes \<and>
     (4 \<le> length (content sc @ bytes) \<longrightarrow> sc_is_slip sc3 = 0)"
proof -
  let ?ro = "sc_read_offset sc" and ?b = "poke buf (sc_read_offset sc) bytes"
  let ?sc = "sc\<lparr>sc_size := n, sc_buffer := Ref ?b, sc_read_offset := ?ro + length bytes\<rparr>"
  have len: "length (content sc) = ?ro" by (rule length_content [OF assms(1)])
  have lb: "length ?b = n" using assms(3,6) by (simp add: length_poke)
  have tk: "take (?ro + length bytes) ?b = content sc @ bytes"
    using assms(3,6,7) by (simp add: take_poke_end)
  have wr: "write_at buf ?ro bytes = Some ?b" using assms(3,6) by (simp add: write_at_def)
  have ok: "context_ok (?sc\<lparr>sc_is_slip := i, sc_slip_state := j\<rparr>)" "content (?sc\<lparr>sc_is_slip := i, sc_slip_state := j\<rparr>) = content sc @ bytes"
    for i j
    using assms(3-6) lb tk by (simp_all add: context_ok_def content_def)
  have ok0: "context_ok ?sc" "content ?sc = content sc @ bytes"
    using assms(3-6) lb tk by (simp_all add: context_ok_def content_def)
  consider "sc_is_slip sc = 0" | "sc_is_slip sc = - 1" "sc_msg_offset sc = 0" "?ro + length bytes < 4"
    | "sc_is_slip sc = - 1" "sc_msg_offset sc = 0" "4 \<le> ?ro + length bytes"
    using assms(2) by (fastforce simp: counted_def)
  then show ?thesis
  proof cases
    case 1
    then show ?thesis using wr ok0
      by (intro exI [of _ ?sc]) (simp add: store_received_def counted_def)
  next
    case 2
    then show ?thesis using wr ok0 len
      by (intro exI [of _ ?sc]) (simp add: store_received_def counted_def)
  next
    case 3
    have "content sc @ bytes \<noteq> []" using 3(3) len by auto
    then have "hd ?b = NUL" using assms(8) tk by (metis hd_take take_eq_Nil zero_less_iff_neq_zero)
    then have "detect_slip ?b = Some False" using lb assms(5) by (intro detect_counted) simp_all
    then show ?thesis using 3 wr ok [of 0 0]
      by (intro exI [of _ "?sc\<lparr>sc_is_slip := 0, sc_slip_state := 0\<rparr>"]) (simp add: store_received_def counted_def Let_def)
  qed
qed

text \<open>As much as there is room for, then nothing more for now.\<close>

lemma receive_up_to_space:
  assumes "context_ok sc" "counted sc" "\<not> whole_message (content sc)"
    and "sc_read_offset sc \<le> LO_MAX_MSG_SIZE div 2" "alloc_total al" "length bytes \<le> free_space al sc"
    and "content sc @ bytes \<noteq> [] \<Longrightarrow> hd (content sc @ bytes) = NUL"
    and "whole_message (content sc @ bytes) \<or> length (content sc @ bytes) \<le> LO_MAX_MSG_SIZE div 2"
  shows "\<exists>r. lo_server_recv_raw_stream_socket al [Rx_data bytes, Rx_again] sc = Some r \<and> \<not> rv_closed r \<and>
        context_ok (rv_sc r) \<and> counted (rv_sc r) \<and>
        (if whole_message (content sc @ bytes)
         then sc_is_slip (rv_sc r) = 0 \<and> (\<exists>m. rv_data r = Ref m \<and> m \<noteq> [] \<and> length m < 2 ^ 32 \<and> content sc @ bytes = frame m @ content (rv_sc r))
         else rv_data r = NULL \<and> content (rv_sc r) = content sc @ bytes)"
proof -
  let ?ro = "sc_read_offset sc"
  obtain n buf where room: "make_room al sc = Some (True, sc\<lparr>sc_size := n, sc_buffer := Ref buf\<rparr>)"
      "length buf = n" "64 \<le> n" "n \<le> LO_MAX_MSG_SIZE" "n div 2 \<le> n - ?ro" "?ro \<le> n"
      "take ?ro buf = content sc"
    using make_room_ok [OF assms(1,4,5)] by blast
  have le: "length bytes \<le> n - ?ro" using assms(6) room(1) by (simp add: free_space_def)
  have copy0: "lo_server_buffer_copy_for_dispatch al sc = Some (NULL, sc)"
    using assms(1,3) by (rule copy_none)
  have fits: "?ro + length bytes \<le> n" using le room(6) by simp
  obtain sc3 where store: "store_received buf (n - ?ro) bytes (sc\<lparr>sc_size := n, sc_buffer := Ref buf\<rparr>) = Some (length bytes, sc3)"
    and ok3: "context_ok sc3" "counted sc3" and c3: "content sc3 = content sc @ bytes"
    and big: "4 \<le> length (content sc @ bytes) \<longrightarrow> sc_is_slip sc3 = 0"
    using store_counted [OF assms(1,2) room(2,4,3) fits room(7) assms(7)] by blast
  show ?thesis
  proof (cases "whole_message (content sc @ bytes)")
    case True
    then obtain m rest where m: "content sc @ bytes = frame m @ rest" "m \<noteq> []" "length m < 2 ^ 32"
      using whole_message_frame by blast
    have slip: "sc_is_slip sc3 = 0" using big m(1) by (simp add: frame_def)
    obtain sc4 where sc4: "lo_server_buffer_copy_for_dispatch al sc3 = Some (Ref m, sc4)" "context_ok sc4"
        "content sc4 = rest" "sc_is_slip sc4 = 0"
      using copy_whole [OF ok3(1) _ m(2) assms(5), of rest] c3 m(1) slip by auto
    then have "counted sc4" by (simp add: counted_def)
    then show ?thesis using copy0 room(1) store sc4 m True le by simp
  next
    case False
    then have copy3: "lo_server_buffer_copy_for_dispatch al sc3 = Some (NULL, sc3)"
      using ok3(1) c3 by (intro copy_none) simp_all
    have "length (content sc @ bytes) = sc_read_offset sc3"
      using length_content [OF ok3(1)] by (simp add: c3)
    then have "sc_read_offset sc3 \<le> LO_MAX_MSG_SIZE div 2" using assms(8) False by simp
    then obtain n' buf' where room3: "make_room al sc3 = Some (True, sc3\<lparr>sc_size := n', sc_buffer := Ref buf'\<rparr>)"
        "length buf' = n'" "64 \<le> n'" "n' \<le> LO_MAX_MSG_SIZE" "sc_read_offset sc3 \<le> n'"
        "take (sc_read_offset sc3) buf' = content sc3"
      using make_room_ok [OF ok3(1) _ assms(5)] by blast
    then have "context_ok (sc3\<lparr>sc_size := n', sc_buffer := Ref buf'\<rparr>)"
        "content (sc3\<lparr>sc_size := n', sc_buffer := Ref buf'\<rparr>) = content sc3"
        "counted (sc3\<lparr>sc_size := n', sc_buffer := Ref buf'\<rparr>)"
      using ok3(2) by (simp_all add: context_ok_def content_def counted_def)
    then show ?thesis using copy0 room(1) store copy3 room3(1) le False ok3 c3 by (simp add: Let_def)
  qed
qed

text \<open>
  A connection served to its end: \<open>recv\<close> gives pieces of the stream, of the sizes in \<open>ks\<close> but never
  more than there is room for; after each call, the messages still waiting in the buffer are taken
  out as \<open>lo_server_recv_raw_stream\<close> does before it polls.
\<close>

primrec drain :: "alloc \<Rightarrow> nat \<Rightarrow> socket_context \<Rightarrow> (byte list list \<times> socket_context) option" where
  "drain al 0 sc = Some ([], sc)"
| "drain al (Suc n) sc = do {
     (data, sc1) \<leftarrow> lo_server_buffer_copy_for_dispatch al sc;
     (case data of
        NULL \<Rightarrow> Some ([], sc1)
      | Ref m \<Rightarrow> do { (ms, sc2) \<leftarrow> drain al n sc1; Some (m # ms, sc2) })
   }"

fun serve :: "alloc \<Rightarrow> nat list \<Rightarrow> byte list \<Rightarrow> socket_context \<Rightarrow> (byte list list \<times> byte list \<times> socket_context) option" where
  "serve al [] stream sc = Some ([], stream, sc)"
| "serve al (k # ks) stream sc =
     (if stream = [] then Some ([], [], sc)
      else
        let n = min (Suc k) (free_space al sc) in do {
          r \<leftarrow> lo_server_recv_raw_stream_socket al [Rx_data (take n stream), Rx_again] sc;
          (ms, sc1) \<leftarrow> drain al (sc_read_offset (rv_sc r)) (rv_sc r);
          (ms', stream', sc') \<leftarrow> serve al ks (drop n stream) sc1;
          Some ((case rv_data r of NULL \<Rightarrow> [] | Ref m \<Rightarrow> [m]) @ ms @ ms', stream', sc')
        })"

definition frames :: "byte list list \<Rightarrow> byte list" where
  "frames ms = concat (map frame ms)"

lemma frames_simps [simp]: "frames [] = []" "frames (m # ms) = frame m @ frames ms"
  by (simp_all add: frames_def)

definition sendable :: "byte list \<Rightarrow> bool" where
  "sendable m \<longleftrightarrow> m \<noteq> [] \<and> length m + 4 \<le> LO_MAX_MSG_SIZE div 2"

lemma length_frame [simp]: "length (frame m) = 4 + length m"
  by (simp add: frame_def)

lemma frame_prefix:
  assumes "frame m @ xs = frame m' @ ys" "length m < 2 ^ 32" "length m' < 2 ^ 32"
  shows "m = m' \<and> xs = ys"
proof -
  have u: "unat (word_of_nat (length x) :: u32) = length x" if "length x < 2 ^ 32" for x :: "byte list"
    using that by (simp add: unat_of_nat)
  have "be32 (word_of_nat (length m)) = be32 (word_of_nat (length m'))"
    using assms(1) by (simp add: frame_def)
  then have "(word_of_nat (length m) :: u32) = word_of_nat (length m')" using be32_inj by blast
  then have "length m = length m'" using u [OF assms(2)] u [OF assms(3)] by metis
  then show ?thesis using assms(1) by (simp add: frame_def)
qed

text \<open>A stream of frames: as long as a whole message is there it is the first one.\<close>

lemma whole_first:
  assumes "c @ rest = frames ms" "\<forall>m\<in>set ms. sendable m" "whole_message c"
  shows "\<exists>m ms' c'. ms = m # ms' \<and> c = frame m @ c' \<and> c' @ rest = frames ms'"
proof -
  obtain m c' where m: "c = frame m @ c'" "m \<noteq> []" "length m < 2 ^ 32"
    using whole_message_frame [OF assms(3)] by blast
  then have ne: "ms \<noteq> []" using assms(1) by (auto simp: frame_def)
  then obtain m1 ms' where ms: "ms = m1 # ms'" by (cases ms) auto
  then have "length m1 < 2 ^ 32" using assms(2) by (simp add: sendable_def LO_MAX_MSG_SIZE_def)
  then have "m = m1 \<and> c' @ rest = frames ms'"
    using frame_prefix [of m "c' @ rest" m1 "frames ms'"] assms(1) m ms by simp
  then show ?thesis using m ms by blast
qed

lemma partial_short:
  assumes "c @ rest = frames ms" "\<forall>m\<in>set ms. sendable m" "\<not> whole_message c"
  shows "length c \<le> LO_MAX_MSG_SIZE div 2"
proof (cases ms)
  case Nil
  then show ?thesis using assms(1) by simp
next
  case (Cons m ms')
  have m: "m \<noteq> []" "length m + 4 \<le> LO_MAX_MSG_SIZE div 2" "length m < 2 ^ 32"
    using assms(2) Cons by (simp_all add: sendable_def LO_MAX_MSG_SIZE_def)
  have "length c < length (frame m)"
  proof (rule ccontr)
    assume "\<not> length c < length (frame m)"
    then have "take (length (frame m)) c = frame m"
      using assms(1) Cons by (metis append_eq_append_conv_if append_take_drop_id frames_simps(2) leI order_refl take_append)
    then have "c = frame m @ drop (length (frame m)) c" by (metis append_take_drop_id)
    then show False using frame_whole [OF m(1,3)] assms(3) by metis
  qed
  then show ?thesis using m(2) by simp
qed

lemma first_byte:
  assumes "c @ rest = frames ms" "\<forall>m\<in>set ms. sendable m" "c \<noteq> []"
  shows "hd c = NUL"
proof -
  obtain m ms' where m: "ms = m # ms'" using assms(1,3) by (cases ms) auto
  have "length m < 2 ^ 24" using assms(2) m by (simp add: sendable_def LO_MAX_MSG_SIZE_def)
  then have "hd (frames ms) = NUL" by (simp add: m frame_def be32_def byte_of_high)
  then show ?thesis using assms(1,3) by (metis hd_append2)
qed

lemma drain_frames:
  assumes "context_ok sc" "counted sc" "whole_message (content sc) \<Longrightarrow> sc_is_slip sc = 0" "content sc @ rest = frames ms" "\<forall>m\<in>set ms. sendable m"
    and "alloc_total al" "sc_read_offset sc \<le> n"
  shows "\<exists>ms1 ms2 sc'. ms = ms1 @ ms2 \<and> drain al n sc = Some (ms1, sc') \<and> context_ok sc' \<and> counted sc' \<and>
    \<not> whole_message (content sc') \<and> content sc' @ rest = frames ms2"
  using assms
proof (induction n arbitrary: sc ms)
  case 0
  then have "content sc = []" using length_content [OF "0.prems"(1)] by simp
  then show ?case using 0 by (intro exI [of _ "[]"] exI [of _ ms] exI [of _ sc]) (simp add: whole_message_def)
next
  case (Suc n)
  show ?case
  proof (cases "whole_message (content sc)")
    case False
    then show ?thesis using Suc.prems copy_none [OF Suc.prems(1) False, of al]
      by (intro exI [of _ "[]"] exI [of _ ms] exI [of _ sc]) simp
  next
    case True
    obtain m ms' c' where m: "ms = m # ms'" "content sc = frame m @ c'" "c' @ rest = frames ms'"
      using whole_first [OF Suc.prems(4,5) True] by blast
    have ne: "m \<noteq> []" using Suc.prems(5) m(1) by (simp add: sendable_def)
    obtain sc1 where sc1: "lo_server_buffer_copy_for_dispatch al sc = Some (Ref m, sc1)" "context_ok sc1"
        "content sc1 = c'" "sc_is_slip sc1 = 0"
      using copy_whole [OF Suc.prems(1) m(2) ne Suc.prems(6)] Suc.prems(3) [OF True] by auto
    have "sc_read_offset sc1 \<le> n"
      using length_content [OF sc1(2)] length_content [OF Suc.prems(1)] Suc.prems(7) m(2) sc1(3) by simp
    moreover have "counted sc1" using sc1(4) by (simp add: counted_def)
    ultimately obtain ms1 ms2 sc' where "ms' = ms1 @ ms2" "drain al n sc1 = Some (ms1, sc')" "context_ok sc'" "counted sc'"
        "\<not> whole_message (content sc')" "content sc' @ rest = frames ms2"
      using Suc.IH [OF sc1(2), of ms'] m(1,3) sc1(3,4) Suc.prems(5,6) by auto
    then show ?thesis using m(1) sc1(1) by (intro exI [of _ "m # ms1"] exI [of _ ms2] exI [of _ sc']) simp
  qed
qed

lemma all_served:
  assumes "frames ms = c" "\<forall>m\<in>set ms. sendable m" "\<not> whole_message c"
  shows "ms = []"
proof (rule ccontr)
  assume "ms \<noteq> []"
  then obtain m ms' where m: "ms = m # ms'" by (cases ms) auto
  then have "whole_message (frame m @ frames ms')"
    using assms(2) by (intro frame_whole) (simp_all add: sendable_def LO_MAX_MSG_SIZE_def)
  then show False using assms(1,3) m by simp
qed

lemma serve_frames:
  assumes "context_ok sc" "counted sc" "\<not> whole_message (content sc)" "alloc_total al"
    and "content sc @ stream = frames ms" "\<forall>m\<in>set ms. sendable m" "length stream \<le> length ks"
  shows "\<exists>sc'. serve al ks stream sc = Some (ms, [], sc') \<and> content sc' = []"
  using assms
proof (induction ks arbitrary: sc stream ms)
  case Nil
  then have "ms = []" by (intro all_served [OF _ Nil.prems(6,3)]) simp
  then show ?case using Nil.prems(5,7) by simp
next
  case (Cons k ks)
  show ?case
  proof (cases "stream = []")
    case True
    then have "ms = []" using Cons.prems(5) by (intro all_served [OF _ Cons.prems(6,3)]) simp
    then show ?thesis using True Cons.prems(5) by simp
  next
    case False
    let ?n = "min (Suc k) (free_space al sc)"
    define c where "c = take ?n stream"
    define rest where "rest = drop ?n stream"
    have ro: "sc_read_offset sc \<le> LO_MAX_MSG_SIZE div 2"
      using partial_short [OF Cons.prems(5,6,3)] length_content [OF Cons.prems(1)] by simp
    have n: "0 < ?n" using free_space_min [OF Cons.prems(1) ro Cons.prems(4)] by simp
    have st: "(content sc @ c) @ rest = frames ms" using Cons.prems(5) by (simp add: c_def rest_def)
    have short: "whole_message (content sc @ c) \<or> length (content sc @ c) \<le> LO_MAX_MSG_SIZE div 2"
      using partial_short [OF st Cons.prems(6)] by blast
    have fit: "length c \<le> free_space al sc" by (simp add: c_def)
    have zero: "hd (content sc @ c) = NUL" if "content sc @ c \<noteq> []"
      using first_byte [OF st Cons.prems(6) that] .
    obtain r where r: "lo_server_recv_raw_stream_socket al [Rx_data c, Rx_again] sc = Some r"
        "context_ok (rv_sc r)" "counted (rv_sc r)"
        "if whole_message (content sc @ c)
         then sc_is_slip (rv_sc r) = 0 \<and>
           (\<exists>m. rv_data r = Ref m \<and> m \<noteq> [] \<and> length m < 2 ^ 32 \<and> content sc @ c = frame m @ content (rv_sc r))
         else rv_data r = NULL \<and> content (rv_sc r) = content sc @ c"
      using receive_up_to_space [OF Cons.prems(1-3) ro Cons.prems(4) fit zero short] by blast
    obtain ms0 ms1 where m0: "(case rv_data r of NULL \<Rightarrow> [] | Ref m \<Rightarrow> [m]) = ms0" "ms = ms0 @ ms1"
        "content (rv_sc r) @ rest = frames ms1"
    proof (cases "whole_message (content sc @ c)")
      case True
      then obtain m where m: "rv_data r = Ref m" "length m < 2 ^ 32" "content sc @ c = frame m @ content (rv_sc r)"
        using r(4) by auto
      obtain m' ms' c' where w: "ms = m' # ms'" "content sc @ c = frame m' @ c'" "c' @ rest = frames ms'"
        using whole_first [OF st Cons.prems(6) True] by blast
      have "length m' < 2 ^ 32" using w(1) Cons.prems(6) by (simp add: sendable_def LO_MAX_MSG_SIZE_def)
      then have "m = m' \<and> content (rv_sc r) = c'" using frame_prefix [OF _ m(2)] m(3) w(2) by metis
      then show thesis using that [of "[m]" ms'] m(1) w(1,3) by simp
    next
      case False
      then show thesis using r(4) st that [of "[]" ms] by simp
    qed
    have slip: "sc_is_slip (rv_sc r) = 0" if "whole_message (content (rv_sc r))"
      using r(4) that by (auto split: if_splits)
    have s1: "\<forall>m\<in>set ms1. sendable m" using Cons.prems(6) m0(2) by simp
    obtain ms2 ms3 sc1 where d: "ms1 = ms2 @ ms3" "drain al (sc_read_offset (rv_sc r)) (rv_sc r) = Some (ms2, sc1)"
        "context_ok sc1" "counted sc1" "\<not> whole_message (content sc1)" "content sc1 @ rest = frames ms3"
      using drain_frames [OF r(2,3) slip m0(3) s1 Cons.prems(4) order_refl] by blast
    have "length rest \<le> length ks" using Cons.prems(7) n False by (cases stream) (auto simp: rest_def)
    moreover have "\<forall>m\<in>set ms3. sendable m" using s1 d(1) by simp
    ultimately obtain sc' where "serve al ks rest sc1 = Some (ms3, [], sc')" "content sc' = []"
      using Cons.IH [OF d(3-5) Cons.prems(4) d(6)] by blast
    then show ?thesis
      using False r(1) d(1,2) m0(1,2)
      by (simp add: c_def [symmetric] rest_def [symmetric] Let_def del: lo_server_recv_raw_stream_socket.simps)
  qed
qed

section \<open>SLIP streams\<close>

lemma slip_bytes_append: "slip_bytes (a @ b) = slip_bytes a @ slip_bytes b"
  by (induction a) auto

lemma slip_encode_plain: "slip_plain data \<Longrightarrow> 2 \<le> length data \<Longrightarrow> slip_encode data = Some (data @ [SLIP_END])"
  by (simp add: slip_encode_def slip_bytes_plain)

section \<open>Properties\<close>

text \<open>
  C8: Reassembly. A new connection (or one found to have count prefixes) delivers the messages of its
  stream unchanged, each once and in order, for every way in which \<open>recv\<close> may cut the stream into
  pieces; at the end nothing is left in the buffer. Messages are not empty and, with their prefix, at
  most half of the largest buffer.
\<close>

theorem stream_reassembly:
  assumes "sc = init_context sc0 \<or> context_ok sc \<and> counted sc \<and> content sc = []" "alloc_total al"
    and "\<forall>m\<in>set ms. sendable m" "length (frames ms) \<le> length ks"
  shows "\<exists>sc'. serve al ks (frames ms) sc = Some (ms, [], sc') \<and> content sc' = []"
proof (rule serve_frames)
  show "context_ok sc" "counted sc" "\<not> whole_message (content sc)" "content sc @ frames ms = frames ms"
    using assms(1) by (auto simp: init_context_def context_ok_def counted_def content_def whole_message_def)
qed (use assms in simp_all)

text \<open>
  C39: Beyond that size the receiver hangs: with more than half of the largest buffer filled by the
  start of a message, the loop that makes room never ends, whatever \<open>recv\<close> would have given.
\<close>

theorem long_message_hangs:
  assumes "context_ok sc" "sc_size sc = LO_MAX_MSG_SIZE" "LO_MAX_MSG_SIZE div 2 < sc_read_offset sc"
    and "\<not> whole_message (content sc)"
  shows "lo_server_recv_raw_stream_socket al (r # rs) sc = None"
  using assms by (rule receive_hangs)

text \<open>
  SLIP round trip: a message of at least two bytes without the two special ones is encoded in
  place plus the end byte, and the decoder gives it back, reading exactly the encoded bytes.
\<close>

theorem slip_roundtrip:
  assumes "slip_plain data" "2 \<le> length data"
  shows "\<exists>enc. slip_encode data = Some enc \<and> (\<forall>rest k.
    slip_decode (length enc + k) (enc @ rest) 0 [] 0 = Some (0, data, 0, length enc))"
proof -
  have "slip_decode (Suc (length data + k)) (data @ SLIP_END # rest) 0 [] 0 = Some (0, data, 0, length data + 1)" for rest k
    using slip_decode_frame [OF assms(1), of "Suc (length data + k)" rest "[]" 0] by simp
  then show ?thesis using slip_encode_plain [OF assms] by simp
qed

text \<open>
  A message that does contain a special byte is lost: the decoder stops advancing at the escape
  byte, uses up all of the encoded message and more without finding its end, and yields only what
  came before the special byte.
\<close>

theorem slip_special_byte_lost:
  assumes "slip_plain pre" "b = SLIP_END \<or> b = SLIP_ESC" "slip_encode (pre @ b # post) = Some enc"
  shows "\<exists>st. slip_decode (length enc + k) (enc @ rest) 0 [] 0 = Some (1, pre, st, length enc + k)"
proof -
  obtain tail where "enc = pre @ SLIP_ESC # tail"
    using assms by (auto simp: slip_encode_def slip_bytes_append slip_bytes_plain split: if_splits)
  then show ?thesis using slip_decode_escape [OF assms(1), of "Suc (length tail + k)" "tail @ rest"]
    by (simp add: add.assoc)
qed

section \<open>Witnesses\<close>

theorem stream_reassembly_witness:
  "\<exists>sc'. serve al_zero (replicate 20 2) (frames [''one'', ''three'']) (init_context zero_context) =
     Some ([''one'', ''three''], [], sc')"
  using stream_reassembly [of "init_context zero_context" zero_context al_zero "[''one'', ''three'']" "replicate 20 2"]
  by (auto simp: sendable_def LO_MAX_MSG_SIZE_def)

text \<open>The prefix announces far more than ever comes.\<close>

definition full_context :: socket_context where
  "full_context = \<lparr>sc_buffer = Ref (be32 (- 1) @ replicate 32764 NUL), sc_size = 32768, sc_msg_offset = 0,
     sc_read_offset = 20000, sc_is_slip = 0, sc_slip_state = 0\<rparr>"

lemma full_not_whole: "\<not> whole_message (content full_context)"
proof
  have c: "content full_context = be32 (- 1) @ replicate 19996 NUL"
    by (simp add: content_def full_context_def)
  assume "whole_message (content full_context)"
  then have "unat (- 1 :: u32) + 4 \<le> length (content full_context)" by (auto simp: whole_message_def c)
  then show False by (simp add: c unsigned_minus_1_eq_mask mask_eq_exp_minus_1)
qed

theorem long_message_hangs_witness: "lo_server_recv_raw_stream_socket al_zero [Rx_again] full_context = None"
proof (rule long_message_hangs)
  show "context_ok full_context" "sc_size full_context = LO_MAX_MSG_SIZE"
    "LO_MAX_MSG_SIZE div 2 < sc_read_offset full_context"
    by (simp_all add: context_ok_def full_context_def LO_MAX_MSG_SIZE_def)
qed (rule full_not_whole)

theorem slip_roundtrip_witness:
  "\<exists>enc. slip_encode ''/abc'' = Some enc \<and> slip_decode (length enc) enc 0 [] 0 = Some (0, ''/abc'', 0, length enc)"
proof -
  have "slip_plain ''/abc''" by (simp add: slip_plain_def SLIP_END_def SLIP_ESC_def)
  then obtain enc where "slip_encode ''/abc'' = Some enc"
      "\<forall>rest k. slip_decode (length enc + k) (enc @ rest) 0 [] 0 = Some (0, ''/abc'', 0, length enc)"
    using slip_roundtrip [of "''/abc''"] by auto
  then show ?thesis by (metis add.right_neutral append_Nil2)
qed

theorem slip_special_byte_lost_witness:
  "\<exists>enc st. slip_encode (''/abc'' @ [SLIP_END]) = Some enc \<and>
     slip_decode (length enc) enc 0 [] 0 = Some (1, ''/abc'', st, length enc)"
proof -
  have p: "slip_plain ''/abc''" by (simp add: slip_plain_def SLIP_END_def SLIP_ESC_def)
  have "slip_bytes (''/abc'' @ [SLIP_END]) = ''/abc'' @ [SLIP_ESC, SLIP_ESC_END]"
    unfolding slip_bytes_append slip_bytes_plain [OF p] by simp
  then obtain enc where enc: "slip_encode (''/abc'' @ [SLIP_END]) = Some enc"
    by (simp add: slip_encode_def del: append.simps)
  show ?thesis using slip_special_byte_lost [OF p disjI1 [OF refl] enc, of 0 "[]"] enc by auto
qed

end
