(* ===== verification/Sockets.thy ===== *)
theory Sockets
  imports Stream
begin

text \<open>
  The sockets of a stream server (\<open>src/server.c\<close>): \<open>lo_server_add_socket\<close>,
  \<open>lo_server_del_socket\<close> and \<open>lo_server_recv_raw_stream\<close> (the build with \<open>poll\<close>). The arrays are lists;
  \<open>so_alloc\<close> is the capacity both \<open>sockets\<close> and \<open>contexts\<close> have. An address in \<open>sources\<close> is a value of
  any type, NULL when the slot is zeroed.
\<close>

record 'a sockets =
  so_fds :: "int list"
  so_alloc :: nat
  so_contexts :: "socket_context list"
  so_sources :: "'a ptr list"

section \<open>Adding and removing\<close>

text \<open>
  The first allocation of each size is that of \<open>sockets\<close>, the second that of \<open>contexts\<close>; the array of
  sources is reallocated unchecked. \<open>None\<close> is an access out of bounds, which a negative socket and
  the socket 0 in an empty array of sources are.
\<close>

definition grow_sources :: "'a ptr list \<Rightarrow> int \<Rightarrow> 'a ptr list" where
  "grow_sources sources socket =
     (if socket \<ge> int (length sources)
      then sources @ replicate (nat (socket * 2) - length sources) NULL
      else sources)"

definition lo_server_add_socket ::
  "(nat \<Rightarrow> bool) \<Rightarrow> 'a sockets \<Rightarrow> int \<Rightarrow> 'a \<Rightarrow> (int \<times> 'a sockets) option" where
  "lo_server_add_socket can_alloc st socket a =
     (let n = length (so_fds st);
          full = n + 1 > so_alloc st
      in if full \<and> (\<not> can_alloc 0 \<or> \<not> can_alloc 1) then Some (- 1, st)
      else
        let st1 = (if full then st\<lparr>so_alloc := so_alloc st * 2,
                     so_contexts := so_contexts st @ replicate (so_alloc st) zero_context\<rparr>
                   else st);
            sources = grow_sources (so_sources st1) socket
        in if so_alloc st1 \<le> n \<or> socket < 0 \<or> int (length sources) \<le> socket then None
           else Some (int n, st1\<lparr>so_fds := so_fds st1 @ [socket], so_sources := sources[nat socket := Ref a]\<rparr>))"

fun find_fd :: "int list \<Rightarrow> int \<Rightarrow> nat" where
  "find_fd [] socket = 0"
| "find_fd (fd # fds) socket = (if fd = socket then 0 else Suc (find_fd fds socket))"

text \<open>Only the sockets move up; the contexts stay where they are.\<close>

definition lo_server_del_socket :: "'a sockets \<Rightarrow> int \<Rightarrow> int \<Rightarrow> 'a sockets option" where
  "lo_server_del_socket st index socket =
     (let index = (if index < 0 \<and> socket \<noteq> - 1 then int (find_fd (so_fds st) socket) else index) in
      if index < 0 \<or> index \<ge> int (length (so_fds st)) then Some st
      else
        let i = nat index; fd = so_fds st ! i in
        if fd < 0 \<or> int (length (so_sources st)) \<le> fd \<or> length (so_contexts st) \<le> i then None
        else Some (st\<lparr>so_fds := take i (so_fds st) @ drop (Suc i) (so_fds st),
                      so_sources := (so_sources st)[nat fd := NULL],
                      so_contexts := (so_contexts st)[i := cleanup_context (so_contexts st ! i)]\<rparr>))"

section \<open>Receiving from many sockets\<close>

definition set_context :: "nat \<Rightarrow> socket_context \<Rightarrow> 'a sockets \<Rightarrow> 'a sockets" where
  "set_context i sc st = st\<lparr>so_contexts := (so_contexts st)[i := sc]\<rparr>"

text \<open>First a message that waits in a buffer, from socket \<open>i\<close> on.\<close>

fun scan_buffers :: "alloc \<Rightarrow> 'a sockets \<Rightarrow> nat \<Rightarrow> nat \<Rightarrow> ((byte list \<times> int) ptr \<times> 'a sockets) option" where
  "scan_buffers al st i 0 = Some (NULL, st)"
| "scan_buffers al st i (Suc k) =
     (if length (so_contexts st) \<le> i \<or> length (so_fds st) \<le> i then None
      else do {
        (data, sc) \<leftarrow> lo_server_buffer_copy_for_dispatch al (so_contexts st ! i);
        (case data of
           Ref d \<Rightarrow> Some (Ref (d, so_fds st ! i), set_context i sc st)
         | NULL \<Rightarrow> scan_buffers al (set_context i sc st) (Suc i) k)
      })"

text \<open>
  One round of \<open>poll\<close>: the events of each socket (\<open>Rev_err\<close> is exactly POLLERR or POLLHUP), what
  \<open>accept\<close> gives, with the peer's address, and what the \<open>recv\<close> calls on each socket give.
\<close>

datatype revents = Rev_none | Rev_err | Rev_ready

record 'a poll_round =
  pr_revents :: "nat \<Rightarrow> revents"
  pr_accept :: "int \<times> 'a"
  pr_rx :: "int \<Rightarrow> rx list"

datatype 'a outcome =
    Again "'a sockets"
  | Returned "byte list ptr" int "'a sockets"

text \<open>
  The loop over the sockets, last one first, with \<open>data\<close> and \<open>sock\<close> as found so far; it does not stop
  when there is data.
\<close>

fun poll_loop ::
  "alloc \<Rightarrow> (nat \<Rightarrow> bool) \<Rightarrow> 'a poll_round \<Rightarrow> nat \<Rightarrow> 'a sockets \<Rightarrow> byte list ptr \<Rightarrow> int \<Rightarrow> 'a outcome option" where
  "poll_loop al can_alloc r 0 st data sock = Some (Returned data sock st)"
| "poll_loop al can_alloc r (Suc i) st data sock =
     (if length (so_fds st) \<le> i \<or> length (so_contexts st) \<le> i then None
      else case pr_revents r i of
        Rev_none \<Rightarrow> poll_loop al can_alloc r i st data sock
      | Rev_err \<Rightarrow>
          if i > 0 then do {
            st' \<leftarrow> lo_server_del_socket st (int i) (so_fds st ! i);
            poll_loop al can_alloc r i st' data sock
          }
          else Some (Returned NULL sock st)
      | Rev_ready \<Rightarrow>
          let fd = so_fds st ! i in
          if fd = - 1 then Some (Returned NULL fd st)
          else if fd = so_fds st ! 0 then do {
            (j, st') \<leftarrow> lo_server_add_socket can_alloc st (fst (pr_accept r)) (snd (pr_accept r));
            (if j < 0 \<or> length (so_contexts st') \<le> nat j then None
             else Some (Again (set_context (nat j) (init_context (so_contexts st' ! nat j)) st')))
          }
          else do {
            rv \<leftarrow> lo_server_recv_raw_stream_socket al (pr_rx r fd) (so_contexts st ! i);
            st' \<leftarrow> (if rv_closed rv then lo_server_del_socket st (int i) fd else Some (set_context i (rv_sc rv) st));
            poll_loop al can_alloc r i st' (rv_data rv) fd
          })"

text \<open>Each \<open>goto again\<close> takes another round; without one, \<open>poll\<close> waits for ever.\<close>

fun lo_server_recv_raw_stream ::
  "alloc \<Rightarrow> (nat \<Rightarrow> bool) \<Rightarrow> 'a poll_round list \<Rightarrow> 'a sockets \<Rightarrow> (byte list ptr \<times> int \<times> 'a sockets) option" where
  "lo_server_recv_raw_stream al can_alloc rounds st = do {
     (waiting, st1) \<leftarrow> scan_buffers al st 0 (length (so_fds st));
     (case waiting of
        Ref (data, fd) \<Rightarrow> Some (Ref data, fd, st1)
      | NULL \<Rightarrow>
          (case rounds of
             [] \<Rightarrow> None
           | r # rs \<Rightarrow>
               (case poll_loop al can_alloc r (length (so_fds st1)) st1 NULL (- 1) of
                  None \<Rightarrow> None
                | Some (Again st2) \<Rightarrow> lo_server_recv_raw_stream al can_alloc rs st2
                | Some (Returned data sock st2) \<Rightarrow> Some (data, sock, st2))))
   }"

section \<open>The invariant of the table\<close>

text \<open>
  The first socket listens; it has no peer, and no slot in the array of sources is needed for it.
\<close>

definition sockets_ok :: "'a sockets \<Rightarrow> bool" where
  "sockets_ok st \<longleftrightarrow> length (so_contexts st) = so_alloc st \<and> length (so_fds st) \<le> so_alloc st \<and> 0 < so_alloc st \<and>
     so_sources st \<noteq> [] \<and> so_fds st \<noteq> [] \<and> distinct (so_fds st) \<and> (\<forall>fd\<in>set (so_fds st). 0 \<le> fd) \<and>
     (\<forall>fd\<in>set (tl (so_fds st)). fd < int (length (so_sources st)))"

lemma sockets_ok_nth:
  assumes "sockets_ok st" "0 < i" "i < length (so_fds st)"
  shows "0 \<le> so_fds st ! i" "so_fds st ! i < int (length (so_sources st))" "i < length (so_contexts st)"
proof -
  obtain l fds where f: "so_fds st = l # fds" using assms(3) by (cases "so_fds st") auto
  then have "so_fds st ! i \<in> set fds" using assms(2,3) by (cases i) auto
  then show "0 \<le> so_fds st ! i" "so_fds st ! i < int (length (so_sources st))"
    using assms(1) f by (auto simp: sockets_ok_def)
  show "i < length (so_contexts st)" using assms(1,3) by (simp add: sockets_ok_def)
qed

lemma length_grow_sources: "0 \<le> socket \<Longrightarrow> sources \<noteq> [] \<Longrightarrow> socket < int (length (grow_sources sources socket))"
  by (cases sources) (auto simp: grow_sources_def)

lemma grow_sources_nth: "i < length sources \<Longrightarrow> grow_sources sources socket ! i = sources ! i"
  by (simp add: grow_sources_def nth_append)

lemma grow_sources_mono: "length sources \<le> length (grow_sources sources socket)"
  by (auto simp: grow_sources_def simp del: nat_mult_distrib)

lemma add_socket_eq:
  assumes "sockets_ok st" "0 \<le> socket" "\<forall>k. can_alloc k"
  shows "\<exists>st'. lo_server_add_socket can_alloc st socket a = Some (int (length (so_fds st)), st') \<and>
    so_fds st' = so_fds st @ [socket] \<and> so_sources st' = (grow_sources (so_sources st) socket)[nat socket := Ref a] \<and>
    so_alloc st \<le> so_alloc st' \<and> length (so_contexts st') = so_alloc st' \<and> length (so_fds st) < so_alloc st' \<and>
    take (so_alloc st) (so_contexts st') = so_contexts st"
proof -
  have ok: "length (so_contexts st) = so_alloc st" "length (so_fds st) \<le> so_alloc st" "0 < so_alloc st" "so_sources st \<noteq> []"
    using assms(1) by (simp_all add: sockets_ok_def)
  have g: "socket < int (length (grow_sources (so_sources st) socket))"
    using assms(2) ok(4) by (rule length_grow_sources)
  show ?thesis
    using ok g assms(2,3) by (auto simp: lo_server_add_socket_def Let_def)
qed

lemma add_socket_ok:
  assumes "sockets_ok st" "0 \<le> socket" "socket \<notin> set (so_fds st)" "\<forall>k. can_alloc k"
    and "lo_server_add_socket can_alloc st socket a = Some (i, st')"
  shows "sockets_ok st'"
proof -
  obtain st'' where st: "lo_server_add_socket can_alloc st socket a = Some (int (length (so_fds st)), st'')"
      "so_fds st'' = so_fds st @ [socket]" "so_sources st'' = (grow_sources (so_sources st) socket)[nat socket := Ref a]"
      "length (so_contexts st'') = so_alloc st''" "length (so_fds st) < so_alloc st''"
    using add_socket_eq [OF assms(1,2,4)] by blast
  have "socket < int (length (grow_sources (so_sources st) socket))"
    using assms(1,2) by (intro length_grow_sources) (simp_all add: sockets_ok_def)
  moreover have "fd < int (length (grow_sources (so_sources st) socket))" if "fd \<in> set (tl (so_fds st))" for fd
    using that assms(1) grow_sources_mono [of "so_sources st" socket] by (fastforce simp: sockets_ok_def)
  moreover have "set (tl (so_fds st @ [socket])) = insert socket (set (tl (so_fds st)))"
    using assms(1) by (cases "so_fds st") (auto simp: sockets_ok_def)
  ultimately show ?thesis
    using st assms by (auto simp: sockets_ok_def)
qed

lemma find_fd_distinct: "distinct fds \<Longrightarrow> i < length fds \<Longrightarrow> find_fd fds (fds ! i) = i"
  by (induction fds arbitrary: i) (auto simp: nth_Cons split: nat.splits)

lemma del_socket_eq:
  assumes "sockets_ok st" "0 < i" "i < length (so_fds st)" "index = int i \<or> index < 0 \<and> socket = so_fds st ! i"
  shows "lo_server_del_socket st index socket =
    Some (st\<lparr>so_fds := take i (so_fds st) @ drop (Suc i) (so_fds st),
             so_sources := (so_sources st)[nat (so_fds st ! i) := NULL],
             so_contexts := (so_contexts st)[i := zero_context]\<rparr>)"
proof -
  have d: "distinct (so_fds st)" using assms(1) by (simp add: sockets_ok_def)
  note fd = sockets_ok_nth [OF assms(1-3)]
  have "(if index < 0 \<and> socket \<noteq> - 1 then int (find_fd (so_fds st) socket) else index) = int i"
    using assms(4) find_fd_distinct [OF d assms(3)] fd(1) by auto
  then show ?thesis
    using fd assms(3) by (simp add: lo_server_del_socket_def cleanup_context_def Let_def)
qed

lemma del_socket_ok:
  assumes "sockets_ok st" "0 < i" "i < length (so_fds st)"
  shows "sockets_ok (st\<lparr>so_fds := take i (so_fds st) @ drop (Suc i) (so_fds st),
             so_sources := (so_sources st)[nat (so_fds st ! i) := NULL],
             so_contexts := (so_contexts st)[i := zero_context]\<rparr>)"
proof -
  obtain l fds i' where f: "so_fds st = l # fds" "i = Suc i'" using assms(2,3) by (cases "so_fds st"; cases i) auto
  have "distinct (take i (so_fds st) @ drop (Suc i) (so_fds st))"
    using assms set_take_disj_set_drop_if_distinct [of "so_fds st" i "Suc i"] by (auto simp: sockets_ok_def)
  moreover have "set (take i' fds @ drop (Suc i') fds) \<subseteq> set fds"
    by (auto dest: in_set_takeD in_set_dropD)
  ultimately show ?thesis using assms f by (fastforce simp: sockets_ok_def)
qed

section \<open>Properties\<close>

text \<open>
  Adding a new descriptor keeps the socket table well formed (capacity and arrays agree, no
  descriptor is listed twice and each connection has its slot in the array of sources): it is appended, every
  context stays with its socket, and the peer is stored under its number, in bounds, however the
  arrays have to grow.
\<close>

theorem add_socket_keeps_table:
  assumes "sockets_ok st" "0 \<le> socket" "socket \<notin> set (so_fds st)" "\<forall>k. can_alloc k"
  shows "\<exists>st'. lo_server_add_socket can_alloc st socket a = Some (int (length (so_fds st)), st') \<and> sockets_ok st' \<and>
    so_fds st' = so_fds st @ [socket] \<and> so_sources st' ! nat socket = Ref a \<and>
    take (so_alloc st) (so_contexts st') = so_contexts st"
proof -
  obtain st' where st: "lo_server_add_socket can_alloc st socket a = Some (int (length (so_fds st)), st')"
      "so_fds st' = so_fds st @ [socket]" "so_sources st' = (grow_sources (so_sources st) socket)[nat socket := Ref a]"
      "take (so_alloc st) (so_contexts st') = so_contexts st"
    using add_socket_eq [OF assms(1,2,4)] by blast
  have "socket < int (length (grow_sources (so_sources st) socket))"
    using assms(1,2) by (intro length_grow_sources) (simp_all add: sockets_ok_def)
  then show ?thesis
    using st add_socket_ok [OF assms st(1)] assms(2) by (intro exI [of _ st']) (simp add: nat_less_iff)
qed

text \<open>
  Removing a connection, by index or by descriptor, keeps the table well formed and closes the gap in
  the list of descriptors, but not in the array of contexts: the next socket moves down to the
  cleared context of the removed one, and every later one to the context of its predecessor. So each
  of them continues with the half-received data of another connection.
\<close>

theorem del_socket_shifts_contexts:
  assumes "sockets_ok st" "0 < i" "i < length (so_fds st)" "index = int i \<or> index < 0 \<and> sock = so_fds st ! i"
  shows "\<exists>st'. lo_server_del_socket st index sock = Some st' \<and> sockets_ok st' \<and>
    so_fds st' = take i (so_fds st) @ drop (Suc i) (so_fds st) \<and> so_sources st' ! nat (so_fds st ! i) = NULL \<and>
    (\<forall>j. i < j \<and> j < length (so_fds st) \<longrightarrow> so_fds st' ! (j - 1) = so_fds st ! j \<and>
       so_contexts st' ! (j - 1) = (if j - 1 = i then zero_context else so_contexts st ! (j - 1)))"
proof -
  let ?st = "st\<lparr>so_fds := take i (so_fds st) @ drop (Suc i) (so_fds st),
             so_sources := (so_sources st)[nat (so_fds st ! i) := NULL],
             so_contexts := (so_contexts st)[i := zero_context]\<rparr>"
  have s: "0 \<le> so_fds st ! i" "so_fds st ! i < int (length (so_sources st))" "length (so_fds st) \<le> length (so_contexts st)"
    using sockets_ok_nth [OF assms(1-3)] assms(1) by (simp_all add: sockets_ok_def)
  have "so_fds ?st ! (j - 1) = so_fds st ! j \<and>
       so_contexts ?st ! (j - 1) = (if j - 1 = i then zero_context else so_contexts st ! (j - 1))"
    if "i < j" "j < length (so_fds st)" for j
    using that assms(3) s(3) by (auto simp: nth_append)
  then show ?thesis
    using del_socket_eq [OF assms] del_socket_ok [OF assms(1-3)] s(1,2)
    by (intro exI [of _ ?st]) (simp add: nat_less_iff)
qed

text \<open>
  A round of \<open>poll\<close> does not stop at the first socket that gives a message. With two connections
  ready, the one with the lower index is served last and its result is what the call returns: a
  message the other one had just delivered is dropped.
\<close>

theorem second_ready_socket_drops_message:
  assumes "so_fds st = [l, a, b]" "l \<noteq> a" "l \<noteq> b" "a \<noteq> - 1" "b \<noteq> - 1" "3 \<le> length (so_contexts st)"
    and "pr_revents r = (\<lambda>i. if i = 0 then Rev_none else Rev_ready)"
    and "lo_server_recv_raw_stream_socket al (pr_rx r b) (so_contexts st ! 2) = Some rb" "\<not> rv_closed rb"
    and "lo_server_recv_raw_stream_socket al (pr_rx r a) (so_contexts st ! 1) = Some ra" "\<not> rv_closed ra"
  shows "poll_loop al can_alloc r 3 st NULL (- 1) =
    Some (Returned (rv_data ra) a (set_context 1 (rv_sc ra) (set_context 2 (rv_sc rb) st)))"
proof -
  have "0 < length (so_contexts st)" using assms(6) by linarith
  then show ?thesis using assms by (simp add: numeral_3_eq_3 numeral_2_eq_2 set_context_def Let_def)
qed

section \<open>Witnesses\<close>

text \<open>A listening socket and two connections, in which a byte of a message has come.\<close>

definition one_byte :: "byte \<Rightarrow> socket_context" where
  "one_byte c = \<lparr>sc_buffer = Ref (c # replicate 63 NUL), sc_size = 64, sc_msg_offset = 0, sc_read_offset = 1,
     sc_is_slip = 0, sc_slip_state = 0\<rparr>"

definition sample_sockets :: "unit sockets" where
  "sample_sockets = \<lparr>so_fds = [3, 5, 6], so_alloc = 4,
     so_contexts = [zero_context, one_byte (CHR ''a''), one_byte (CHR ''b''), zero_context], so_sources = replicate 8 NULL\<rparr>"

lemma sample_sockets_ok: "sockets_ok sample_sockets"
  by (simp add: sockets_ok_def sample_sockets_def)

theorem add_socket_keeps_table_witness:
  "\<exists>st'. lo_server_add_socket (\<lambda>_. True) sample_sockets 9 () = Some (3, st') \<and> so_fds st' = [3, 5, 6, 9]"
proof -
  have f: "so_fds sample_sockets = [3, 5, 6]" by (simp add: sample_sockets_def)
  show ?thesis
    using add_socket_keeps_table [OF sample_sockets_ok, of 9 "\<lambda>_. True" "()"] by (auto simp: f)
qed

text \<open>Removing the first connection leaves the second one with an empty context.\<close>

theorem del_socket_shifts_contexts_witness:
  "\<exists>st'. lo_server_del_socket sample_sockets 1 5 = Some st' \<and> so_fds st' ! 1 = 6 \<and> so_contexts st' ! 1 = zero_context"
proof -
  have f: "so_fds sample_sockets = [3, 5, 6]" by (simp add: sample_sockets_def)
  have "0 < (1::nat)" "1 < length (so_fds sample_sockets)" "1 = int 1 \<or> 1 < (0::int) \<and> 5 = so_fds sample_sockets ! 1"
    by (simp_all add: f)
  from del_socket_shifts_contexts [OF sample_sockets_ok this]
  obtain st' where "lo_server_del_socket sample_sockets 1 5 = Some st'"
    and all: "\<forall>j. 1 < j \<and> j < length (so_fds sample_sockets) \<longrightarrow> so_fds st' ! (j - 1) = so_fds sample_sockets ! j \<and>
       so_contexts st' ! (j - 1) = (if j - 1 = 1 then zero_context else so_contexts sample_sockets ! (j - 1))"
    by blast
  moreover have "so_fds st' ! 1 = 6 \<and> so_contexts st' ! 1 = zero_context" using spec [OF all, of 2] by (simp add: f)
  ultimately show ?thesis by blast
qed

text \<open>Both connections get a message, and only that of the first is returned.\<close>

theorem second_ready_socket_drops_message_witness:
  "\<exists>st r. (\<exists>rb. lo_server_recv_raw_stream_socket al_zero (pr_rx r 6) (so_contexts st ! 2) = Some rb \<and> rv_data rb = Ref ''b'') \<and>
     (\<exists>st'. poll_loop al_zero (\<lambda>_. True) r 3 (st :: unit sockets) NULL (- 1) = Some (Returned (Ref ''a'') 5 st'))"
proof -
  let ?r = "\<lparr>pr_revents = (\<lambda>i. if i = 0 then Rev_none else Rev_ready), pr_accept = (7, ()),
      pr_rx = (\<lambda>fd. [Rx_data (frame (if fd = 5 then ''a'' else ''b'')), Rx_again])\<rparr>"
  let ?st = "sample_sockets\<lparr>so_contexts := replicate 4 zero_context\<rparr>"
  have recv: "\<exists>rv. lo_server_recv_raw_stream_socket al_zero [Rx_data (frame [c]), Rx_again] zero_context = Some rv \<and>
      rv_data rv = Ref [c] \<and> \<not> rv_closed rv" for c
  proof -
    have z: "context_ok zero_context" "counted zero_context" "content zero_context = []"
      by (simp_all add: context_ok_def zero_context_def counted_def content_def)
    have w: "whole_message (frame [c])" using frame_whole [of "[c]" "[]"] by simp
    have "hd (frame [c]) = NUL" by (simp add: frame_def be32_def byte_of_high byte_of_def char_of_def)
    moreover have "32 \<le> free_space al_zero zero_context" using z by (intro free_space_min) (simp_all add: zero_context_def)
    ultimately obtain rv where rv: "lo_server_recv_raw_stream_socket al_zero [Rx_data (frame [c]), Rx_again] zero_context = Some rv"
        "\<not> rv_closed rv" "\<exists>m. rv_data rv = Ref m \<and> m \<noteq> [] \<and> length m < 2 ^ 32 \<and> frame [c] = frame m @ content (rv_sc rv)"
      using receive_up_to_space [of zero_context al_zero "frame [c]"] z w
      by (auto simp: whole_message_def zero_context_def)
    then obtain m where "rv_data rv = Ref m" "length m < 2 ^ 32" "frame [c] @ [] = frame m @ content (rv_sc rv)" by auto
    then have "rv_data rv = Ref [c]" using frame_prefix [of "[c]" "[]" m "content (rv_sc rv)"] by simp
    then show ?thesis using rv by blast
  qed
  obtain ra where ra: "lo_server_recv_raw_stream_socket al_zero (pr_rx ?r 5) (so_contexts ?st ! 1) = Some ra"
      "rv_data ra = Ref ''a''" "\<not> rv_closed ra"
    using recv [of "CHR ''a''"] by (auto simp del: lo_server_recv_raw_stream_socket.simps)
  obtain rb where rb: "lo_server_recv_raw_stream_socket al_zero (pr_rx ?r 6) (so_contexts ?st ! 2) = Some rb"
      "rv_data rb = Ref ''b''" "\<not> rv_closed rb"
    using recv [of "CHR ''b''"] by (auto simp del: lo_server_recv_raw_stream_socket.simps)
  have "poll_loop al_zero (\<lambda>_. True) ?r 3 ?st NULL (- 1) =
      Some (Returned (rv_data ra) 5 (set_context 1 (rv_sc ra) (set_context 2 (rv_sc rb) ?st)))"
    by (rule second_ready_socket_drops_message [where l = 3, OF _ _ _ _ _ _ _ rb(1,3) ra(1,3)])
      (simp_all add: sample_sockets_def)
  then have "poll_loop al_zero (\<lambda>_. True) ?r 3 ?st NULL (- 1) =
      Some (Returned (Ref ''a'') 5 (set_context 1 (rv_sc ra) (set_context 2 (rv_sc rb) ?st)))" unfolding ra(2) .
  with rb(1,2) show ?thesis by (intro exI [of _ ?st] exI [of _ ?r] conjI exI [of _ rb] exI)
qed

end
