(* ===== verification/Url.thy ===== *)
theory Url
  imports Prelude
begin

text \<open>
  The URL functions of \<open>src/address.c\<close>: \<open>lo_url_get_protocol\<close>, \<open>lo_url_get_protocol_id\<close>,
  \<open>lo_url_get_hostname\<close>, \<open>lo_url_get_port\<close> and \<open>lo_url_get_path\<close>. They are sequences of \<open>sscanf\<close>
  calls whose result is used as a truth value; the model has the conversions these formats use.
\<close>

section \<open>\<open>sscanf\<close>\<close>

text \<open>
  A format is a list of directives: an ordinary character, a conversion \<open>%[set]\<close> (the flag says
  that it is assigned, the set is a predicate) or \<open>%s\<close>.
\<close>

datatype directive = Lit byte | Set bool "byte \<Rightarrow> bool" | Str

text \<open>
  An input failure before any conversion gives EOF. The standard counts suppressed conversions there,
  some C libraries (glibc) only assigned ones: \<open>strict\<close> says which.
\<close>

datatype scan_result = EOF | Count nat

definition input_failure :: "bool \<Rightarrow> nat \<Rightarrow> byte list option \<Rightarrow> scan_result" where
  "input_failure strict convs out =
     (case out of
        Some _ \<Rightarrow> Count 1
      | None \<Rightarrow> if strict \<and> convs > 0 then Count 0 else EOF)"

definition assigned :: "byte list option \<Rightarrow> scan_result" where
  "assigned out = (case out of Some _ \<Rightarrow> Count 1 | None \<Rightarrow> Count 0)"

definition is_space :: "byte \<Rightarrow> bool" where
  "is_space c \<longleftrightarrow> c = CHR '' '' \<or> (9 \<le> (of_char c :: nat) \<and> (of_char c :: nat) \<le> 13)"

fun sscanf :: "bool \<Rightarrow> directive list \<Rightarrow> byte list \<Rightarrow> nat \<Rightarrow> byte list option \<Rightarrow> scan_result \<times> byte list option" where
  "sscanf strict [] s convs out = (assigned out, out)"
| "sscanf strict (Lit c # ds) s convs out =
     (case s of
        [] \<Rightarrow> (input_failure strict convs out, out)
      | b # t \<Rightarrow> if b = c then sscanf strict ds t convs out else (assigned out, out))"
| "sscanf strict (Set keep P # ds) s convs out =
     (if s = [] then (input_failure strict convs out, out)
      else
        let tok = takeWhile P s in
        if tok = [] then (assigned out, out)
        else sscanf strict ds (dropWhile P s) (Suc convs) (if keep then Some tok else out))"
| "sscanf strict (Str # ds) s convs out =
     (let t = dropWhile is_space s in
      if t = [] then (input_failure strict convs out, out)
      else sscanf strict ds (dropWhile (\<lambda>c. \<not> is_space c) t) (Suc convs)
             (Some (takeWhile (\<lambda>c. \<not> is_space c) t)))"

text \<open>
  \<open>if (sscanf(url, fmt, buf)) return buf;\<close>: EOF is -1, hence true, and the buffer is then returned
  without having been written (\<open>None\<close>).
\<close>

definition lits :: "byte list \<Rightarrow> directive list" where "lits s = map Lit s"

fun try_formats :: "bool \<Rightarrow> directive list list \<Rightarrow> byte list \<Rightarrow> byte list ptr option" where
  "try_formats strict [] url = Some NULL"
| "try_formats strict (fmt # fmts) url =
     (case sscanf strict fmt url 0 None of
        (Count 0, _) \<Rightarrow> try_formats strict fmts url
      | (_, Some buf) \<Rightarrow> Some (Ref buf)
      | (_, None) \<Rightarrow> None)"

abbreviation none_of :: "byte list \<Rightarrow> byte \<Rightarrow> bool" where
  "none_of cs \<equiv> \<lambda>c. \<not> List.member cs c"

abbreviation digit :: "byte \<Rightarrow> bool" where
  "digit \<equiv> \<lambda>c. List.member ''0123456789'' c"

section \<open>The URL functions\<close>

text \<open>\<open>lo_url_get_protocol\<close>: a scan of \<open>"osc://%s"\<close> that assigns, or hits EOF, means UDP.\<close>

definition lo_url_get_protocol :: "bool \<Rightarrow> byte list ptr \<Rightarrow> byte list ptr option" where
  "lo_url_get_protocol strict url =
     (case url of NULL \<Rightarrow> Some NULL
      | Ref u \<Rightarrow>
          if fst (sscanf strict (lits ''osc://'' @ [Str]) u 0 None) \<noteq> Count 0 then Some (Ref ''udp'')
          else (case sscanf strict (lits ''osc.'' @ [Set True (none_of '':/['')]) u 0 None of
                  (Count 0, _) \<Rightarrow> Some NULL
                | (_, Some p) \<Rightarrow> Some (Ref p)
                | (_, None) \<Rightarrow> None))"

definition starts_with :: "byte list \<Rightarrow> byte list \<Rightarrow> bool" where
  "starts_with url pre \<longleftrightarrow> take (length pre) url = pre"

definition lo_url_get_protocol_id :: "byte list ptr \<Rightarrow> int" where
  "lo_url_get_protocol_id url =
     (case url of NULL \<Rightarrow> - 1
      | Ref u \<Rightarrow>
          if starts_with u ''osc:'' then 1
          else if starts_with u ''osc.udp:'' then 1
          else if starts_with u ''osc.tcp:'' then 4
          else if starts_with u ''osc.unix:'' then 2
          else - 1)"

definition hostname_formats :: "directive list list" where
  "hostname_formats =
     [lits ''osc://'' @ [Set True (none_of ''[:/'')],
      lits ''osc.'' @ [Set False (none_of '':/'')] @ lits ''://['' @ [Set True (none_of '']/'')] @ lits '']'',
      lits ''osc.'' @ [Set False (none_of '':/'')] @ lits ''://'' @ [Set True (none_of ''[:/'')]]"

definition lo_url_get_hostname :: "bool \<Rightarrow> byte list \<Rightarrow> byte list ptr option" where
  "lo_url_get_hostname strict url = try_formats strict hostname_formats url"

definition port_formats :: "directive list list" where
  "port_formats =
     [lits ''osc://'' @ [Set False (none_of '':'')] @ lits '':'' @ [Set True digit],
      lits ''osc.'' @ [Set False (none_of '':'')] @ lits ''://'' @ [Set False (none_of '':'')] @ lits '':'' @ [Set True digit],
      lits ''osc://['' @ [Set False (none_of '']'')] @ lits '']:'' @ [Set True digit],
      lits ''osc.'' @ [Set False (none_of '':'')] @ lits ''://['' @ [Set False (none_of '']'')] @ lits '']:'' @ [Set True digit],
      lits ''osc://:'' @ [Set True digit],
      lits ''osc.'' @ [Set False (none_of '':'')] @ lits ''://:'' @ [Set True digit]]"

definition lo_url_get_port :: "bool \<Rightarrow> byte list \<Rightarrow> byte list ptr option" where
  "lo_url_get_port strict url = try_formats strict port_formats url"

text \<open>
  \<open>lo_url_get_path\<close>: the second scan is compared with 1, the last two strip a trailing slash.
\<close>

definition strip_slash :: "byte list \<Rightarrow> byte list" where
  "strip_slash p = (if p \<noteq> [] \<and> last p = CHR ''/'' then butlast p else p)"

definition lo_url_get_path :: "bool \<Rightarrow> byte list \<Rightarrow> byte list ptr option" where
  "lo_url_get_path strict url =
     (case sscanf strict (lits ''osc://'' @ [Set False (none_of '':'')] @ lits '':'' @ [Set False digit, Str]) url 0 None of
        (Count 0, _) \<Rightarrow>
          (case sscanf strict (lits ''osc.'' @ [Set False (none_of '':'')] @ lits ''://'' @ [Set False (none_of '':'')] @
                    lits '':'' @ [Set False digit, Str]) url 0 None of
             (Count (Suc 0), Some p) \<Rightarrow> Some (Ref p)
           | _ \<Rightarrow>
               (case try_formats strict
                       [lits ''osc.unix://'' @ [Set False (none_of ''/''), Str],
                        lits ''osc.'' @ [Set False (none_of '':'')] @ lits ''://'' @ [Str]] url of
                  None \<Rightarrow> None
                | Some NULL \<Rightarrow> Some NULL
                | Some (Ref p) \<Rightarrow> Some (Ref (strip_slash p))))
      | (_, Some p) \<Rightarrow> Some (Ref p)
      | (_, None) \<Rightarrow> None)"

end
