(* ===== verification/Address.thy ===== *)
theory Address
  imports Url
begin

text \<open>
  The address object of \<open>src/address.c\<close>: construction, also from a URL, printing, copying and freeing,
  options and time to live, name resolution and the choice of an interface. What the operating
  system answers (\<open>getaddrinfo\<close>, \<open>getnameinfo\<close>, \<open>getifaddrs\<close>, \<open>inet_pton\<close>) is an argument; what is
  asked of it is a list of system calls.
\<close>

section \<open>The object\<close>

datatype family = AF_INET | AF_INET6 | AF_OTHER

record addrinfo =
  ai_family :: family
  ai_addr :: "byte list"

record lo_inaddr =
  in_addr :: "byte list"
  in_iface :: "byte list ptr"

definition LO_SLIP :: u32 where "LO_SLIP = 1"
definition LO_NODELAY :: u32 where "LO_NODELAY = 2"

unbundle bit_operations_syntax

text \<open>
  \<open>a_ai\<close> is the list of addresses from \<open>ai\<close> on (empty: NULL), \<open>a_ai_first\<close> the whole list;
  \<open>a_source\<close> is what \<open>source_server\<close> knows of the sender: NULL when there is no server or no
  address. The bytes of \<open>in_addr\<close> are the \<open>size\<close> first ones.
\<close>

record lo_address =
  a_host :: "byte list ptr"
  a_socket :: int
  a_ownsocket :: bool
  a_port :: "byte list ptr"
  a_protocol :: "proto option"
  a_flags :: u32
  a_ai :: "addrinfo list"
  a_ai_first :: "addrinfo list"
  a_errnum :: int
  a_errstr :: "byte list ptr"
  a_ttl :: int
  a_addr :: lo_inaddr
  a_source :: "(int + byte list \<times> byte list) ptr"

text \<open>\<open>memset\<close> to zero; the protocol number 0 is no protocol.\<close>

definition zero_address :: lo_address where
  "zero_address = \<lparr>a_host = NULL, a_socket = 0, a_ownsocket = False, a_port = NULL, a_protocol = None,
     a_flags = 0, a_ai = [], a_ai_first = [], a_errnum = 0, a_errstr = NULL, a_ttl = 0,
     a_addr = \<lparr>in_addr = [], in_iface = NULL\<rparr>, a_source = NULL\<rparr>"

text \<open>System calls.\<close>

datatype os_call =
    C_socket proto family
  | C_connect int
  | C_send int "byte list"
  | C_sendto int "byte list" "byte list"
  | C_broadcast int
  | C_nodelay int int
  | C_multicast_if int "byte list"
  | C_multicast_ttl int byte
  | C_shutdown int
  | C_close int

section \<open>Construction\<close>

definition lo_address_new_with_proto ::
  "alloc \<Rightarrow> proto option \<Rightarrow> byte list ptr \<Rightarrow> byte list ptr \<Rightarrow> lo_address ptr" where
  "lo_address_new_with_proto al proto host port =
     (case proto of None \<Rightarrow> NULL
      | Some p \<Rightarrow>
          if al At_struct 0 = None then NULL
          else
            let h = (case (p, host) of (LO_UNIX, _) \<Rightarrow> ''localhost'' | (_, Ref h) \<Rightarrow> h | (_, NULL) \<Rightarrow> ''localhost'')
            in Ref (zero_address\<lparr>a_socket := - 1, a_ownsocket := True, a_protocol := proto,
                 a_host := strdup al (Ref h), a_port := strdup al port, a_ttl := - 1\<rparr>))"

definition lo_address_new :: "alloc \<Rightarrow> byte list ptr \<Rightarrow> byte list ptr \<Rightarrow> lo_address ptr" where
  "lo_address_new al host port = lo_address_new_with_proto al (Some LO_UDP) host port"

definition lo_address_new_from_url :: "bool \<Rightarrow> alloc \<Rightarrow> byte list ptr \<Rightarrow> lo_address ptr option" where
  "lo_address_new_from_url strict al url =
     (case url of NULL \<Rightarrow> Some NULL
      | Ref u \<Rightarrow>
          if u = [] then Some NULL
          else (case proto_of (lo_url_get_protocol_id url) of
            Some LO_UNIX \<Rightarrow> do {
              port \<leftarrow> lo_url_get_path strict u;
              Some (lo_address_new_with_proto al (Some LO_UNIX) NULL port)
            }
          | Some p \<Rightarrow> do {
              host \<leftarrow> lo_url_get_hostname strict u;
              port \<leftarrow> lo_url_get_port strict u;
              Some (lo_address_new_with_proto al (Some p) host port)
            }
          | None \<Rightarrow> do { _ \<leftarrow> lo_url_get_protocol strict url; Some NULL }))"

text \<open>
  The address of a received message has no host until it is asked for: then \<open>getnameinfo\<close> is used
  when the server is UDP and knows the sender. The error it may give is thrown.
\<close>

definition lo_address_resolve_source :: "lo_address \<Rightarrow> int option \<times> lo_address" where
  "lo_address_resolve_source a =
     (case (a_protocol a = Some LO_UDP, a_source a) of
        (True, Ref (Inl err)) \<Rightarrow> (Some err, a)
      | (True, Ref (Inr (host, port))) \<Rightarrow> (None, a\<lparr>a_host := Ref host, a_port := Ref port\<rparr>)
      | _ \<Rightarrow> (None, a\<lparr>a_host := Ref [], a_port := Ref []\<rparr>))"

definition resolved :: "lo_address \<Rightarrow> lo_address" where
  "resolved a = (if a_host a = NULL then snd (lo_address_resolve_source a) else a)"

definition lo_address_get_hostname :: "lo_address \<Rightarrow> byte list ptr \<times> lo_address" where
  "lo_address_get_hostname a = (a_host (resolved a), resolved a)"

definition lo_address_get_port :: "lo_address \<Rightarrow> byte list ptr \<times> lo_address" where
  "lo_address_get_port a = (a_port (resolved a), resolved a)"

definition lo_address_get_protocol :: "lo_address ptr \<Rightarrow> proto option" where
  "lo_address_get_protocol a = (case a of NULL \<Rightarrow> None | Ref a \<Rightarrow> a_protocol a)"

definition get_protocol_name :: "proto \<Rightarrow> byte list" where
  "get_protocol_name p = (case p of LO_UDP \<Rightarrow> ''udp'' | LO_TCP \<Rightarrow> ''tcp'' | LO_UNIX \<Rightarrow> ''unix'')"

text \<open>Printing a NULL string is undefined. A UNIX address loses the closing slash.\<close>

definition lo_address_get_url :: "lo_address \<Rightarrow> byte list ptr option" where
  "lo_address_get_url a =
     (let a = resolved a in
      case a_host a of NULL \<Rightarrow> Some NULL
      | Ref host \<Rightarrow>
          (case (a_protocol a, a_port a) of
             (Some p, Ref port) \<Rightarrow>
               let quoted = (if List.member host (CHR '':'') then ''['' @ host @ '']'' else host);
                   buf = ''osc.'' @ get_protocol_name p @ ''://'' @ quoted @ '':'' @ port @ ''/''
               in Some (Ref (if p = LO_UNIX then butlast buf else buf))
           | _ \<Rightarrow> None))"

section \<open>Freeing and copying\<close>

definition lo_address_free_mem :: "lo_address \<Rightarrow> lo_address" where
  "lo_address_free_mem a = zero_address\<lparr>a_socket := - 1\<rparr>"

text \<open>The system calls of freeing an address.\<close>

definition lo_address_free :: "lo_address ptr \<Rightarrow> os_call list" where
  "lo_address_free ap =
     (case ap of NULL \<Rightarrow> []
      | Ref a \<Rightarrow> if a_socket a \<noteq> - 1 \<and> a_ownsocket a then [C_shutdown (a_socket a), C_close (a_socket a)] else [])"

definition lo_address_copy :: "alloc \<Rightarrow> lo_address \<Rightarrow> lo_address" where
  "lo_address_copy al src = zero_address\<lparr>a_socket := a_socket src, a_host := strdup al (a_host src),
     a_port := strdup al (a_port src), a_protocol := a_protocol src, a_ttl := a_ttl src,
     a_addr := (a_addr src)\<lparr>in_iface := strdup al (in_iface (a_addr src))\<rparr>\<rparr>"

text \<open>From a socket address, with what \<open>getnameinfo\<close> says of it.\<close>

definition lo_address_init_with_sockaddr ::
  "lo_address \<Rightarrow> (byte list \<times> byte list) option \<Rightarrow> int \<Rightarrow> proto \<Rightarrow> lo_address" where
  "lo_address_init_with_sockaddr a names sock prot =
     (let a1 = lo_address_free_mem a;
          a2 = (case names of None \<Rightarrow> a1\<lparr>a_host := NULL, a_port := NULL\<rparr>
                | Some (host, port) \<Rightarrow> a1\<lparr>a_host := Ref host, a_port := Ref port\<rparr>)
      in a2\<lparr>a_socket := sock, a_protocol := Some prot\<rparr>)"

definition lo_address_errno :: "lo_address \<Rightarrow> int" where
  "lo_address_errno a = a_errnum a"

definition lo_address_errstr :: "(int \<Rightarrow> byte list ptr) \<Rightarrow> lo_address \<Rightarrow> byte list" where
  "lo_address_errstr strerror a =
     (case a_errstr a of
        Ref s \<Rightarrow> s
      | NULL \<Rightarrow> if a_errnum a = 0 then ''Success''
                else (case strerror (a_errnum a) of Ref msg \<Rightarrow> msg | NULL \<Rightarrow> ''unknown error''))"

section \<open>Options\<close>

definition lo_address_set_ttl :: "lo_address \<Rightarrow> int \<Rightarrow> lo_address" where
  "lo_address_set_ttl t ttl = (if a_protocol t = Some LO_UDP then t\<lparr>a_ttl := ttl\<rparr> else t)"

definition lo_address_get_ttl :: "lo_address \<Rightarrow> int" where
  "lo_address_get_ttl t = a_ttl t"

text \<open>The socket option is set from the flags before they change.\<close>

definition lo_address_set_flags :: "lo_address \<Rightarrow> u32 \<Rightarrow> os_call list \<times> lo_address" where
  "lo_address_set_flags t flags =
     ((if (a_flags t AND LO_NODELAY) \<noteq> (flags AND LO_NODELAY) \<and> a_socket t > 0
       then [C_nodelay (a_socket t) (if a_flags t AND LO_NODELAY \<noteq> 0 then 1 else 0)] else []),
      t\<lparr>a_flags := flags\<rparr>)"

definition lo_address_set_tcp_nodelay :: "lo_address \<Rightarrow> int \<Rightarrow> int \<times> os_call list \<times> lo_address" where
  "lo_address_set_tcp_nodelay t enable =
     ((if a_flags t AND LO_NODELAY \<noteq> 0 then 1 else 0),
      lo_address_set_flags t (if enable \<noteq> 0 then a_flags t OR LO_NODELAY else a_flags t AND NOT LO_NODELAY))"

definition lo_address_set_stream_slip :: "lo_address \<Rightarrow> int \<Rightarrow> int \<times> os_call list \<times> lo_address" where
  "lo_address_set_stream_slip t enable =
     ((if a_flags t AND LO_SLIP \<noteq> 0 then 1 else 0),
      lo_address_set_flags t (if enable \<noteq> 0 then a_flags t OR LO_SLIP else a_flags t AND NOT LO_SLIP))"

section \<open>Resolution\<close>

text \<open>\<open>getaddrinfo\<close> gives an error with its description, or a list that is not empty.\<close>

type_synonym resolver = "proto \<Rightarrow> byte list ptr \<Rightarrow> byte list ptr \<Rightarrow> (int \<times> byte list) + addrinfo list"

definition lo_address_resolve :: "resolver \<Rightarrow> lo_address \<Rightarrow> int \<times> lo_address" where
  "lo_address_resolve getaddrinfo a =
     (case a_protocol a of
        None \<Rightarrow> (0, a)
      | Some p \<Rightarrow>
          if p = LO_UNIX then (0, a)
          else
            let a1 = resolved a in
            (case getaddrinfo p (a_host a1) (a_port a1) of
               Inl (err, str) \<Rightarrow> (- 1, a1\<lparr>a_errnum := err, a_errstr := Ref str, a_ai := [], a_ai_first := []\<rparr>)
             | Inr ai \<Rightarrow> (0, a1\<lparr>a_ai := ai, a_ai_first := ai\<rparr>)))"

section \<open>The choice of an interface\<close>

record ifaddr =
  ifa_name :: "byte list ptr"
  ifa_addr :: "(family \<times> byte list) ptr"

text \<open>
  Does the entry decide the search? \<open>ip\<close> holds the bytes of the address asked for (IPv4, and IPv6
  where it is built in), \<open>iface\<close> the name. The result is the address to store.
\<close>

definition ifaddr_match :: "bool \<Rightarrow> family \<Rightarrow> byte list ptr \<Rightarrow> byte list ptr \<Rightarrow> ifaddr \<Rightarrow> byte list option" where
  "ifaddr_match ipv6 fam iface ip ifa =
     (case ifa_addr ifa of
        NULL \<Rightarrow> None
      | Ref (f, addr) \<Rightarrow>
          if (case ip of NULL \<Rightarrow> False
              | Ref bs \<Rightarrow> (f = AF_INET \<and> fam = AF_INET \<or> ipv6 \<and> f = AF_INET6 \<and> fam = AF_INET6) \<and> addr = bs)
          then Some addr
          else if iface \<noteq> NULL \<and> f = fam \<and> ifa_name ifa = iface \<and> (fam = AF_INET \<or> ipv6 \<and> fam = AF_INET6)
          then Some addr
          else None)"

fun find_ifaddr :: "bool \<Rightarrow> family \<Rightarrow> byte list ptr \<Rightarrow> byte list ptr \<Rightarrow> ifaddr list \<Rightarrow> (ifaddr \<times> byte list) option" where
  "find_ifaddr ipv6 fam iface ip [] = None"
| "find_ifaddr ipv6 fam iface ip (ifa # ifas) =
     (case ifaddr_match ipv6 fam iface ip ifa of
        Some addr \<Rightarrow> Some (ifa, addr)
      | None \<Rightarrow> find_ifaddr ipv6 fam iface ip ifas)"

text \<open>
  The branch for \<open>getifaddrs\<close> (\<open>None\<close>: it failed); \<open>pton\<close> is what \<open>inet_pton\<close> returns for the string
  \<open>ip\<close>, and the bytes it stores.
\<close>

definition lo_inaddr_find_iface ::
  "bool \<Rightarrow> ifaddr list option \<Rightarrow> lo_inaddr \<Rightarrow> family \<Rightarrow> byte list ptr \<Rightarrow> (int \<times> byte list) ptr \<Rightarrow> int \<times> lo_inaddr" where
  "lo_inaddr_find_iface ipv6 ifas t fam iface pton =
     (let (rc, ip) = (case pton of NULL \<Rightarrow> (1, NULL) | Ref (rc, bs) \<Rightarrow> (rc, Ref bs)) in
      if rc \<noteq> 1 then ((if rc < 0 then 3 else 4), t)
      else case ifas of
        None \<Rightarrow> (5, t)
      | Some l \<Rightarrow>
          (case find_ifaddr ipv6 fam iface ip l of
             None \<Rightarrow> (1, t)
           | Some (ifa, addr) \<Rightarrow>
               (0, t\<lparr>in_addr := addr, in_iface := (if ifa_name ifa \<noteq> NULL then ifa_name ifa else in_iface t)\<rparr>)))"

definition lo_address_set_iface ::
  "resolver \<Rightarrow> bool \<Rightarrow> ifaddr list option \<Rightarrow> lo_address \<Rightarrow> byte list ptr \<Rightarrow> (family \<Rightarrow> (int \<times> byte list) ptr) \<Rightarrow>
   int \<times> lo_address" where
  "lo_address_set_iface getaddrinfo ipv6 ifas t iface pton =
     (let t1 = (if a_ai t = [] then snd (lo_address_resolve getaddrinfo t) else t) in
      case a_ai t1 of
        [] \<Rightarrow> (2, t1)
      | ai # _ \<Rightarrow>
          (case lo_inaddr_find_iface ipv6 ifas (a_addr t1) (ai_family ai) iface (pton (ai_family ai)) of
             (r, addr) \<Rightarrow> (r, t1\<lparr>a_addr := addr\<rparr>)))"

definition lo_address_get_iface :: "lo_address ptr \<Rightarrow> byte list ptr" where
  "lo_address_get_iface t = (case t of NULL \<Rightarrow> NULL | Ref a \<Rightarrow> in_iface (a_addr a))"

section \<open>URLs read back\<close>

lemma takeWhile_stop:
  "(\<And>c. c \<in> set h \<Longrightarrow> P c) \<Longrightarrow> \<not> P d \<Longrightarrow> takeWhile P (h @ d # r) = h"
  "(\<And>c. c \<in> set h \<Longrightarrow> P c) \<Longrightarrow> \<not> P d \<Longrightarrow> dropWhile P (h @ d # r) = d # r"
  by (induction h) auto

text \<open>The name of a host that needs no quotes, and a numerical port.\<close>

definition host_ok :: "byte list \<Rightarrow> bool" where
  "host_ok h \<longleftrightarrow> h \<noteq> [] \<and> (\<forall>c \<in> set h. c \<noteq> CHR '':'' \<and> c \<noteq> CHR ''/'' \<and> c \<noteq> CHR ''['')"

definition port_ok :: "byte list \<Rightarrow> bool" where
  "port_ok p \<longleftrightarrow> p \<noteq> [] \<and> (\<forall>c \<in> set p. digit c)"

definition url_of :: "proto \<Rightarrow> byte list \<Rightarrow> byte list \<Rightarrow> byte list" where
  "url_of p host port = ''osc.'' @ get_protocol_name p @ ''://'' @ host @ '':'' @ port @ ''/''"

lemma get_url_plain:
  assumes "a_host a = Ref host" "a_port a = Ref port" "a_protocol a = Some p" "p \<noteq> LO_UNIX" "host_ok host"
  shows "lo_address_get_url a = Some (Ref (url_of p host port))"
  using assms by (auto simp: lo_address_get_url_def resolved_def url_of_def host_ok_def Let_def)

lemma url_protocol:
  "p \<noteq> LO_UNIX \<Longrightarrow> proto_of (lo_url_get_protocol_id (Ref (url_of p host port))) = Some p"
  by (cases p) (simp_all add: lo_url_get_protocol_id_def starts_with_def url_of_def get_protocol_name_def proto_of_def)

lemma url_hostname:
  assumes "p \<noteq> LO_UNIX" "host_ok host"
  shows "lo_url_get_hostname strict (url_of p host port) = Some (Ref host)"
proof -
  obtain c h where h: "host = c # h" "c \<noteq> CHR '':''" "c \<noteq> CHR ''/''" "c \<noteq> CHR ''[''"
    using assms(2) by (cases host) (auto simp: host_ok_def)
  have t: "takeWhile (none_of ''[:/'') (host @ CHR '':'' # r) = host"
    "dropWhile (none_of ''[:/'') (host @ CHR '':'' # r) = CHR '':'' # r" for r
    using assms(2) by (intro takeWhile_stop; simp add: host_ok_def)+
  show ?thesis
    using assms(1) h t [unfolded h]
    by (cases p) (simp_all add: lo_url_get_hostname_def hostname_formats_def lits_def url_of_def
        get_protocol_name_def assigned_def)
qed

lemma url_port:
  assumes "p \<noteq> LO_UNIX" "host_ok host" "port_ok port"
  shows "lo_url_get_port strict (url_of p host port) = Some (Ref port)"
proof -
  obtain c h where h: "host = c # h" "c \<noteq> CHR '':''"
    using assms(2) by (cases host) (auto simp: host_ok_def)
  obtain d q where q: "port = d # q" "digit d" using assms(3) by (cases port) (auto simp: port_ok_def)
  have t: "takeWhile (none_of '':'') (host @ CHR '':'' # r) = host"
    "dropWhile (none_of '':'') (host @ CHR '':'' # r) = CHR '':'' # r" for r
    using assms(2) by (intro takeWhile_stop; simp add: host_ok_def)+
  have u: "takeWhile digit (port @ CHR ''/'' # r) = port" for r
    using assms(3) by (intro takeWhile_stop) (auto simp: port_ok_def)
  show ?thesis
    using assms(1) h t [unfolded h] u [unfolded q] q
    by (cases p) (simp_all add: lo_url_get_port_def port_formats_def lits_def url_of_def
        get_protocol_name_def assigned_def)
qed

text \<open>A host with a colon, as an IPv6 address has, is quoted.\<close>

definition ipv6_url :: "proto \<Rightarrow> byte list \<Rightarrow> byte list \<Rightarrow> byte list" where
  "ipv6_url p host port = ''osc.'' @ get_protocol_name p @ ''://['' @ host @ '']:'' @ port @ ''/''"

definition ipv6_host :: "byte list \<Rightarrow> bool" where
  "ipv6_host h \<longleftrightarrow> (\<forall>c \<in> set h. c \<noteq> CHR ''/'' \<and> c \<noteq> CHR '']'')"

lemma get_url_quoted:
  assumes "a_host a = Ref (h1 @ CHR '':'' # h2)" "a_port a = Ref port" "a_protocol a = Some p" "p \<noteq> LO_UNIX"
  shows "lo_address_get_url a = Some (Ref (ipv6_url p (h1 @ CHR '':'' # h2) port))"
  using assms by (simp add: lo_address_get_url_def resolved_def ipv6_url_def Let_def)

lemma url_hostname_ipv6:
  assumes "p \<noteq> LO_UNIX" "ipv6_host host" "host \<noteq> []"
  shows "lo_url_get_hostname strict (ipv6_url p host port) = Some (Ref host)"
proof -
  have t: "takeWhile (none_of '']/'') (host @ CHR '']'' # r) = host"
    "dropWhile (none_of '']/'') (host @ CHR '']'' # r) = CHR '']'' # r" for r
    using assms(2) by (intro takeWhile_stop; simp add: ipv6_host_def)+
  show ?thesis
    using assms(1,3) t
    by (cases p) (simp_all add: lo_url_get_hostname_def hostname_formats_def lits_def ipv6_url_def
        get_protocol_name_def assigned_def)
qed

text \<open>
  The scan for a plain host comes first, with the text up to the first colon for a host; digits behind
  that colon are then taken for the port.
\<close>

lemma url_port_ipv6:
  assumes "p \<noteq> LO_UNIX" "ipv6_host (h1 @ CHR '':'' # h2)" "\<forall>c \<in> set h1. c \<noteq> CHR '':''" "port_ok port"
  shows "lo_url_get_port strict (ipv6_url p (h1 @ CHR '':'' # h2) port) =
    Some (Ref (if takeWhile digit h2 = [] then port else takeWhile digit h2))"
proof -
  have t: "takeWhile (none_of '':'') (h1 @ CHR '':'' # r) = h1"
    "dropWhile (none_of '':'') (h1 @ CHR '':'' # r) = CHR '':'' # r" for r
    using assms(3) by (auto intro!: takeWhile_stop)
  have u: "takeWhile (none_of '']'') (h1 @ CHR '':'' # h2 @ CHR '']'' # r) = h1 @ CHR '':'' # h2"
    "dropWhile (none_of '']'') (h1 @ CHR '':'' # h2 @ CHR '']'' # r) = CHR '']'' # r" for r
    using takeWhile_stop [of "h1 @ CHR '':'' # h2" "none_of '']''" "CHR '']''" r] assms(2)
    by (auto simp: ipv6_host_def)
  define ds where "ds = takeWhile digit h2"
  have d: "takeWhile digit (h2 @ CHR '']'' # r) = ds" for r
    unfolding ds_def by (induction h2) simp_all
  obtain x q where q: "port = x # q" "digit x" using assms(4) by (cases port) (auto simp: port_ok_def)
  have v: "takeWhile digit (port @ CHR ''/'' # r) = port" for r
    using assms(4) by (intro takeWhile_stop) (auto simp: port_ok_def)
  show ?thesis
    unfolding ds_def [symmetric] using assms(1) v [unfolded q] q u t d
    by (cases p; cases "ds = []") (simp_all add: lo_url_get_port_def port_formats_def lits_def ipv6_url_def
        get_protocol_name_def assigned_def)
qed

section \<open>Properties\<close>

text \<open>
  C38: The URL of a UDP or TCP address with a plain host name (without \<open>:\<close>, \<open>/\<close> and \<open>[\<close>) and a numerical port
  makes an address with the same host, port and protocol, without a socket. For the host of an IPv6 address the port
  may be another one (\<open>ipv6_url_port\<close>).
\<close>

theorem address_url_roundtrip:
  assumes "a_host a = Ref host" "a_port a = Ref port" "a_protocol a = Some p" "p \<noteq> LO_UNIX"
    and "host_ok host" "port_ok port" "alloc_total al"
  shows "\<exists>url b. lo_address_get_url a = Some (Ref url) \<and>
    lo_address_new_from_url strict al (Ref url) = Some (Ref b) \<and>
    a_host b = Ref host \<and> a_port b = Ref port \<and> a_protocol b = Some p \<and> a_socket b = - 1"
proof -
  have "url_of p host port \<noteq> []" by (simp add: url_of_def)
  moreover have "\<exists>b. lo_address_new_with_proto al (Some p) (Ref host) (Ref port) = Ref b \<and>
      a_host b = Ref host \<and> a_port b = Ref port \<and> a_protocol b = Some p \<and> a_socket b = - 1"
    using assms(4,7) by (cases p) (simp_all add: lo_address_new_with_proto_def alloc_total_def strdup_def Let_def)
  ultimately show ?thesis
    using assms get_url_plain [OF assms(1-5)] url_protocol [OF assms(4), of host port]
      url_hostname [OF assms(4,5), of strict port] url_port [OF assms(4-6), of strict]
    by (cases p) (auto simp: lo_address_new_from_url_def)
qed

text \<open>
  The URL of an IPv6 address gives its host back, and its port unless the first colon of the host
  is followed by a digit: then those digits are returned for the port.
\<close>

theorem ipv6_url_port:
  assumes "a_host a = Ref (h1 @ CHR '':'' # h2)" "a_port a = Ref port" "a_protocol a = Some p" "p \<noteq> LO_UNIX"
    and "ipv6_host (h1 @ CHR '':'' # h2)" "\<forall>c \<in> set h1. c \<noteq> CHR '':''" "port_ok port"
  shows "\<exists>url. lo_address_get_url a = Some (Ref url) \<and>
    lo_url_get_hostname strict url = Some (Ref (h1 @ CHR '':'' # h2)) \<and>
    lo_url_get_port strict url = Some (Ref (if takeWhile digit h2 = [] then port else takeWhile digit h2))"
  using get_url_quoted [OF assms(1-4)] url_hostname_ipv6 [OF assms(4,5), of strict port]
    url_port_ipv6 [OF assms(4-7), of strict] by simp

text \<open>
  Switching TCP_NODELAY on or off for a connected address stores the flag, returns the old one,
  and sets the option of the socket to the old value: the opposite of what was asked for.
\<close>

theorem nodelay_option_stale:
  assumes "0 < a_socket t" "(a_flags t AND LO_NODELAY \<noteq> 0) \<noteq> (enable \<noteq> 0)"
  shows "\<exists>t'. lo_address_set_tcp_nodelay t enable =
      (if enable \<noteq> 0 then 0 else 1, [C_nodelay (a_socket t) (if enable \<noteq> 0 then 0 else 1)], t') \<and>
    (a_flags t' AND LO_NODELAY \<noteq> 0 \<longleftrightarrow> enable \<noteq> 0)"
proof -
  have set_bit: "(w OR LO_NODELAY) AND LO_NODELAY = LO_NODELAY" for w
    by (rule bit_word_eqI) (auto simp: bit_simps LO_NODELAY_def)
  have clear_bit: "(w AND NOT LO_NODELAY) AND LO_NODELAY = 0" for w
    by (rule bit_word_eqI) (auto simp: bit_simps)
  have "LO_NODELAY \<noteq> 0" by (simp add: LO_NODELAY_def)
  moreover have "a_flags t AND LO_NODELAY = LO_NODELAY" if "a_flags t AND LO_NODELAY \<noteq> 0"
  proof -
    have "bit (a_flags t) 1"
      using that by (auto simp: LO_NODELAY_def and_exp_eq_0_iff_not_bit [of _ 1, simplified])
    then show ?thesis by (intro bit_word_eqI) (auto simp: bit_simps LO_NODELAY_def bit_2_iff)
  qed
  ultimately show ?thesis
    using assms by (auto simp: lo_address_set_tcp_nodelay_def lo_address_set_flags_def set_bit clear_bit)
qed

section \<open>Witnesses\<close>

definition sample_address :: lo_address where
  "sample_address = zero_address\<lparr>a_host := Ref ''localhost'', a_port := Ref ''7770'', a_protocol := Some LO_TCP, a_socket := 5\<rparr>"

theorem address_url_roundtrip_witness:
  "\<exists>url b. lo_address_get_url sample_address = Some (Ref url) \<and>
    lo_address_new_from_url True al_zero (Ref url) = Some (Ref b) \<and> a_port b = Ref ''7770''"
  using address_url_roundtrip [of sample_address "''localhost''" "''7770''" LO_TCP al_zero True]
  by (auto simp: sample_address_def host_ok_def port_ok_def)

text \<open>The address \<open>fe80:1::2\<close> is said to have the port 1.\<close>

theorem ipv6_url_port_witness:
  "\<exists>url. lo_address_get_url (sample_address\<lparr>a_host := Ref ''fe80:1::2''\<rparr>) = Some (Ref url) \<and>
    lo_url_get_port True url = Some (Ref ''1'')"
  using ipv6_url_port [of "sample_address\<lparr>a_host := Ref ''fe80:1::2''\<rparr>" "''fe80''" "''1::2''" "''7770''" LO_TCP True]
  by (auto simp: sample_address_def ipv6_host_def port_ok_def)

theorem nodelay_option_stale_witness:
  "\<exists>t'. lo_address_set_tcp_nodelay sample_address 1 = (0, [C_nodelay 5 0], t')"
  using nodelay_option_stale [of sample_address 1] by (auto simp: sample_address_def zero_address_def)

end
