(* ===== verification/Send.thy ===== *)
theory Send
  imports Bundle Sockets Address
begin

text \<open>
  Sending (\<open>src/send.c\<close>): the socket of a destination, one packet over UDP, TCP (behind its length or
  SLIP encoded) or a UNIX socket, the retry over TCP, and the variadic front ends. The system calls
  are recorded; what they return is an argument.
\<close>

section \<open>The operating system\<close>

text \<open>
  The value of the last call of a history, the error number after it, the resolver, the allocator
  and whether IPv6 is built in.
\<close>

record os =
  os_ret :: "os_call list \<Rightarrow> int"
  os_errno :: "os_call list \<Rightarrow> int"
  os_resolve :: resolver
  os_al :: alloc
  os_can_alloc :: "nat \<Rightarrow> bool"
  os_ipv6 :: bool

text \<open>
  The state of a send: the calls made, \<open>lo_client_sockets.udp\<close>, the destination and the server the
  message is sent from (NULL for none).
\<close>

record sending =
  sd_calls :: "os_call list"
  sd_client_udp :: int
  sd_addr :: lo_address
  sd_from :: "lo_address sockets ptr"

definition os_do :: "os \<Rightarrow> os_call \<Rightarrow> sending \<Rightarrow> int \<times> sending" where
  "os_do os c s = (os_ret os (sd_calls s @ [c]), s\<lparr>sd_calls := sd_calls s @ [c]\<rparr>)"

definition os_set :: "os \<Rightarrow> os_call \<Rightarrow> sending \<Rightarrow> sending" where
  "os_set os c s = snd (os_do os c s)"

definition set_addr :: "(lo_address \<Rightarrow> lo_address) \<Rightarrow> sending \<Rightarrow> sending" where
  "set_addr f s = s\<lparr>sd_addr := f (sd_addr s)\<rparr>"

text \<open>\<open>a->errnum = geterror(); a->errstr = NULL\<close>\<close>

definition set_errno :: "os \<Rightarrow> sending \<Rightarrow> sending" where
  "set_errno os s = set_addr (\<lambda>a. a\<lparr>a_errnum := os_errno os (sd_calls s), a_errstr := NULL\<rparr>) s"

section \<open>Sockets\<close>

definition fail_socket :: "os \<Rightarrow> sending \<Rightarrow> sending" where
  "fail_socket os s =
     (let s1 = set_errno os s
      in set_addr (\<lambda>a. a\<lparr>a_socket := - 1\<rparr>) (os_set os (C_close (a_socket (sd_addr s))) s1))"

definition set_nodelay :: "os \<Rightarrow> sending \<Rightarrow> sending" where
  "set_nodelay os s =
     (if a_flags (sd_addr s) AND LO_NODELAY \<noteq> 0 then os_set os (C_nodelay (a_socket (sd_addr s)) 1) s else s)"

definition create_socket :: "os \<Rightarrow> sending \<Rightarrow> (int \<times> sending) option" where
  "create_socket os s =
     (case a_protocol (sd_addr s) of
        None \<Rightarrow> Some (- 2, s)
      | Some p \<Rightarrow>
          (case (p, a_ai (sd_addr s)) of
             (LO_UNIX, _) \<Rightarrow>
               (case os_do os (C_socket p AF_OTHER) s of (fd, s1) \<Rightarrow>
                  let s2 = set_addr (\<lambda>a. a\<lparr>a_socket := fd\<rparr>) s1 in
                  if fd = - 1 then Some (- 1, set_errno os s2)
                  else if a_port (sd_addr s2) = NULL then None
                  else (case os_do os (C_connect fd) s2 of (r, s3) \<Rightarrow>
                    if r < 0 then Some (- 1, fail_socket os s3) else Some (0, set_nodelay os s3)))
           | (_, []) \<Rightarrow> None
           | (_, ai # _) \<Rightarrow>
               (case os_do os (C_socket p (ai_family ai)) s of (fd, s1) \<Rightarrow>
                  let s2 = set_addr (\<lambda>a. a\<lparr>a_socket := fd\<rparr>) s1 in
                  if fd = - 1 then Some (- 1, set_errno os s2)
                  else if p = LO_TCP then
                    (case os_do os (C_connect fd) s2 of (r, s3) \<Rightarrow>
                      if r \<noteq> 0 then Some (- 1, fail_socket os s3) else Some (0, set_nodelay os s3))
                  else
                    let s3 = (if ai_family ai = AF_INET \<and> take 4 (ai_addr ai) = replicate 4 (CHR 0xFF)
                              then os_set os (C_broadcast fd) s2 else s2)
                    in Some (0, set_nodelay os s3))))"

text \<open>Is the socket unknown to the server, so that it is added to its list?\<close>

definition unknown_source :: "lo_address sockets \<Rightarrow> int \<Rightarrow> bool option" where
  "unknown_source st socket =
     (if socket \<ge> int (length (so_sources st)) then Some True
      else if socket < 0 then None
      else case so_sources st ! nat socket of NULL \<Rightarrow> Some True | Ref a \<Rightarrow> Some (a_host a = NULL))"

definition adopt_socket :: "os \<Rightarrow> sending \<Rightarrow> sending option" where
  "adopt_socket os s =
     (case sd_from s of
        NULL \<Rightarrow> Some s
      | Ref st \<Rightarrow>
          if a_protocol (sd_addr s) \<noteq> Some LO_TCP then Some s
          else do {
            unknown \<leftarrow> unknown_source st (a_socket (sd_addr s));
            if \<not> unknown then Some s
            else do {
              (_, st') \<leftarrow> lo_server_add_socket (os_can_alloc os) st (a_socket (sd_addr s))
                             (lo_address_copy (os_al os) (sd_addr s));
              Some (s\<lparr>sd_from := Ref st', sd_addr := (sd_addr s)\<lparr>a_ownsocket := False\<rparr>\<rparr>)
            }
          })"

text \<open>The socket to send on; \<open>Inl\<close> is an early return.\<close>

definition pick_socket :: "os \<Rightarrow> sending \<Rightarrow> ((int + int) \<times> sending) option" where
  "pick_socket os s =
     (let udp = (a_protocol (sd_addr s) = Some LO_UDP) in
      case (sd_from s, udp) of
        (Ref st, True) \<Rightarrow> (case so_fds st of [] \<Rightarrow> None | fd # _ \<Rightarrow> Some (Inr fd, s))
      | _ \<Rightarrow>
          if udp \<and> sd_client_udp s \<noteq> - 1 then Some (Inr (sd_client_udp s), s)
          else if a_socket (sd_addr s) = - 1 then do {
            (ret, s1) \<leftarrow> create_socket os s;
            if ret \<noteq> 0 then Some (Inl ret, s1)
            else do { s2 \<leftarrow> adopt_socket os s1; Some (Inr (a_socket (sd_addr s2)), s2) }
          }
          else Some (Inr (a_socket (sd_addr s)), s))"

section \<open>One packet\<close>

text \<open>The \<open>do\<close> loops over the addresses of the destination.\<close>

fun sendto_loop :: "os \<Rightarrow> int \<Rightarrow> byte list \<Rightarrow> addrinfo list \<Rightarrow> sending \<Rightarrow> (int \<times> sending) option" where
  "sendto_loop os sock data [] s = None"
| "sendto_loop os sock data (ai # ais) s =
     (case os_do os (C_sendto sock data (ai_addr ai)) s of (ret, s1) \<Rightarrow>
        if ret = - 1 \<and> ais \<noteq> [] then sendto_loop os sock data ais s1 else Some (ret, s1))"

fun send_loop :: "os \<Rightarrow> int \<Rightarrow> byte list \<Rightarrow> addrinfo list \<Rightarrow> sending \<Rightarrow> (int \<times> sending) option" where
  "send_loop os sock data [] s = None"
| "send_loop os sock data (ai # ais) s =
     (case os_do os (C_send sock data) s of (ret, s1) \<Rightarrow>
        if ret = - 1 \<and> ais \<noteq> [] then send_loop os sock data ais s1 else Some (ret, s1))"

definition send_udp :: "os \<Rightarrow> int \<Rightarrow> byte list \<Rightarrow> sending \<Rightarrow> (int \<times> sending) option" where
  "send_udp os sock data s =
     (let a = sd_addr s; iface = in_addr (a_addr a);
          s1 = (if length iface = 4 \<or> os_ipv6 os \<and> length iface = 16
                then os_set os (C_multicast_if sock iface) s else s);
          s2 = (if a_ttl a \<ge> 0
                then os_set os (C_multicast_ttl sock (byte_of (word_of_int (a_ttl a) :: u32))) s1 else s1)
      in sendto_loop os sock data (a_ai a) s2)"

definition send_stream :: "os \<Rightarrow> int \<Rightarrow> byte list \<Rightarrow> sending \<Rightarrow> (int \<times> sending) option" where
  "send_stream os sock data s = do {
     let a = sd_addr s;
     out \<leftarrow> (if a_flags a AND LO_SLIP \<noteq> 0 then slip_encode data else Some data);
     (if a_protocol a = Some LO_TCP then send_loop os sock out (a_ai a) s
      else Some (os_do os (C_send sock out) s))
   }"

definition finish_send :: "os \<Rightarrow> int \<Rightarrow> sending \<Rightarrow> sending option" where
  "finish_send os ret s =
     (if ret = - 1 then
        (if a_protocol (sd_addr s) = Some LO_TCP then do {
           from' \<leftarrow> (case sd_from s of NULL \<Rightarrow> Some NULL
                     | Ref st \<Rightarrow> map_option Ref (lo_server_del_socket st (- 1) (a_socket (sd_addr s))));
           let s1 = os_set os (C_close (a_socket (sd_addr s))) (s\<lparr>sd_from := from'\<rparr>);
           Some (set_errno os (set_addr (\<lambda>a. a\<lparr>a_socket := - 1\<rparr>) s1))
         }
         else Some (set_errno os s))
      else Some (set_addr (\<lambda>a. a\<lparr>a_errnum := 0, a_errstr := NULL\<rparr>) s))"

definition too_big :: "byte list" where
  "too_big = ''Attempted to send message in excess of maximum message size''"

definition send_data :: "os \<Rightarrow> byte list \<Rightarrow> sending \<Rightarrow> (int \<times> sending) option" where
  "send_data os data s =
     (if length data > LO_MAX_MSG_SIZE then
        Some (- 1, set_addr (\<lambda>a. a\<lparr>a_errnum := 99, a_errstr := Ref too_big\<rparr>) s)
      else
        let (r, a) = (if a_ai (sd_addr s) = [] then lo_address_resolve (os_resolve os) (sd_addr s) else (0, sd_addr s));
            s1 = s\<lparr>sd_addr := a\<rparr>
        in if r \<noteq> 0 then Some (r, s1)
           else do {
             (picked, s2) \<leftarrow> pick_socket os s1;
             (case picked of
                Inl ret \<Rightarrow> Some (ret, s2)
              | Inr sock \<Rightarrow>
                  let tcp = (a_protocol (sd_addr s2) = Some LO_TCP);
                      (ret0, s3) = (if tcp \<and> a_flags (sd_addr s2) AND LO_SLIP = 0
                        then os_do os (C_send sock (be32 (word_of_nat (length data)))) s2 else (0, s2))
                  in do {
                    (ret, s4) \<leftarrow> (if ret0 = - 1 then Some (ret0, s3)
                                   else if a_protocol (sd_addr s3) = Some LO_UDP then send_udp os sock data s3
                                   else send_stream os sock data s3);
                    s5 \<leftarrow> finish_send os ret s4;
                    Some (ret, s5)
                  })
           })"

section \<open>Messages and bundles\<close>

definition lo_send_message_from ::
  "bool \<Rightarrow> os \<Rightarrow> byte list \<Rightarrow> lo_message \<Rightarrow> sending \<Rightarrow> (int \<times> sending) option" where
  "lo_send_message_from be os path msg s = do {
     (data, _) \<leftarrow> lo_message_serialise (os_al os) be msg path NULL;
     (ret, s1) \<leftarrow> send_data os data s;
     if ret = - 1 \<and> a_protocol (sd_addr s1) = Some LO_TCP then send_data os data s1 else Some (ret, s1)
   }"

definition lo_send_message ::
  "bool \<Rightarrow> os \<Rightarrow> byte list \<Rightarrow> lo_message \<Rightarrow> sending \<Rightarrow> (int \<times> sending) option" where
  "lo_send_message be os path msg s =
     map_option (\<lambda>(r, s'). (r, s'\<lparr>sd_from := sd_from s\<rparr>)) (lo_send_message_from be os path msg (s\<lparr>sd_from := NULL\<rparr>))"

definition lo_send_bundle_from ::
  "nat \<Rightarrow> bool \<Rightarrow> os \<Rightarrow> heap \<Rightarrow> nat ptr \<Rightarrow> sending \<Rightarrow> (int \<times> sending) option" where
  "lo_send_bundle_from fuel be os h b s = do {
     (data, ok, data_len) \<leftarrow> lo_bundle_serialise fuel (os_al os) be h b NULL;
     (if \<not> ok \<and> data_len > 0 then None
      else send_data os (take data_len data) s)
   }"

definition lo_send_bundle ::
  "nat \<Rightarrow> bool \<Rightarrow> os \<Rightarrow> heap \<Rightarrow> nat ptr \<Rightarrow> sending \<Rightarrow> (int \<times> sending) option" where
  "lo_send_bundle fuel be os h b s =
     map_option (\<lambda>(r, s'). (r, s'\<lparr>sd_from := sd_from s\<rparr>)) (lo_send_bundle_from fuel be os h b (s\<lparr>sd_from := NULL\<rparr>))"

section \<open>The variadic front ends\<close>

text \<open>The new message is NULL only without memory; adding to it is then undefined.\<close>

definition new_varargs_message ::
  "(nat \<Rightarrow> alloc) \<Rightarrow> bool \<Rightarrow> (u64 \<Rightarrow> u32) \<Rightarrow> byte list ptr \<Rightarrow> va list \<Rightarrow> (int \<times> lo_message) option" where
  "new_varargs_message al be to_float types ap = do {
     r \<leftarrow> lo_message_new (al 0);
     msg \<leftarrow> (case r of NULL \<Rightarrow> None | Ref m \<Rightarrow> Some m);
     lo_message_add_varargs_internal al be to_float msg types ap
   }"

definition clear_error :: "sending \<Rightarrow> sending" where
  "clear_error s = set_addr (\<lambda>a. a\<lparr>a_errnum := 0, a_errstr := NULL\<rparr>) s"

definition lo_send_varargs_internal ::
  "(nat \<Rightarrow> alloc) \<Rightarrow> bool \<Rightarrow> (u64 \<Rightarrow> u32) \<Rightarrow> os \<Rightarrow> byte list \<Rightarrow> byte list ptr \<Rightarrow> va list \<Rightarrow> sending \<Rightarrow>
   (int \<times> sending) option" where
  "lo_send_varargs_internal al be to_float os path types ap s = do {
     (ret, msg) \<leftarrow> new_varargs_message al be to_float types ap;
     let s1 = clear_error s;
     (if ret \<noteq> 0 then
        Some (ret, set_addr (\<lambda>a. a\<lparr>a_errnum := ret,
                   a_errstr := Ref (if ret = - 1 then ''unknown type'' else ''bad format/args'')\<rparr>) s1)
      else lo_send_message be os path msg s1)
   }"

text \<open>The message in a bundle of its own; nothing is stored in \<open>errnum\<close> for bad arguments.\<close>

definition bundle_of :: "alloc \<Rightarrow> lo_timetag \<Rightarrow> byte list \<Rightarrow> lo_message \<Rightarrow> (nat \<times> heap) option" where
  "bundle_of al ts path msg = do {
     (b, h) \<leftarrow> lo_bundle_new al \<lparr>bundles = [], messages = [Some msg]\<rparr> ts;
     (_, h') \<leftarrow> lo_bundle_add_message al h b path (Ref 0);
     Some (b, h')
   }"

definition lo_send_timestamped_varargs_internal ::
  "(nat \<Rightarrow> alloc) \<Rightarrow> bool \<Rightarrow> (u64 \<Rightarrow> u32) \<Rightarrow> os \<Rightarrow> lo_timetag \<Rightarrow> byte list \<Rightarrow> byte list ptr \<Rightarrow> va list \<Rightarrow>
   sending \<Rightarrow> (int \<times> sending) option" where
  "lo_send_timestamped_varargs_internal al be to_float os ts path types ap s = do {
     (ret, msg) \<leftarrow> new_varargs_message al be to_float types ap;
     let s1 = clear_error s;
     (if ret \<noteq> 0 then Some (ret, s1)
      else do {
        (b, h) \<leftarrow> bundle_of (os_al os) ts path msg;
        lo_send_bundle 2 be os h (Ref b) s1
      })
   }"

definition lo_send_from_varargs_internal ::
  "(nat \<Rightarrow> alloc) \<Rightarrow> bool \<Rightarrow> (u64 \<Rightarrow> u32) \<Rightarrow> os \<Rightarrow> lo_timetag \<Rightarrow> byte list \<Rightarrow> byte list ptr \<Rightarrow> va list \<Rightarrow>
   sending \<Rightarrow> (int \<times> sending) option" where
  "lo_send_from_varargs_internal al be to_float os ts path types ap s = do {
     (ret, msg) \<leftarrow> new_varargs_message al be to_float types ap;
     let s1 = clear_error s;
     (if ret \<noteq> 0 then Some (ret, s1)
      else if ts = LO_TT_IMMEDIATE then lo_send_message_from be os path msg s1
      else do {
        (b, h) \<leftarrow> bundle_of (os_al os) ts path msg;
        lo_send_bundle_from 2 be os h (Ref b) s1
      })
   }"

section \<open>A connected TCP destination\<close>

definition tcp_ready :: "sending \<Rightarrow> int \<Rightarrow> bool" where
  "tcp_ready s sock \<longleftrightarrow> a_protocol (sd_addr s) = Some LO_TCP \<and> a_socket (sd_addr s) = sock \<and> sock \<noteq> - 1 \<and>
     a_ai (sd_addr s) \<noteq> [] \<and> a_flags (sd_addr s) AND LO_SLIP = 0"

text \<open>The two calls for one packet.\<close>

definition tcp_calls :: "int \<Rightarrow> byte list \<Rightarrow> os_call list" where
  "tcp_calls sock data = [C_send sock (be32 (word_of_nat (length data))), C_send sock data]"

text \<open>The state after a packet was sent.\<close>

definition sent_on :: "int \<Rightarrow> byte list \<Rightarrow> sending \<Rightarrow> sending" where
  "sent_on sock data s = clear_error (s\<lparr>sd_calls := sd_calls s @ tcp_calls sock data\<rparr>)"

lemma send_data_tcp:
  assumes "tcp_ready s sock" "length data \<le> LO_MAX_MSG_SIZE"
    and "os_ret os (sd_calls s @ [C_send sock (be32 (word_of_nat (length data)))]) \<noteq> - 1"
    and "os_ret os (sd_calls s @ tcp_calls sock data) \<noteq> - 1"
  shows "send_data os data s = Some (os_ret os (sd_calls s @ tcp_calls sock data), sent_on sock data s)"
proof -
  obtain ai ais where ai: "a_ai (sd_addr s) = ai # ais" using assms(1) by (cases "a_ai (sd_addr s)") (auto simp: tcp_ready_def)
  have p: "a_protocol (sd_addr s) = Some LO_TCP" "a_socket (sd_addr s) = sock" "sock \<noteq> - 1"
      "a_flags (sd_addr s) AND LO_SLIP = 0"
    using assms(1) by (simp_all add: tcp_ready_def)
  have pick: "pick_socket os s = Some (Inr sock, s)"
    using p by (simp add: pick_socket_def split: ptr.splits)
  show ?thesis
    using assms(2-4) p pick
    by (simp add: send_data_def ai os_do_def send_stream_def finish_send_def tcp_calls_def sent_on_def clear_error_def
        set_addr_def Let_def not_less)
qed

lemma sent_on_ready: "tcp_ready (sent_on sock data s) sock' \<longleftrightarrow> tcp_ready s sock'"
  by (simp add: tcp_ready_def sent_on_def clear_error_def set_addr_def)

section \<open>Failures over TCP\<close>

lemma os_do_addr: "os_do os c s = (r, s') \<Longrightarrow> sd_addr s' = sd_addr s"
  by (auto simp: os_do_def)

lemma os_set_addr [simp]: "sd_addr (os_set os c s) = sd_addr s"
  by (simp add: os_set_def os_do_def)

lemma set_addr_addr [simp]: "sd_addr (set_addr f s) = f (sd_addr s)"
  by (simp add: set_addr_def)

lemma send_loop_addr: "send_loop os sock data ais s = Some (r, s') \<Longrightarrow> sd_addr s' = sd_addr s"
  by (induction ais arbitrary: s) (auto split: prod.splits if_splits dest!: os_do_addr)

lemma create_socket_fails:
  assumes "create_socket os s = Some (r, s')" "a_protocol (sd_addr s) = Some LO_TCP" "r \<noteq> 0"
  shows "a_socket (sd_addr s') = - 1 \<and> a_errstr (sd_addr s') = NULL"
  using assms
  by (auto simp: create_socket_def fail_socket_def set_errno_def Let_def split: list.splits prod.splits if_splits)

lemma create_socket_tcp:
  assumes "create_socket os s = Some (r, s')" "a_protocol (sd_addr s) = Some LO_TCP"
  shows "a_protocol (sd_addr s') = Some LO_TCP \<and>
    (r \<noteq> 0 \<longrightarrow> a_socket (sd_addr s') = - 1 \<and> a_errstr (sd_addr s') = NULL)"
proof -
  have "a_protocol (sd_addr s') = Some LO_TCP"
    using assms by (auto simp: create_socket_def fail_socket_def set_errno_def set_nodelay_def Let_def
        split: list.splits prod.splits if_splits dest!: os_do_addr)
  then show ?thesis using create_socket_fails [OF assms] by blast
qed

lemma adopt_socket_protocol: "adopt_socket os s = Some s' \<Longrightarrow> a_protocol (sd_addr s') = a_protocol (sd_addr s)"
  by (auto simp: adopt_socket_def split: ptr.splits if_splits bind_splits)

lemma pick_socket_tcp:
  assumes "pick_socket os s = Some (p, s')" "a_protocol (sd_addr s) = Some LO_TCP"
  shows "a_protocol (sd_addr s') = Some LO_TCP"
    and "p = Inl r \<Longrightarrow> a_socket (sd_addr s') = - 1 \<and> a_errstr (sd_addr s') = NULL"
  using assms
  by (auto simp: pick_socket_def split: ptr.splits if_splits bind_splits
      dest!: create_socket_tcp adopt_socket_protocol)

lemma finish_send_tcp:
  assumes "finish_send os (- 1) s = Some s'" "a_protocol (sd_addr s) = Some LO_TCP"
  shows "a_socket (sd_addr s') = - 1 \<and> a_errstr (sd_addr s') = NULL"
  using assms by (auto simp: finish_send_def set_errno_def Let_def split: ptr.splits bind_splits)

lemma send_stream_addr: "send_stream os sock data s = Some (r, s') \<Longrightarrow> sd_addr s' = sd_addr s"
  by (auto simp: send_stream_def Let_def dest: send_loop_addr os_do_addr split: if_splits bind_splits)

section \<open>Trying the addresses of a UDP destination\<close>

abbreviation sendto_calls :: "int \<Rightarrow> byte list \<Rightarrow> addrinfo list \<Rightarrow> os_call list" where
  "sendto_calls sock data ais \<equiv> map (\<lambda>ai. C_sendto sock data (ai_addr ai)) ais"

lemma sendto_loop_tries:
  assumes "ais \<noteq> []"
  shows "\<exists>k. 0 < k \<and> k \<le> length ais \<and>
    sendto_loop os sock data ais s =
      Some (os_ret os (sd_calls s @ sendto_calls sock data (take k ais)),
            s\<lparr>sd_calls := sd_calls s @ sendto_calls sock data (take k ais)\<rparr>) \<and>
    (\<forall>j. 0 < j \<and> j < k \<longrightarrow> os_ret os (sd_calls s @ sendto_calls sock data (take j ais)) = - 1) \<and>
    (k < length ais \<longrightarrow> os_ret os (sd_calls s @ sendto_calls sock data (take k ais)) \<noteq> - 1)"
  using assms
proof (induction ais arbitrary: s)
  case (Cons ai ais)
  let ?c = "C_sendto sock data (ai_addr ai)"
  let ?s = "s\<lparr>sd_calls := sd_calls s @ [?c]\<rparr>"
  show ?case
  proof (cases "os_ret os (sd_calls s @ [?c]) = - 1 \<and> ais \<noteq> []")
    case False
    then show ?thesis by (intro exI [of _ 1]) (auto simp: os_do_def)
  next
    case True
    then obtain k where k: "0 < k" "k \<le> length ais"
        "sendto_loop os sock data ais ?s =
          Some (os_ret os (sd_calls ?s @ sendto_calls sock data (take k ais)),
            ?s\<lparr>sd_calls := sd_calls ?s @ sendto_calls sock data (take k ais)\<rparr>)"
        "\<forall>j. 0 < j \<and> j < k \<longrightarrow> os_ret os (sd_calls ?s @ sendto_calls sock data (take j ais)) = - 1"
        "k < length ais \<longrightarrow> os_ret os (sd_calls ?s @ sendto_calls sock data (take k ais)) \<noteq> - 1"
      using Cons.IH [of ?s] by blast
    have "os_ret os (sd_calls s @ sendto_calls sock data (take j (ai # ais))) = - 1" if j: "0 < j" "j < Suc k" for j
    proof (cases "j = 1")
      case False
      then obtain j' where "j = Suc j'" "0 < j'" "j' < k" using j False by (cases j) auto
      then show ?thesis using k(4) by auto
    qed (use True in simp)
    then show ?thesis using k True by (intro exI [of _ "Suc k"]) (auto simp: os_do_def)
  qed
qed simp

section \<open>Properties\<close>

text \<open>
  C37: Over a connected TCP socket a packet is sent as its length, four bytes in network order, and its
  bytes, whatever the server it is sent from; both calls are made once and what the second returns is
  returned, with the error cleared. A call that took only a part of the bytes counts as success, and
  the rest is never sent.
\<close>

theorem tcp_send_is_frame:
  assumes "tcp_ready s sock" "length data \<le> LO_MAX_MSG_SIZE"
    and "os_ret os (sd_calls s @ [C_send sock (be32 (word_of_nat (length data)))]) \<noteq> - 1"
    and "os_ret os (sd_calls s @ [C_send sock (be32 (word_of_nat (length data))), C_send sock data]) = taken" "taken \<noteq> - 1"
  shows "\<exists>s'. send_data os data s = Some (taken, s') \<and>
    sd_calls s' = sd_calls s @ [C_send sock (be32 (word_of_nat (length data))), C_send sock data] \<and>
    be32 (word_of_nat (length data)) @ data = frame data \<and> a_errnum (sd_addr s') = 0 \<and> tcp_ready s' sock"
  using send_data_tcp [OF assms(1,2,3)] assms(1,4,5) sent_on_ready [of sock data s sock]
  by (auto simp: tcp_calls_def sent_on_def clear_error_def set_addr_def frame_def)

text \<open>
  A failed TCP send, at whatever call it failed, leaves a resolved address without a socket, so that the
  next attempt connects anew, and with the system's error in place of a message.
\<close>

theorem tcp_failure_drops_socket:
  assumes "send_data os data s = Some (- 1, s')" "a_protocol (sd_addr s) = Some LO_TCP"
    and "a_ai (sd_addr s) \<noteq> []" "length data \<le> LO_MAX_MSG_SIZE"
  shows "a_socket (sd_addr s') = - 1 \<and> a_errstr (sd_addr s') = NULL"
proof -
  obtain picked s2 where p: "pick_socket os s = Some (picked, s2)"
    using assms by (cases "pick_socket os s") (auto simp: send_data_def not_less)
  show ?thesis
  proof (cases picked)
    case (Inl r)
    then show ?thesis using assms p pick_socket_tcp(2) [OF p assms(2)] by (auto simp: send_data_def not_less)
  next
    case (Inr sock)
    have t: "a_protocol (sd_addr s2) = Some LO_TCP" by (rule pick_socket_tcp(1) [OF p assms(2)])
    define x where "x = (if a_flags (sd_addr s2) AND LO_SLIP = 0
        then os_do os (C_send sock (be32 (word_of_nat (length data)))) s2 else (0, s2))"
    obtain r0 s3 where x: "x = (r0, s3)" by (cases x)
    have s3: "sd_addr s3 = sd_addr s2" using x by (auto simp: x_def dest: os_do_addr split: if_splits)
    have "(do { (ret, s4) \<leftarrow> (if r0 = - 1 then Some (r0, s3) else send_stream os sock data s3);
            s5 \<leftarrow> finish_send os ret s4; Some (ret, s5) }) = Some (- 1, s')"
      using assms p t s3 x unfolding send_data_def Inr by (simp add: not_less x_def [symmetric] cong: if_cong)
    then obtain s4 where "finish_send os (- 1) s4 = Some s'" "sd_addr s4 = sd_addr s3"
      by (auto split: bind_splits if_splits dest: send_stream_addr)
    then show ?thesis using finish_send_tcp t s3 by metis
  qed
qed

text \<open>
  A message that is too big for the protocol is refused before any system call, also by the second
  attempt that a TCP destination gets, with the error 99.
\<close>

theorem too_big_not_sent:
  assumes "msg_repr be m xs" "alloc_total (os_al os)" "LO_MAX_MSG_SIZE < wire_len path xs"
  shows "\<exists>s'. lo_send_message_from be os path m s = Some (- 1, s') \<and> sd_calls s' = sd_calls s \<and>
    lo_address_errno (sd_addr s') = 99 \<and> lo_address_errstr strerror (sd_addr s') = too_big"
  using lo_message_serialise_new [OF assms(1,2), of path] assms(3)
  by (simp add: lo_send_message_from_def send_data_def set_addr_def lo_address_errno_def lo_address_errstr_def)

text \<open>
  A UDP packet without multicast options goes to the destination's addresses in the order of the resolver, once to each,
  up to the first that takes it; its result is that of the last call.
\<close>

theorem udp_tries_addresses:
  assumes "a_protocol (sd_addr s) = Some LO_UDP" "sd_from s = NULL" "sd_client_udp s \<noteq> - 1"
    and "a_ai (sd_addr s) \<noteq> []" "in_addr (a_addr (sd_addr s)) = []" "a_ttl (sd_addr s) < 0"
    and "length data \<le> LO_MAX_MSG_SIZE"
  shows "\<exists>k s'. 0 < k \<and> k \<le> length (a_ai (sd_addr s)) \<and>
    send_data os data s = Some (os_ret os (sd_calls s'), s') \<and>
    sd_calls s' = sd_calls s @ map (\<lambda>ai. C_sendto (sd_client_udp s) data (ai_addr ai)) (take k (a_ai (sd_addr s))) \<and>
    (\<forall>j. 0 < j \<and> j < k \<longrightarrow> os_ret os (sd_calls s @
      map (\<lambda>ai. C_sendto (sd_client_udp s) data (ai_addr ai)) (take j (a_ai (sd_addr s)))) = - 1) \<and>
    (k < length (a_ai (sd_addr s)) \<longrightarrow> os_ret os (sd_calls s') \<noteq> - 1)"
proof -
  obtain k where k: "0 < k" "k \<le> length (a_ai (sd_addr s))"
      "sendto_loop os (sd_client_udp s) data (a_ai (sd_addr s)) s =
        Some (os_ret os (sd_calls s @ sendto_calls (sd_client_udp s) data (take k (a_ai (sd_addr s)))),
              s\<lparr>sd_calls := sd_calls s @ sendto_calls (sd_client_udp s) data (take k (a_ai (sd_addr s)))\<rparr>)"
      "\<forall>j. 0 < j \<and> j < k \<longrightarrow> os_ret os (sd_calls s @ sendto_calls (sd_client_udp s) data (take j (a_ai (sd_addr s)))) = - 1"
      "k < length (a_ai (sd_addr s)) \<longrightarrow>
        os_ret os (sd_calls s @ sendto_calls (sd_client_udp s) data (take k (a_ai (sd_addr s)))) \<noteq> - 1"
    using sendto_loop_tries [OF assms(4)] by blast
  have "pick_socket os s = Some (Inr (sd_client_udp s), s)" using assms(1-3) by (simp add: pick_socket_def)
  moreover have "finish_send os r t = Some (set_addr (\<lambda>a. a\<lparr>a_errnum := (if r = - 1 then os_errno os (sd_calls t) else 0),
      a_errstr := NULL\<rparr>) t)" if "sd_addr t = sd_addr s" for r t
    using assms(1) that by (simp add: finish_send_def set_errno_def set_addr_def)
  ultimately have "\<exists>s'. send_data os data s =
      Some (os_ret os (sd_calls s @ sendto_calls (sd_client_udp s) data (take k (a_ai (sd_addr s)))), s') \<and>
      sd_calls s' = sd_calls s @ sendto_calls (sd_client_udp s) data (take k (a_ai (sd_addr s)))"
    using assms k(3) by (simp add: send_data_def send_udp_def not_less set_addr_def Let_def del: sendto_loop.simps)
  then show ?thesis using k by (intro exI [of _ k]) auto
qed

section \<open>Witnesses\<close>

text \<open>
  A system in which every call returns \<open>r\<close>, and a destination on a connected socket with two addresses.
\<close>

definition sample_os :: "int \<Rightarrow> os" where
  "sample_os r = \<lparr>os_ret = (\<lambda>_. r), os_errno = (\<lambda>_. 111), os_resolve = (\<lambda>_ _ _. Inl (- 2, ''unknown'')),
     os_al = al_zero, os_can_alloc = (\<lambda>_. True), os_ipv6 = True\<rparr>"

definition sample_sending :: "proto \<Rightarrow> sending" where
  "sample_sending p = \<lparr>sd_calls = [], sd_client_udp = 4,
     sd_addr = sample_address\<lparr>a_protocol := Some p, a_ttl := - 1,
       a_ai := [\<lparr>ai_family = AF_INET6, ai_addr = ''six''\<rparr>, \<lparr>ai_family = AF_INET, ai_addr = ''four''\<rparr>]\<rparr>,
     sd_from = NULL\<rparr>"

lemma sample_ready: "tcp_ready (sample_sending LO_TCP) 5"
  by (simp add: tcp_ready_def sample_sending_def sample_address_def zero_address_def)

theorem tcp_send_is_frame_witness:
  "\<exists>s'. send_data (sample_os 3) ''abc'' (sample_sending LO_TCP) = Some (3, s') \<and>
     sd_calls s' = [C_send 5 (be32 3), C_send 5 ''abc'']"
  using tcp_send_is_frame [OF sample_ready, of "''abc''" "sample_os 3" 3]
  by (auto simp: sample_os_def LO_MAX_MSG_SIZE_def sample_sending_def)

theorem tcp_failure_drops_socket_witness:
  "\<exists>s'. send_data (sample_os (- 1)) ''abc'' (sample_sending LO_TCP) = Some (- 1, s') \<and> a_socket (sd_addr s') = - 1"
proof -
  have a: "a_protocol (sd_addr (sample_sending LO_TCP)) = Some LO_TCP" "a_ai (sd_addr (sample_sending LO_TCP)) \<noteq> []"
    by (simp_all add: sample_sending_def)
  obtain s' where s': "send_data (sample_os (- 1)) ''abc'' (sample_sending LO_TCP) = Some (- 1, s')"
    by (auto simp: send_data_def pick_socket_def os_do_def finish_send_def sample_sending_def sample_os_def
        sample_address_def zero_address_def LO_MAX_MSG_SIZE_def)
  then show ?thesis using tcp_failure_drops_socket [OF s' a] by (simp add: LO_MAX_MSG_SIZE_def)
qed

theorem too_big_not_sent_witness:
  "\<exists>m s'. lo_send_message_from True (sample_os 3) (replicate 32768 CHR ''a'') m (sample_sending LO_TCP) = Some (- 1, s') \<and>
     sd_calls s' = []"
proof -
  have "lo_strsize (replicate 32768 CHR ''a'') = 32772" unfolding lo_strsize_def length_replicate by simp
  then have "LO_MAX_MSG_SIZE < wire_len (replicate 32768 CHR ''a'') [OInt32 7]"
    by (simp add: wire_len_def LO_MAX_MSG_SIZE_def)
  moreover have "alloc_total (os_al (sample_os 3))" by (simp add: sample_os_def)
  ultimately obtain s' where "lo_send_message_from True (sample_os 3) (replicate 32768 CHR ''a'') sample_message (sample_sending LO_TCP) =
      Some (- 1, s')" "sd_calls s' = sd_calls (sample_sending LO_TCP)"
    using too_big_not_sent [OF sample_repr] by blast
  then show ?thesis by (intro exI conjI) (assumption, simp add: sample_sending_def)
qed

text \<open>No address takes the packet.\<close>

theorem udp_tries_addresses_witness:
  "\<exists>k s'. send_data (sample_os (- 1)) ''abc'' (sample_sending LO_UDP) = Some (- 1, s') \<and>
     sd_calls s' = map (\<lambda>ai. C_sendto 4 ''abc'' (ai_addr ai)) (take k (a_ai (sd_addr (sample_sending LO_UDP))))"
  using udp_tries_addresses [of "sample_sending LO_UDP" "''abc''" "sample_os (- 1)"]
  by (auto simp: sample_sending_def sample_os_def sample_address_def zero_address_def LO_MAX_MSG_SIZE_def)

end
