(* ===== verification/Pattern.thy ===== *)
theory Pattern
  imports Prelude
begin

text \<open>
  \<open>lo_pattern_match\<close> (\<open>src/pattern_match.c\<close>), on the memory of the two strings: a pointer is the list
  of the bytes from it to the end of the allocation, a byte read past that end is \<open>None\<close>. The result
  is characterised on character sets and brace lists; theory \<open>Glob\<close> compares it with a declarative matcher.
\<close>

section \<open>Scanning loops\<close>

fun skip_stars :: "byte list \<Rightarrow> byte list option" where
  "skip_stars [] = None"
| "skip_stars (c # p) = (if c = CHR ''*'' then skip_stars p else Some (c # p))"

text \<open>\<open>while (*str && *p != *str) str++\<close>\<close>

fun skip_until :: "byte \<Rightarrow> byte list \<Rightarrow> byte list option" where
  "skip_until c [] = None"
| "skip_until c (b # s) = (if b = NUL \<or> b = c then Some (b # s) else skip_until c s)"

text \<open>
  The search for a closing character: what follows it, or \<open>Some None\<close> when the terminator comes
  first (the \<open>oops\<close> returns).
\<close>

fun after_close :: "byte \<Rightarrow> byte list \<Rightarrow> byte list option option" where
  "after_close c [] = None"
| "after_close c (b # p) =
     (if b = NUL then Some None else if b = c then Some (Some p) else after_close c p)"

text \<open>
  The loop over a character set, entered with no match; \<open>chr_val\<close> is the value of a \<open>char\<close> on the
  platform (plain \<open>char\<close> may be signed). \<open>Some None\<close> is an early \<open>return false\<close>; otherwise whether
  the character matched, and \<open>p\<close> where the loop left it.
\<close>

fun set_loop :: "(byte \<Rightarrow> int) \<Rightarrow> byte \<Rightarrow> byte list \<Rightarrow> (bool \<times> byte list) option option" where
  "set_loop chr_val b (c # d # e # p) =
     (if c = NUL then Some (Some (False, d # e # p))
      else if d = NUL then Some None
      else if d = CHR ''-'' then
        (if e = NUL then Some None
         else if e \<noteq> CHR '']'' then
           (if b = c \<or> b = e \<or> chr_val b > chr_val c \<and> chr_val b < chr_val e
            then Some (Some (True, e # p))
            else set_loop chr_val b (e # p))
         else Some (Some (chr_val b \<ge> chr_val c, e # p)))
      else if d \<noteq> CHR '']'' then
        (if c = b \<or> d = b then Some (Some (True, d # e # p)) else set_loop chr_val b (d # e # p))
      else Some (Some (c = b, d # e # p)))"
| "set_loop chr_val b [c, d] =
     (if c = NUL then Some (Some (False, [d]))
      else if d = NUL then Some None
      else if d = CHR ''-'' then None
      else if d \<noteq> CHR '']'' then
        (if c = b \<or> d = b then Some (Some (True, [d])) else set_loop chr_val b [d])
      else Some (Some (c = b, [d])))"
| "set_loop chr_val b [c] = (if c = NUL then Some (Some (False, [])) else None)"
| "set_loop chr_val b [] = None"

text \<open>The \<open>[\<close> case, after the bracket: \<open>Some None\<close> is \<open>return false\<close>, else \<open>p\<close> past the set.\<close>

definition match_set :: "(byte \<Rightarrow> int) \<Rightarrow> byte \<Rightarrow> byte list \<Rightarrow> byte list option option" where
  "match_set chr_val b p =
     (case p of
        [] \<Rightarrow> None
      | c # p1 \<Rightarrow>
          let negate = (c = CHR ''!'') in
          (case set_loop chr_val b (if negate then p1 else p) of
             None \<Rightarrow> None
           | Some None \<Rightarrow> Some None
           | Some (Some (hit, p2)) \<Rightarrow>
               if negate = hit then Some None else after_close (CHR '']'') p2))"

text \<open>Inside braces, on a mismatch: to the next comma, closing brace or terminator.\<close>

fun skip_alternative :: "byte list \<Rightarrow> byte list option" where
  "skip_alternative [] = None"
| "skip_alternative (c # p) =
     (if c = CHR '','' \<or> c = CHR ''}'' \<or> c = NUL then Some (c # p) else skip_alternative p)"

lemma skip_stars_length: "skip_stars p = Some q \<Longrightarrow> length q \<le> length p"
  by (induction p) (auto split: if_splits)

lemma after_close_length: "after_close c p = Some (Some q) \<Longrightarrow> length q < length p"
  by (induction p) (auto split: if_splits)

lemma set_loop_length: "set_loop chr_val b p = Some (Some (h, q)) \<Longrightarrow> length q \<le> length p"
  by (induction chr_val b p rule: set_loop.induct) (auto split: if_splits)

lemma match_set_length: "match_set chr_val b p = Some (Some q) \<Longrightarrow> length q < length p"
  by (cases p)
     (auto simp: match_set_def Let_def split: option.splits if_splits dest!: set_loop_length after_close_length)

lemma skip_alternative_length: "skip_alternative p = Some q \<Longrightarrow> length q \<le> length p"
  by (induction p) (auto split: if_splits)

section \<open>The matcher\<close>

text \<open>
  \<open>lo_pattern_match\<close> is the outer loop; \<open>match_star\<close> the loop that tries each rest of the string
  after a \<open>*\<close>; \<open>match_brace\<close> the loop over a brace list, with \<open>place\<close> and \<open>remainder\<close> as in the code.
  \<open>str--\<close> before the closing \<open>str++\<close> is no step. The loop over the list may also run into the
  terminator; the code then goes on past it.
\<close>

function (sequential)
  lo_pattern_match :: "(byte \<Rightarrow> int) \<Rightarrow> byte list \<Rightarrow> byte list \<Rightarrow> bool option" and
  match_star :: "(byte \<Rightarrow> int) \<Rightarrow> byte list \<Rightarrow> byte list \<Rightarrow> bool option" and
  match_brace :: "(byte \<Rightarrow> int) \<Rightarrow> byte list \<Rightarrow> byte list \<Rightarrow> byte list \<Rightarrow> byte list \<Rightarrow> bool option" where
  "lo_pattern_match chr_val s [] = None"
| "lo_pattern_match chr_val [] (c # p) = None"
| "lo_pattern_match chr_val (b # s) (c # p) =
     (if c = NUL then Some (b = NUL)
      else if b = NUL \<and> c \<noteq> CHR ''*'' then Some False
      else if c = CHR ''*'' then
        (case skip_stars p of
           None \<Rightarrow> None
         | Some [] \<Rightarrow> None
         | Some (d # p2) \<Rightarrow>
             if d = NUL then Some True
             else (case (if d \<noteq> CHR ''?'' \<and> d \<noteq> CHR ''['' \<and> d \<noteq> CHR ''{''
                         then skip_until d (b # s) else Some (b # s)) of
                     None \<Rightarrow> None
                   | Some s2 \<Rightarrow> match_star chr_val s2 (d # p2)))
      else if c = CHR ''?'' then lo_pattern_match chr_val s p
      else if c = CHR ''['' then
        (case match_set chr_val b p of
           None \<Rightarrow> None
         | Some None \<Rightarrow> Some False
         | Some (Some p2) \<Rightarrow> lo_pattern_match chr_val s p2)
      else if c = CHR ''{'' then
        (case after_close (CHR ''}'') p of
           None \<Rightarrow> None
         | Some None \<Rightarrow> Some False
         | Some (Some remainder) \<Rightarrow> match_brace chr_val (b # s) (b # s) remainder p)
      else if c \<noteq> b then Some False
      else lo_pattern_match chr_val s p)"
| "match_star chr_val [] p = None"
| "match_star chr_val (b # s) p =
     (if b = NUL then Some False
      else (case lo_pattern_match chr_val (b # s) p of
              None \<Rightarrow> None
            | Some True \<Rightarrow> Some True
            | Some False \<Rightarrow> match_star chr_val s p))"
| "match_brace chr_val s place remainder [] = None"
| "match_brace chr_val s place remainder (c # p) =
     (if c = NUL then lo_pattern_match chr_val (drop 1 s) p
      else if c = CHR '','' then
        (case lo_pattern_match chr_val s remainder of
           None \<Rightarrow> None
         | Some True \<Rightarrow> Some True
         | Some False \<Rightarrow>
             (case p of
                [] \<Rightarrow> None
              | d # p2 \<Rightarrow> if d = NUL then Some False else match_brace chr_val place place remainder p2))
      else if c = CHR ''}'' then
        (case p of
           [] \<Rightarrow> None
         | d # p2 \<Rightarrow>
             if d = NUL \<and> take 1 s = [NUL] then Some True
             else if d = NUL \<and> s = [] then None
             else lo_pattern_match chr_val s p)
      else (case s of
        [] \<Rightarrow> None
      | b # s1 \<Rightarrow>
          if c = b then
            (case s1 of
               [] \<Rightarrow> None
             | b1 # _ \<Rightarrow>
                 if b1 = NUL then
                   (case remainder of
                      [] \<Rightarrow> None
                    | r # _ \<Rightarrow> if r \<noteq> NUL then Some False else match_brace chr_val s1 place remainder p)
                 else match_brace chr_val s1 place remainder p)
          else
            (case skip_alternative p of
               None \<Rightarrow> None
             | Some [] \<Rightarrow> None
             | Some (d # p2) \<Rightarrow>
                 if d = CHR '','' then match_brace chr_val place place remainder p2
                 else if d = CHR ''}'' then Some False
                 else match_brace chr_val place place remainder (d # p2))))"
  by pat_completeness auto
termination
  by (relation "inv_image (less_than <*lex*> less_than)
       (\<lambda>x. case x of
          Inl (v, s, p) \<Rightarrow> (length p, 0)
        | Inr (Inl (v, s, p)) \<Rightarrow> (length p, Suc (length s))
        | Inr (Inr (v, s, place, remainder, p)) \<Rightarrow> (max (length remainder) (length p), Suc (length p)))")
     (auto dest!: skip_stars_length after_close_length match_set_length skip_alternative_length)

declare lo_pattern_match.simps [simp del] match_star.simps [simp del] match_brace.simps [simp del]

section \<open>Character sets\<close>

definition set_plain :: "byte list \<Rightarrow> bool" where
  "set_plain cs \<longleftrightarrow> cs \<noteq> [] \<and> (\<forall>c \<in> set cs. c \<noteq> NUL \<and> c \<noteq> CHR ''-'' \<and> c \<noteq> CHR '']'')"

lemma after_close_set:
  "(\<And>c. c \<in> set cs \<Longrightarrow> c \<noteq> NUL \<and> c \<noteq> CHR '']'') \<Longrightarrow> after_close (CHR '']'') (cs @ CHR '']'' # q) = Some (Some q)"
  by (induction cs) auto

lemma set_loop_plain:
  "set_plain cs \<Longrightarrow> q \<noteq> [] \<Longrightarrow>
   \<exists>p. set_loop v b (cs @ CHR '']'' # q) = Some (Some (b \<in> set cs, p)) \<and> after_close (CHR '']'') p = Some (Some q)"
proof (induction cs)
  case (Cons c cs)
  obtain e q' where q: "q = e # q'" using Cons.prems(2) by (cases q) auto
  have c: "c \<noteq> NUL" using Cons.prems(1) by (simp add: set_plain_def)
  show ?case
  proof (cases cs)
    case Nil
    then show ?thesis using c q by auto
  next
    case (Cons d cs')
    have d: "d \<noteq> NUL" "d \<noteq> CHR ''-''" "d \<noteq> CHR '']''" "set_plain cs"
      using \<open>set_plain (c # cs)\<close> Cons by (simp_all add: set_plain_def)
    have ac: "after_close (CHR '']'') ((d # cs') @ CHR '']'' # q) = Some (Some q)"
      by (rule after_close_set) (use d(4) Cons in \<open>auto simp: set_plain_def\<close>)
    obtain f r where f: "cs' @ CHR '']'' # q = f # r" by (cases cs') auto
    show ?thesis
    proof (cases "c = b \<or> d = b")
      case True
      then show ?thesis using c d ac Cons by (auto simp: f)
    next
      case False
      then show ?thesis using c d Cons.IH [OF d(4) \<open>q \<noteq> []\<close>] Cons by (auto simp: f)
    qed
  qed
qed (simp add: set_plain_def)

lemma match_set_plain:
  assumes "set_plain cs" "q \<noteq> []"
  shows "hd cs \<noteq> CHR ''!'' \<Longrightarrow> match_set v b (cs @ CHR '']'' # q) = Some (if b \<in> set cs then Some q else None)"
    and "match_set v b (CHR ''!'' # cs @ CHR '']'' # q) = Some (if b \<notin> set cs then Some q else None)"
proof -
  obtain p where p: "set_loop v b (cs @ CHR '']'' # q) = Some (Some (b \<in> set cs, p))"
      "after_close (CHR '']'') p = Some (Some q)"
    using set_loop_plain [OF assms] by blast
  obtain c cs' where cs: "cs = c # cs'" using assms(1) by (cases cs) (auto simp: set_plain_def)
  show "hd cs \<noteq> CHR ''!'' \<Longrightarrow> match_set v b (cs @ CHR '']'' # q) = Some (if b \<in> set cs then Some q else None)"
    using p by (auto simp: match_set_def cs)
  show "match_set v b (CHR ''!'' # cs @ CHR '']'' # q) = Some (if b \<notin> set cs then Some q else None)"
    using p by (auto simp: match_set_def)
qed

lemma match_set_range:
  assumes "c \<noteq> NUL" "c \<noteq> CHR ''!''" "e \<noteq> NUL" "e \<noteq> CHR '']''" "q \<noteq> []"
  shows "match_set v b (c # CHR ''-'' # e # CHR '']'' # q) =
    Some (if b = c \<or> b = e \<or> v c < v b \<and> v b < v e then Some q else None)"
proof -
  obtain f q' where q: "q = f # q'" using assms(5) by (cases q) auto
  show ?thesis using assms by (auto simp: match_set_def q)
qed

section \<open>One alternative in braces\<close>

lemma match_brace_walk:
  "(\<And>c. c \<in> set w \<Longrightarrow> c \<noteq> NUL \<and> c \<noteq> CHR '','' \<and> c \<noteq> CHR ''}'') \<Longrightarrow> NUL \<notin> set t \<Longrightarrow>
   t \<noteq> [] \<or> take 1 remainder = [NUL] \<Longrightarrow>
   match_brace v (w @ t @ [NUL]) place remainder (w @ p) = match_brace v (t @ [NUL]) place remainder p"
proof (induction w)
  case (Cons c w)
  have c: "c \<noteq> NUL" "c \<noteq> CHR '',''" "c \<noteq> CHR ''}''" using Cons.prems(1) by auto
  have IH: "match_brace v (w @ t @ [NUL]) place remainder (w @ p) = match_brace v (t @ [NUL]) place remainder p"
    using Cons.prems by (intro Cons.IH) auto
  obtain b s where s: "w @ t @ [NUL] = b # s" by (cases "w @ t @ [NUL]") auto
  have "b \<noteq> NUL \<or> take 1 remainder = [NUL]"
    using s Cons.prems by (cases w; cases t) auto
  then show ?case using c IH by (cases remainder) (auto simp: s match_brace.simps)
qed simp

lemma match_one_alternative:
  assumes "\<And>c. c \<in> set w \<Longrightarrow> c \<noteq> NUL \<and> c \<noteq> CHR '','' \<and> c \<noteq> CHR ''}''" "w \<noteq> []" "NUL \<notin> set t" "NUL \<notin> set q"
    and "t \<noteq> [] \<or> q = []"
  shows "lo_pattern_match v ((w @ t) @ [NUL]) (CHR ''{'' # w @ CHR ''}'' # q @ [NUL]) =
     lo_pattern_match v (t @ [NUL]) (q @ [NUL])"
proof -
  obtain b w' where w: "w = b # w'" using assms(2) by (cases w) auto
  have ac: "after_close (CHR ''}'') (w @ CHR ''}'' # q @ [NUL]) = Some (Some (q @ [NUL]))"
    using assms(1) by (induction w) auto
  have "b \<noteq> NUL" using assms(1) by (simp add: w)
  then have "lo_pattern_match v ((w @ t) @ [NUL]) (CHR ''{'' # w @ CHR ''}'' # q @ [NUL]) =
      match_brace v (w @ t @ [NUL]) (w @ t @ [NUL]) (q @ [NUL]) (w @ CHR ''}'' # q @ [NUL])"
    using ac by (simp add: w lo_pattern_match.simps)
  also have "\<dots> = match_brace v (t @ [NUL]) (w @ t @ [NUL]) (q @ [NUL]) (CHR ''}'' # q @ [NUL])"
    using assms by (intro match_brace_walk) auto
  also have "\<dots> = lo_pattern_match v (t @ [NUL]) (q @ [NUL])"
    using assms(4) by (cases q; cases t) (auto simp: match_brace.simps lo_pattern_match.simps)
  finally show ?thesis .
qed

section \<open>Memory behind the strings\<close>

text \<open>What lies behind the memory a call has read does not change its result.\<close>

lemma skip_stars_extends: "skip_stars p = Some q \<Longrightarrow> skip_stars (p @ y) = Some (q @ y)"
  by (induction p) (auto split: if_splits)

lemma skip_until_extends: "skip_until c s = Some q \<Longrightarrow> skip_until c (s @ y) = Some (q @ y)"
  by (induction s) (auto split: if_splits)

lemma skip_alternative_extends: "skip_alternative p = Some q \<Longrightarrow> skip_alternative (p @ y) = Some (q @ y)"
  by (induction p) (auto split: if_splits)

lemma after_close_extends:
  "after_close c p = Some r \<Longrightarrow> after_close c (p @ y) = Some (map_option (\<lambda>q. q @ y) r)"
  by (induction p) (auto split: if_splits)

declare set_loop.simps [simp del]

lemma set_loop_extends:
  "set_loop v b p = Some r \<Longrightarrow> set_loop v b (p @ y) = Some (map_option (\<lambda>(h, q). (h, q @ y)) r)"
proof (induction v b p rule: set_loop.induct)
  case (1 v b c d e p)
  let ?hit = "b = c \<or> b = e \<or> v b > v c \<and> v b < v e"
  consider "c = NUL" | "c \<noteq> NUL" "d = NUL"
    | "c \<noteq> NUL" "d = CHR ''-''" "e = NUL" | "c \<noteq> NUL" "d = CHR ''-''" "e = CHR '']''"
    | "c \<noteq> NUL" "d = CHR ''-''" "e \<noteq> NUL" "e \<noteq> CHR '']''" "?hit"
    | "c \<noteq> NUL" "d = CHR ''-''" "e \<noteq> NUL" "e \<noteq> CHR '']''" "\<not> ?hit"
    | "c \<noteq> NUL" "d = CHR '']''"
    | "c \<noteq> NUL" "d \<noteq> NUL" "d \<noteq> CHR ''-''" "d \<noteq> CHR '']''" "c = b \<or> d = b"
    | "c \<noteq> NUL" "d \<noteq> NUL" "d \<noteq> CHR ''-''" "d \<noteq> CHR '']''" "\<not> (c = b \<or> d = b)"
    by blast
  then show ?case by cases (insert 1, auto simp: set_loop.simps(1))
next
  case (2 v b c d)
  show ?case
  proof (cases y)
    case Nil
    then show ?thesis using 2(2) by (simp add: option.map_ident)
  next
    case (Cons e y')
    consider "c = NUL" | "c \<noteq> NUL" "d = NUL" | "c \<noteq> NUL" "d = CHR ''-''" | "c \<noteq> NUL" "d = CHR '']''"
      | "c \<noteq> NUL" "d \<noteq> NUL" "d \<noteq> CHR ''-''" "d \<noteq> CHR '']''" "c = b \<or> d = b"
      | "c \<noteq> NUL" "d \<noteq> NUL" "d \<noteq> CHR ''-''" "d \<noteq> CHR '']''" "\<not> (c = b \<or> d = b)"
      by blast
    then show ?thesis by cases (insert 2(2), auto simp: Cons set_loop.simps)
  qed
next
  case (3 v b c)
  then have c: "c = NUL" "r = Some (False, [])" by (auto simp: set_loop.simps split: if_splits)
  have "set_loop v b (NUL # y) = Some (Some (False, y))" by (cases y; cases "tl y") (auto simp: set_loop.simps)
  then show ?case using c by simp
qed (simp add: set_loop.simps)
lemma match_set_extends:
  assumes "match_set v b p = Some r"
  shows "match_set v b (p @ y) = Some (map_option (\<lambda>q. q @ y) r)"
proof (cases p)
  case (Cons c p1)
  let ?q = "if c = CHR ''!'' then p1 else p"
  obtain l where l: "set_loop v b ?q = Some l"
    using assms Cons by (auto simp: match_set_def Let_def split: option.splits)
  have "set_loop v b (?q @ y) = Some (map_option (\<lambda>(h, q). (h, q @ y)) l)"
    by (rule set_loop_extends [OF l])
  moreover have "after_close (CHR '']'') (q @ y) = Some (map_option (\<lambda>q. q @ y) r)"
    if "after_close (CHR '']'') q = Some r" for q
    using that by (rule after_close_extends)
  ultimately show ?thesis
    using assms Cons l by (auto simp: match_set_def Let_def split: option.splits prod.splits if_splits)
qed (use assms in \<open>simp add: match_set_def\<close>)

lemma match_extends:
  "lo_pattern_match v s p = Some r \<Longrightarrow> lo_pattern_match v (s @ x) (p @ y) = Some r"
  "match_star v s p = Some r \<Longrightarrow> match_star v (s @ x) (p @ y) = Some r"
  "match_brace v s place remainder p = Some r \<Longrightarrow>
     match_brace v (s @ x) (place @ x) (remainder @ y) (p @ y) = Some r"
proof (induction v s p and v s p and v s place remainder p arbitrary: r and r and r
    rule: lo_pattern_match_match_star_match_brace.induct)
  case (3 v b s c p)
  have q: "(b # s) @ x = b # (s @ x)" "(c # p) @ y = c # (p @ y)" by simp_all
  note P = "3.prems" [unfolded lo_pattern_match.simps(3) [of v b s c p]]
  note G = lo_pattern_match.simps(3) [of v b "s @ x" c "p @ y"]
  consider "c = NUL" | "c \<noteq> NUL" "b = NUL" "c \<noteq> CHR ''*''" | "c = CHR ''*''"
    | "b \<noteq> NUL" "c = CHR ''?''" | "b \<noteq> NUL" "c = CHR ''[''" | "b \<noteq> NUL" "c = CHR ''{''"
    | "c \<noteq> NUL" "b \<noteq> NUL" "c \<noteq> CHR ''*''" "c \<noteq> CHR ''?''" "c \<noteq> CHR ''[''" "c \<noteq> CHR ''{''"
    by blast
  then have "lo_pattern_match v (b # (s @ x)) (c # (p @ y)) = Some r"
  proof cases
    case star: 3
    obtain d p2 where d: "skip_stars p = Some (d # p2)"
      using P star by (auto split: option.splits list.splits)
    note d' = skip_stars_extends [OF d, of y]
    show ?thesis
    proof (cases "d = NUL")
      case False
      let ?until = "\<lambda>s. if d \<noteq> CHR ''?'' \<and> d \<noteq> CHR ''['' \<and> d \<noteq> CHR ''{'' then skip_until d s else Some s"
      obtain s2 where s2: "?until (b # s) = Some s2" "match_star v s2 (d # p2) = Some r"
        using P star d False by (auto split: option.splits)
      have "?until (b # (s @ x)) = Some (s2 @ x)"
        using s2(1) skip_until_extends [of d "b # s" s2 x] by (auto split: if_splits)
      moreover have "match_star v (s2 @ x) ((d # p2) @ y) = Some r"
        using "3.IH"(1) star d False s2 by simp
      ultimately show ?thesis unfolding G using star d' False by simp
    qed (unfold G, use P star d d' in simp)
  next
    case 5
    then show ?thesis unfolding G using P "3.IH" match_set_extends [of v b p _ y] by (auto split: option.splits)
  next
    case 6
    then show ?thesis unfolding G using P "3.IH" after_close_extends [of "CHR ''}''" p _ y] by (auto split: option.splits)
  qed (unfold G, use P "3.IH" in \<open>auto split: if_split_asm\<close>)
  then show ?case unfolding q .
next
  case (5 v b s p)
  then show ?case by (auto simp: match_star.simps split: if_splits option.splits bool.splits)
next
  case (7 v s place remainder c p)
  have q: "(c # p) @ y = c # (p @ y)" by simp
  note P = "7.prems" [unfolded match_brace.simps(2) [of v s place remainder c p]]
  note G = match_brace.simps(2) [of v "s @ x" "place @ x" "remainder @ y" c "p @ y"]
  have nil: "lo_pattern_match v [] t = None" for t by (cases t) (simp_all add: lo_pattern_match.simps)
  consider "c = NUL" | "c = CHR '',''" | "c = CHR ''}''" | "c \<noteq> NUL" "c \<noteq> CHR '',''" "c \<noteq> CHR ''}''"
    by blast
  then have "match_brace v (s @ x) (place @ x) (remainder @ y) (c # (p @ y)) = Some r"
  proof cases
    case 1
    then show ?thesis unfolding G using P "7.IH" by (cases s) (auto simp: nil)
  next
    case 2
    then show ?thesis unfolding G using P "7.IH" by (auto split: option.splits bool.splits list.splits)
  next
    case 3
    then show ?thesis unfolding G using P "7.IH" by (cases s) (auto simp: nil split: list.splits if_split_asm)
  next
    case other: 4
    obtain b s1 where s: "s = b # s1" using P other by (cases s) auto
    show ?thesis
    proof (cases "c = b")
      case True
      obtain b1 s2 where s1: "s1 = b1 # s2" using P other s True by (cases s1) auto
      show ?thesis unfolding G using P other s True s1 "7.IH" by (auto split: list.splits if_split_asm)
    next
      case False
      obtain d p2 where d: "skip_alternative p = Some (d # p2)"
        using P other s False by (auto split: option.splits list.splits)
      then have "skip_alternative (p @ y) = Some (d # (p2 @ y))" using skip_alternative_extends by fastforce
      then show ?thesis unfolding G using P other s False d "7.IH" by (auto split: if_split_asm)
    qed
  qed
  then show ?case unfolding q .
qed (simp_all add: lo_pattern_match.simps match_star.simps match_brace.simps)

section \<open>Two alternatives\<close>

definition wordlike :: "byte list \<Rightarrow> bool" where
  "wordlike w \<longleftrightarrow> list_all (\<lambda>c. c \<noteq> NUL \<and> c \<noteq> CHR '','' \<and> c \<noteq> CHR ''}'') w"

lemma wordlike_simps [simp]:
  "wordlike []" "wordlike (c # w) \<longleftrightarrow> c \<noteq> NUL \<and> c \<noteq> CHR '','' \<and> c \<noteq> CHR ''}'' \<and> wordlike w"
  by (auto simp: wordlike_def)

lemma wordlike_set: "wordlike w \<Longrightarrow> c \<in> set w \<Longrightarrow> c \<noteq> NUL \<and> c \<noteq> CHR '','' \<and> c \<noteq> CHR ''}''"
  by (auto simp: wordlike_def list_all_iff)

lemma after_close_word: "wordlike w \<Longrightarrow> after_close (CHR ''}'') (w @ p) = after_close (CHR ''}'') p"
  by (induction w) auto

lemma match_open_brace:
  "b \<noteq> NUL \<Longrightarrow> after_close (CHR ''}'') p = Some (Some remainder) \<Longrightarrow>
   lo_pattern_match v (b # s) (CHR ''{'' # p) = match_brace v (b # s) (b # s) remainder p"
  by (simp add: lo_pattern_match.simps)

lemma match_two_alternatives:
  assumes "wordlike w" "w \<noteq> []" "wordlike (x # u)" "t \<noteq> []" "NUL \<notin> set t"
    and "lo_pattern_match v (t @ [NUL]) (q @ [NUL]) = Some False"
  shows "lo_pattern_match v (w @ t @ [NUL]) (CHR ''{'' # w @ CHR '','' # x # u @ CHR ''}'' # q @ [NUL]) =
     lo_pattern_match v (w @ t @ [NUL]) (CHR ''{'' # u @ CHR ''}'' # q @ [NUL])"
proof -
  let ?r = "q @ [NUL]" and ?s = "w @ t @ [NUL]"
  obtain b w' where w: "w = b # w'" using assms(2) by (cases w) auto
  have b: "b \<noteq> NUL" "wordlike w'" using assms(1) by (simp_all add: w)
  have ac: "after_close (CHR ''}'') (w @ CHR '','' # x # u @ CHR ''}'' # ?r) = Some (Some ?r)"
    "after_close (CHR ''}'') (u @ CHR ''}'' # ?r) = Some (Some ?r)"
    using assms(1,3) by (simp_all add: after_close_word)
  have "lo_pattern_match v ?s (CHR ''{'' # w @ CHR '','' # x # u @ CHR ''}'' # ?r) =
      match_brace v ?s ?s ?r (w @ CHR '','' # x # u @ CHR ''}'' # ?r)"
    using match_open_brace [OF b(1) ac(1), of v "w' @ t @ [NUL]"] by (simp add: w)
  also have "\<dots> = match_brace v (t @ [NUL]) ?s ?r (CHR '','' # x # u @ CHR ''}'' # ?r)"
    using assms(1,4,5) wordlike_set by (intro match_brace_walk) auto
  also have "\<dots> = match_brace v ?s ?s ?r (u @ CHR ''}'' # ?r)"
    using assms(3,6) by (simp add: match_brace.simps(2) [of v "t @ [NUL]"])
  also have "\<dots> = lo_pattern_match v ?s (CHR ''{'' # u @ CHR ''}'' # ?r)"
    using match_open_brace [OF b(1) ac(2), of v "w' @ t @ [NUL]"] by (simp add: w)
  finally show ?thesis .
qed

section \<open>Properties\<close>

text \<open>
  A character set matches one character: with \<open>cs\<close> free of the set's own special characters,
  \<open>[cs]\<close> takes a character of \<open>cs\<close> and \<open>[!cs]\<close> one that is not, and the rest of the string must
  match the rest of the pattern.
\<close>

theorem match_character_set:
  assumes "set_plain cs" "b \<noteq> NUL"
  shows "(hd cs \<noteq> CHR ''!'' \<longrightarrow> lo_pattern_match v (b # s) (CHR ''['' # cs @ CHR '']'' # q @ [NUL]) =
      (if b \<in> set cs then lo_pattern_match v s (q @ [NUL]) else Some False)) \<and>
    lo_pattern_match v (b # s) (CHR ''['' # CHR ''!'' # cs @ CHR '']'' # q @ [NUL]) =
      (if b \<notin> set cs then lo_pattern_match v s (q @ [NUL]) else Some False)"
  using match_set_plain [OF assms(1), of "q @ [NUL]" v b] assms(2)
  by (simp add: lo_pattern_match.simps(3) [of v b s])

text \<open>
  A range \<open>[c-e]\<close> takes the characters between its ends, in the order of the platform's \<open>char\<close>,
  and its two ends in any case.
\<close>

theorem match_character_range:
  assumes "c \<noteq> NUL" "c \<noteq> CHR ''!''" "e \<noteq> NUL" "e \<noteq> CHR '']''" "b \<noteq> NUL"
  shows "lo_pattern_match v (b # s) (CHR ''['' # c # CHR ''-'' # e # CHR '']'' # q @ [NUL]) =
    (if b = c \<or> b = e \<or> v c < v b \<and> v b < v e then lo_pattern_match v s (q @ [NUL]) else Some False)"
  using match_set_range [OF assms(1-4), of "q @ [NUL]" v b] assms(5)
  by (simp add: lo_pattern_match.simps(3) [of v b s])

text \<open>
  A brace list of one alternative stands for that word, followed by the rest of the pattern.
\<close>

theorem match_single_alternative:
  assumes "wordlike w" "w \<noteq> []" "NUL \<notin> set t" "NUL \<notin> set q" "t \<noteq> [] \<or> q = []"
  shows "lo_pattern_match v ((w @ t) @ [NUL]) (CHR ''{'' # w @ CHR ''}'' # q @ [NUL]) =
     lo_pattern_match v (t @ [NUL]) (q @ [NUL])"
  using assms wordlike_set by (intro match_one_alternative) blast+

text \<open>
  When the first of two alternatives fits but the rest of the pattern then fails, the matcher
  steps over the first character of the second alternative without comparing it: the result is that
  of the list with only what follows that character.
\<close>

theorem second_alternative_loses_first_character:
  assumes "wordlike w" "w \<noteq> []" "wordlike (x # u)" "t \<noteq> []" "NUL \<notin> set t"
    and "lo_pattern_match v (t @ [NUL]) (q @ [NUL]) = Some False"
  shows "lo_pattern_match v (w @ t @ [NUL]) (CHR ''{'' # w @ CHR '','' # x # u @ CHR ''}'' # q @ [NUL]) =
     lo_pattern_match v (w @ t @ [NUL]) (CHR ''{'' # u @ CHR ''}'' # q @ [NUL])"
  using assms by (rule match_two_alternatives)

text \<open>
  A pattern that ends in \<open>[!\<close> is read behind its terminator by every non-empty string.
\<close>

theorem unterminated_negation_overread:
  assumes "b \<noteq> NUL"
  shows "lo_pattern_match v (b # s) [CHR ''['', CHR ''!'', NUL] = None"
  using assms by (simp add: lo_pattern_match.simps match_set_def set_loop.simps)

section \<open>Witnesses\<close>

theorem match_character_set_witness: "lo_pattern_match of_char [CHR ''b'', NUL] (''[!xy]'' @ [NUL]) = Some True"
  using match_character_set [of "''xy''" "CHR ''b''" of_char "[NUL]" "[]"]
  by (simp add: set_plain_def lo_pattern_match.simps)

theorem match_character_range_witness:
  "lo_pattern_match of_char [CHR ''5'', NUL] (''[0-9]'' @ [NUL]) = Some True"
  using match_character_range [of "CHR ''0''" "CHR ''9''" "CHR ''5''" of_char "[NUL]" "[]"]
  by (simp add: lo_pattern_match.simps)

theorem match_single_alternative_witness:
  "lo_pattern_match of_char (''abx'' @ [NUL]) (''{ab}x'' @ [NUL]) = Some True"
  using match_single_alternative [of "''ab''" "''x''" "''x''" of_char] by (simp add: lo_pattern_match.simps)

text \<open>So \<open>{a,ab}c\<close> does not match \<open>abc\<close>, and \<open>{a,xab}c\<close> does.\<close>

theorem second_alternative_loses_first_character_witness:
  "lo_pattern_match of_char (''abc'' @ [NUL]) (''{a,ab}c'' @ [NUL]) = Some False"
  using second_alternative_loses_first_character [of "''a''" "CHR ''a''" "''b''" "''bc''" of_char "''c''"]
  by (simp add: lo_pattern_match.simps match_brace.simps)

theorem unterminated_negation_overread_witness: "lo_pattern_match of_char ''a'' (''[!'' @ [NUL]) = None"
  using unterminated_negation_overread [of "CHR ''a''" of_char "[]"] by simp

end
