(* ===== verification/Glob.thy ===== *)
theory Glob
  imports Pattern
begin

text \<open>
  What \<open>lo_pattern_match\<close> computes: patterns as syntax trees, the matcher one would write for them, and
  the proof that the code agrees with it; as a special case, patterns without sets and braces.
\<close>

section \<open>Patterns as syntax trees\<close>

text \<open>
  A pattern the grammar of the comment in the source describes, with a single word in braces, and
  its text. \<open>gmatch\<close> is the matcher one would write for it: \<open>*\<close> stands for any sequence, also one that
  crosses a slash.
\<close>

fun any_suffix :: "(byte list \<Rightarrow> bool) \<Rightarrow> byte list \<Rightarrow> bool" where
  "any_suffix f [] = f []"
| "any_suffix f (b # s) = (f (b # s) \<or> any_suffix f s)"

lemma any_suffix_refl: "f s \<Longrightarrow> any_suffix f s"
  by (cases s) auto

lemma any_suffix_end: "f [] \<Longrightarrow> any_suffix f s"
  by (induction s) auto

lemma any_suffix_idem: "any_suffix (any_suffix f) s = any_suffix f s"
  by (induction s) auto

lemma any_suffix_from:
  "(\<And>t. f t \<Longrightarrow> t \<noteq> [] \<and> hd t = d) \<Longrightarrow> any_suffix f (dropWhile (\<lambda>x. x \<noteq> d) s) = any_suffix f s"
  by (induction s) force+

lemma any_suffix_nonempty:
  assumes "\<not> f []"
  shows "any_suffix (\<lambda>t. t \<noteq> [] \<and> f t) s = any_suffix f s"
proof -
  have "(\<lambda>t. t \<noteq> [] \<and> f t) = f" using assms by (auto simp: fun_eq_iff)
  then show ?thesis by simp
qed

datatype set_item = One byte | Range byte byte

datatype pat_item = Lit byte | AnyOne | Star | OneOf bool "set_item list" | Word "byte list"

primrec set_item_text :: "set_item \<Rightarrow> byte list" where
  "set_item_text (One c) = [c]"
| "set_item_text (Range c e) = [c, CHR ''-'', e]"

primrec item_text :: "pat_item \<Rightarrow> byte list" where
  "item_text (Lit c) = [c]"
| "item_text AnyOne = ''?''"
| "item_text Star = ''*''"
| "item_text (OneOf neg xs) = CHR ''['' # (if neg then ''!'' else []) @ concat (map set_item_text xs) @ '']''"
| "item_text (Word w) = CHR ''{'' # w @ ''}''"

abbreviation pat_text :: "pat_item list \<Rightarrow> byte list" where
  "pat_text is \<equiv> concat (map item_text is)"

primrec in_item :: "(byte \<Rightarrow> int) \<Rightarrow> byte \<Rightarrow> set_item \<Rightarrow> bool" where
  "in_item v b (One c) = (b = c)"
| "in_item v b (Range c e) = (b = c \<or> b = e \<or> v c < v b \<and> v b < v e)"

fun gmatch :: "(byte \<Rightarrow> int) \<Rightarrow> pat_item list \<Rightarrow> byte list \<Rightarrow> bool" where
  "gmatch v [] s = (s = [])"
| "gmatch v (Lit c # is) s = (s \<noteq> [] \<and> hd s = c \<and> gmatch v is (tl s))"
| "gmatch v (AnyOne # is) s = (s \<noteq> [] \<and> gmatch v is (tl s))"
| "gmatch v (OneOf neg xs # is) s = (s \<noteq> [] \<and> list_ex (in_item v (hd s)) xs \<noteq> neg \<and> gmatch v is (tl s))"
| "gmatch v (Word w # is) s = (take (length w) s = w \<and> gmatch v is (drop (length w) s))"
| "gmatch v (Star # is) s = any_suffix (gmatch v is) s"

text \<open>
  The reference with the one liberty the matcher takes: behind a word in braces that is not the last item there must
  be something left of the string, though stars alone would match nothing.
\<close>

fun smatch :: "(byte \<Rightarrow> int) \<Rightarrow> pat_item list \<Rightarrow> byte list \<Rightarrow> bool" where
  "smatch v [] s = (s = [])"
| "smatch v (Lit c # is) s = (s \<noteq> [] \<and> hd s = c \<and> smatch v is (tl s))"
| "smatch v (AnyOne # is) s = (s \<noteq> [] \<and> smatch v is (tl s))"
| "smatch v (OneOf neg xs # is) s = (s \<noteq> [] \<and> list_ex (in_item v (hd s)) xs \<noteq> neg \<and> smatch v is (tl s))"
| "smatch v (Word w # is) s = (take (length w) s = w \<and> (is = [] \<or> length w < length s) \<and> smatch v is (drop (length w) s))"
| "smatch v (Star # is) s = any_suffix (smatch v is) s"

text \<open>
  The characters each item may hold, so that the text has the tree for its only reading. In \<open>pat_ok\<close> a word in
  braces may moreover not be followed by stars alone.
\<close>

definition set_char :: "byte \<Rightarrow> bool" where
  "set_char c \<longleftrightarrow> c \<noteq> NUL \<and> c \<noteq> CHR ''-'' \<and> c \<noteq> CHR '']''"

primrec set_item_ok :: "set_item \<Rightarrow> bool" where
  "set_item_ok (One c) = set_char c"
| "set_item_ok (Range c e) = (set_char c \<and> set_char e)"

primrec first_char :: "set_item \<Rightarrow> byte" where
  "first_char (One c) = c"
| "first_char (Range c e) = c"

primrec item_ok :: "pat_item \<Rightarrow> bool" where
  "item_ok (Lit c) = (c \<noteq> NUL \<and> c \<noteq> CHR ''*'' \<and> c \<noteq> CHR ''?'' \<and> c \<noteq> CHR ''['' \<and> c \<noteq> CHR ''{'')"
| "item_ok AnyOne = True"
| "item_ok Star = True"
| "item_ok (OneOf neg xs) = (xs \<noteq> [] \<and> list_all set_item_ok xs \<and> (neg \<or> first_char (hd xs) \<noteq> CHR ''!''))"
| "item_ok (Word w) = (w \<noteq> [] \<and> wordlike w)"

fun pat_ok :: "pat_item list \<Rightarrow> bool" where
  "pat_ok [] = True"
| "pat_ok (Word w # is) = (item_ok (Word w) \<and> (is = [] \<or> \<not> list_all ((=) Star) is) \<and> pat_ok is)"
| "pat_ok (i # is) = (item_ok i \<and> pat_ok is)"

abbreviation items_ok :: "pat_item list \<Rightarrow> bool" where
  "items_ok is \<equiv> list_all item_ok is"

lemma pat_ok_Cons: "pat_ok (i # is) \<Longrightarrow> item_ok i \<and> pat_ok is"
  by (cases i) auto

lemma pat_ok_items: "pat_ok is \<Longrightarrow> items_ok is"
  by (induction "is") (auto dest: pat_ok_Cons)

lemma items_ok_dropWhile: "items_ok is \<Longrightarrow> items_ok (dropWhile P is)"
  by (auto simp: list_all_iff dest: set_dropWhileD)

lemma smatch_empty: "items_ok is \<Longrightarrow> smatch v is [] \<longleftrightarrow> list_all ((=) Star) is"
proof (induction "is")
  case (Cons i "is")
  then show ?case by (cases i) auto
qed simp

lemma smatch_Star: "smatch v (Star # is) = any_suffix (smatch v is)"
  by (rule ext) simp

lemma any_suffix_dropStars: "any_suffix (smatch v is) s = any_suffix (smatch v (dropWhile ((=) Star) is)) s"
proof (induction "is")
  case (Cons i "is")
  then show ?case by (cases "i = Star") (auto simp: smatch_Star any_suffix_idem)
qed simp

lemma skip_stars_items:
  "items_ok is \<Longrightarrow> skip_stars (pat_text is @ [NUL]) = Some (pat_text (dropWhile ((=) Star) is) @ [NUL])"
proof (induction "is")
  case (Cons i "is")
  then show ?case by (cases i) auto
qed simp

text \<open>Without a word before stars there is no difference.\<close>

lemma smatch_gmatch: "pat_ok is \<Longrightarrow> smatch v is = gmatch v is"
proof (induction "is")
  case (Cons i "is")
  then have IH: "smatch v is = gmatch v is" and ok: "items_ok is" by (auto dest: pat_ok_Cons pat_ok_items)
  show ?case
  proof (cases i)
    case (Word w)
    have "gmatch v is [] \<longleftrightarrow> is = []"
      using smatch_empty [OF ok, of v] Cons.prems Word unfolding IH by auto
    then show ?thesis using IH by (auto simp: Word fun_eq_iff not_less)
  qed (simp_all add: IH fun_eq_iff)
qed (simp add: fun_eq_iff)

section \<open>The code on each item\<close>

subsection \<open>Sets\<close>

abbreviation set_text :: "set_item list \<Rightarrow> byte list" where
  "set_text xs \<equiv> concat (map set_item_text xs)"

lemma set_text_chars: "list_all set_item_ok xs \<Longrightarrow> c \<in> set (set_text xs) \<Longrightarrow> c \<noteq> NUL \<and> c \<noteq> CHR '']''"
proof (induction xs)
  case (Cons x xs)
  then show ?case by (cases x) (auto simp: set_char_def)
qed simp

lemma after_close_set_text:
  assumes "list_all set_item_ok xs"
  shows "after_close (CHR '']'') (set_text xs @ CHR '']'' # q) = Some (Some q)"
  using set_text_chars [OF assms] by (intro after_close_set) blast

lemma set_loop_range:
  assumes "set_char c" "set_char f" "r \<noteq> []"
  shows "set_loop v b (c # CHR ''-'' # f # r) =
    (if in_item v b (Range c f) then Some (Some (True, f # r)) else set_loop v b (f # r))"
  using assms by (cases r) (simp_all add: set_char_def set_loop.simps)

lemma set_loop_pair:
  assumes "set_char c" "set_char d" "r \<noteq> []"
  shows "set_loop v b (c # d # r) =
    (if b = c \<or> b = d then Some (Some (True, d # r)) else set_loop v b (d # r))"
  using assms by (cases r) (auto simp: set_char_def set_loop.simps)

text \<open>The loop with the character \<open>c\<close> read before the items \<open>xs\<close>.\<close>

lemma set_loop_items:
  "set_char c \<Longrightarrow> list_all set_item_ok xs \<Longrightarrow> q \<noteq> [] \<Longrightarrow>
   \<exists>p. set_loop v b (c # set_text xs @ CHR '']'' # q) = Some (Some (b = c \<or> list_ex (in_item v b) xs, p)) \<and>
     after_close (CHR '']'') p = Some (Some q)"
proof (induction xs arbitrary: c)
  case Nil
  then obtain e q' where "q = e # q'" by (cases q) auto
  with Nil show ?case by (auto simp: set_char_def set_loop.simps eq_commute [of b c])
next
  case (Cons x xs)
  have ac: "after_close (CHR '']'') (d # set_text xs @ CHR '']'' # q) = Some (Some q)" if "set_char d" for d
    using after_close_set_text [of xs q] Cons.prems(2) that by (simp add: set_char_def)
  have ne: "set_text xs @ CHR '']'' # q \<noteq> []" by simp
  show ?case
  proof (cases x)
    case (One d)
    then show ?thesis
      using Cons.prems Cons.IH [of d] ac [of d] set_loop_pair [OF _ _ ne, of c d v b]
      by (cases "b = c \<or> b = d") auto
  next
    case (Range d f)
    have ac2: "after_close (CHR '']'') (d # CHR ''-'' # f # set_text xs @ CHR '']'' # q) = Some (Some q)"
      using Cons.prems(2) ac [of f] Range by (simp add: set_char_def)
    show ?thesis
      using Cons.prems Cons.IH [of f] ac [of f] ac2 Range
        set_loop_pair [of c d "CHR ''-'' # f # set_text xs @ CHR '']'' # q" v b] set_loop_range [OF _ _ ne, of d f v b]
      by (cases "b = c \<or> b = d"; cases "b = f \<or> v d < v b \<and> v b < v f") auto
  qed
qed

lemma set_loop_set:
  assumes "xs \<noteq> []" "list_all set_item_ok xs" "q \<noteq> []"
  shows "\<exists>p. set_loop v b (set_text xs @ CHR '']'' # q) = Some (Some (list_ex (in_item v b) xs, p)) \<and>
    after_close (CHR '']'') p = Some (Some q)"
proof -
  obtain x ys where xs: "xs = x # ys" using assms(1) by (cases xs) auto
  have ne: "set_text ys @ CHR '']'' # q \<noteq> []" by simp
  show ?thesis
  proof (cases x)
    case (One c)
    then show ?thesis using set_loop_items [of c ys q v b] assms xs by simp
  next
    case (Range c f)
    then show ?thesis
      using set_loop_items [of f ys q v b] set_loop_range [OF _ _ ne, of c f v b] assms xs
        after_close_set_text [of ys q]
      by (cases "b = c \<or> b = f \<or> v c < v b \<and> v b < v f") (auto simp: set_char_def)
  qed
qed

lemma match_set_items:
  assumes "item_ok (OneOf neg xs)" "q \<noteq> []"
  shows "match_set v b ((if neg then ''!'' else []) @ set_text xs @ CHR '']'' # q) =
    Some (if list_ex (in_item v b) xs \<noteq> neg then Some q else None)"
proof -
  obtain p where p: "set_loop v b (set_text xs @ CHR '']'' # q) = Some (Some (list_ex (in_item v b) xs, p))"
      "after_close (CHR '']'') p = Some (Some q)"
    using set_loop_set [of xs q v b] assms by auto
  obtain x ys where xs: "xs = x # ys" using assms(1) by (cases xs) auto
  obtain r where r: "set_text xs @ CHR '']'' # q = first_char x # r" unfolding xs by (cases x) auto
  show ?thesis
  proof (cases neg)
    case True
    then show ?thesis using p by (simp add: match_set_def)
  next
    case False
    then show ?thesis using p assms(1) unfolding r by (simp add: match_set_def xs)
  qed
qed

subsection \<open>Words in braces\<close>

lemma skip_alternative_word: "wordlike w \<Longrightarrow> skip_alternative (w @ CHR ''}'' # p) = Some (CHR ''}'' # p)"
  by (induction w) auto

lemma match_brace_misfit:
  "wordlike w \<Longrightarrow> NUL \<notin> set s \<Longrightarrow> r \<noteq> [] \<Longrightarrow> take (length w) s \<noteq> w \<Longrightarrow>
   match_brace v (s @ [NUL]) place r (w @ CHR ''}'' # p) = Some False"
proof (induction w arbitrary: s)
  case (Cons c w)
  have c: "c \<noteq> NUL" "c \<noteq> CHR '',''" "c \<noteq> CHR ''}''" "wordlike w" using Cons.prems(1) by simp_all
  show ?case
  proof (cases "s \<noteq> [] \<and> hd s = c")
    case True
    then obtain t where s: "s = c # t" by (cases s) auto
    have IH: "match_brace v (t @ [NUL]) place r (w @ CHR ''}'' # p) = Some False"
      using Cons.prems by (intro Cons.IH) (auto simp: s)
    obtain e z where "t @ [NUL] = e # z" by (cases t) auto
    then show ?thesis using IH c Cons.prems(3) by (cases r) (auto simp: s match_brace.simps)
  next
    case False
    then show ?thesis using c by (cases s) (auto simp: match_brace.simps skip_alternative_word)
  qed
qed simp

text \<open>
  A word that uses up the string while the pattern goes on: the matcher gives up, even when what
  follows could stand for nothing.
\<close>

lemma match_brace_used_up:
  "wordlike w \<Longrightarrow> w \<noteq> [] \<Longrightarrow> d \<noteq> NUL \<Longrightarrow> match_brace v (w @ [NUL]) place (d # r) (w @ p) = Some False"
proof (induction w)
  case (Cons c w)
  then show ?case by (cases w) (auto simp: match_brace.simps)
qed simp

lemma match_word:
  assumes "item_ok (Word w)" "NUL \<notin> set s" "NUL \<notin> set q" "s \<noteq> []"
  shows "lo_pattern_match v (s @ [NUL]) (CHR ''{'' # w @ CHR ''}'' # q @ [NUL]) =
    (if take (length w) s = w \<and> (length w < length s \<or> q = [])
     then lo_pattern_match v (drop (length w) s @ [NUL]) (q @ [NUL]) else Some False)"
proof -
  have w: "wordlike w" "w \<noteq> []" using assms(1) by simp_all
  obtain b s' where s: "s = b # s'" "b \<noteq> NUL" using assms(2,4) by (cases s) auto
  have open_brace: "lo_pattern_match v (s @ [NUL]) (CHR ''{'' # w @ CHR ''}'' # q @ [NUL]) =
      match_brace v (s @ [NUL]) (s @ [NUL]) (q @ [NUL]) (w @ CHR ''}'' # q @ [NUL])"
    using match_open_brace [OF s(2), of "w @ CHR ''}'' # q @ [NUL]" "q @ [NUL]" v "s' @ [NUL]"] w(1)
    by (simp add: s after_close_word)
  consider (misfit) "take (length w) s \<noteq> w" | (used_up) "s = w" "q \<noteq> []"
    | (fits) "take (length w) s = w" "length w < length s \<or> q = []"
    by (metis append_take_drop_id append_Nil2 drop_eq_Nil leI)
  then show ?thesis
  proof cases
    case misfit
    then show ?thesis using open_brace match_brace_misfit [OF w(1) assms(2)] by simp
  next
    case used_up
    then obtain d r where q: "q = d # r" "d \<noteq> NUL" using assms(3) by (cases q) auto
    show ?thesis
      using open_brace match_brace_used_up [OF w q(2), of v "s @ [NUL]" "r @ [NUL]" "CHR ''}'' # q @ [NUL]"]
      by (simp add: used_up(1) q)
  next
    case fits
    define t where "t = drop (length w) s"
    have st: "s = w @ t" using fits(1) append_take_drop_id [of "length w" s] by (simp add: t_def)
    have "lo_pattern_match v ((w @ t) @ [NUL]) (CHR ''{'' # w @ CHR ''}'' # q @ [NUL]) =
        lo_pattern_match v (t @ [NUL]) (q @ [NUL])"
      using fits(2) assms(2,3) wordlike_set [OF w(1)] w(2) by (intro match_one_alternative) (auto simp: st)
    then show ?thesis using fits(2) by (simp add: st)
  qed
qed

section \<open>The matcher against its reference\<close>

lemma pat_text_chars: "items_ok is \<Longrightarrow> NUL \<notin> set (pat_text is)"
proof (induction "is")
  case (Cons i "is")
  then have "NUL \<notin> set (pat_text is)" "item_ok i" by auto
  then show ?case
    by (cases i) (auto dest: set_text_chars wordlike_set simp del: set_concat set_map)
qed simp

lemma item_text_nonempty [simp]: "item_text i \<noteq> []"
  by (cases i) auto

lemma skip_until_terminated [simp]:
  "NUL \<notin> set s \<Longrightarrow> skip_until d (s @ [NUL]) = Some (dropWhile (\<lambda>x. x \<noteq> d) s @ [NUL])"
  by (induction s) auto

lemma match_star_any:
  "(\<And>t. NUL \<notin> set t \<Longrightarrow> lo_pattern_match v (t @ [NUL]) p = Some (f t)) \<Longrightarrow> NUL \<notin> set s \<Longrightarrow>
   match_star v (s @ [NUL]) p = Some (any_suffix (\<lambda>t. t \<noteq> [] \<and> f t) s)"
proof (induction s)
  case (Cons b s)
  then have "lo_pattern_match v ((b # s) @ [NUL]) p = Some (f (b # s))" by blast
  with Cons show ?case by (auto simp: match_star.simps split: bool.splits)
qed (simp add: match_star.simps)

text \<open>One step of the outer loop for each item that takes one character.\<close>

lemma match_lit_step:
  assumes "item_ok (Lit c)"
  shows "lo_pattern_match v (s @ [NUL]) (c # p) =
    (if s \<noteq> [] \<and> hd s = c then lo_pattern_match v (tl s @ [NUL]) p else Some False)"
  using assms by (cases s) (simp_all add: lo_pattern_match.simps)

lemma match_any_step:
  assumes "NUL \<notin> set s"
  shows "lo_pattern_match v (s @ [NUL]) (CHR ''?'' # p) =
    (if s \<noteq> [] then lo_pattern_match v (tl s @ [NUL]) p else Some False)"
  using assms by (cases s) (simp_all add: lo_pattern_match.simps, blast)

lemma match_set_step:
  assumes "item_ok (OneOf neg xs)" "NUL \<notin> set s" "p \<noteq> []"
  shows "lo_pattern_match v (s @ [NUL]) (item_text (OneOf neg xs) @ p) =
    (if s \<noteq> [] \<and> list_ex (in_item v (hd s)) xs \<noteq> neg then lo_pattern_match v (tl s @ [NUL]) p else Some False)"
proof (cases s)
  case (Cons b t)
  then have "b \<noteq> NUL" using assms(2) by auto
  then show ?thesis
    using match_set_items [OF assms(1,3), of v b] Cons by (simp add: lo_pattern_match.simps)
qed (simp add: lo_pattern_match.simps)

text \<open>The stars read, the search goes on where the next item can begin.\<close>

lemma match_after_star:
  assumes "items_ok (i # is)" "i \<noteq> Star" "NUL \<notin> set s"
    and "\<And>t. NUL \<notin> set t \<Longrightarrow>
      lo_pattern_match v (t @ [NUL]) (pat_text (i # is) @ [NUL]) = Some (smatch v (i # is) t)"
    and "skip_stars p = Some (pat_text (i # is) @ [NUL])"
  shows "lo_pattern_match v (s @ [NUL]) (CHR ''*'' # p) = Some (any_suffix (smatch v (i # is)) s)"
proof -
  let ?q = "pat_text (i # is)"
  obtain d q' where q: "?q = d # q'" by (cases i) auto
  have d: "d \<noteq> NUL" using pat_text_chars [OF assms(1)] unfolding q by auto
  define s2 where
    "s2 = (if d \<noteq> CHR ''?'' \<and> d \<noteq> CHR ''['' \<and> d \<noteq> CHR ''{'' then dropWhile (\<lambda>x. x \<noteq> d) s else s)"
  have s2: "NUL \<notin> set s2" using assms(3) by (auto simp: s2_def dest: set_dropWhileD)
  obtain b s' where s: "s @ [NUL] = b # s'" by (cases s) auto
  have sk: "skip_stars p = Some (d # q' @ [NUL])" using assms(5) unfolding q by simp
  have su: "skip_until d (b # s') = Some (dropWhile (\<lambda>x. x \<noteq> d) s @ [NUL])"
    using skip_until_terminated [OF assms(3), of d] unfolding s .
  have "lo_pattern_match v (s @ [NUL]) (CHR ''*'' # p) = match_star v (s2 @ [NUL]) (?q @ [NUL])"
    unfolding q using d sk su by (simp add: lo_pattern_match.simps s2_def s del: skip_until.simps)
  also have "\<dots> = Some (any_suffix (\<lambda>t. t \<noteq> [] \<and> smatch v (i # is) t) s2)"
    using s2 assms(4) by (intro match_star_any)
  also have "any_suffix (\<lambda>t. t \<noteq> [] \<and> smatch v (i # is) t) s2 = any_suffix (smatch v (i # is)) s2"
    using smatch_empty [OF assms(1)] assms(2) by (intro any_suffix_nonempty) auto
  also have "\<dots> = any_suffix (smatch v (i # is)) s"
  proof (cases "\<exists>c. i = Lit c")
    case True
    then show ?thesis using q assms(1) by (auto simp: s2_def intro!: any_suffix_from)
  next
    case False
    then have "s2 = s" using q assms(2) by (cases i) (auto simp: s2_def)
    then show ?thesis by simp
  qed
  finally show ?thesis .
qed

lemma match_items_all:
  "items_ok is \<Longrightarrow> NUL \<notin> set s \<Longrightarrow> lo_pattern_match v (s @ [NUL]) (pat_text is @ [NUL]) = Some (smatch v is s)"
proof (induction "is" arbitrary: s rule: length_induct)
  case (1 "is")
  show ?case
  proof (cases "is")
    case Nil
    then show ?thesis using "1.prems" by (cases s) (auto simp: lo_pattern_match.simps)
  next
    case (Cons i js)
    have ok: "item_ok i" "items_ok js" using "1.prems"(1) Cons by simp_all
    have IH: "lo_pattern_match v (t @ [NUL]) (pat_text ks @ [NUL]) = Some (smatch v ks t)"
      if "length ks \<le> length js" "items_ok ks" "NUL \<notin> set t" for ks t
      using "1.IH" that Cons by simp
    have IHjs: "lo_pattern_match v (t @ [NUL]) (pat_text js @ [NUL]) = Some (smatch v js t)" if "NUL \<notin> set t" for t
      using IH [OF order_refl ok(2) that] .
    have tl: "lo_pattern_match v (tl s @ [NUL]) (pat_text js @ [NUL]) = Some (smatch v js (tl s))"
      using "1.prems"(2) by (intro IHjs) (cases s, simp_all)
    show ?thesis
    proof (cases i)
      case (Lit c)
      then show ?thesis using match_lit_step [of c v s "pat_text js @ [NUL]"] ok(1) unfolding tl by (simp add: Cons)
    next
      case AnyOne
      then show ?thesis using match_any_step [OF "1.prems"(2), of v "pat_text js @ [NUL]"] unfolding tl by (simp add: Cons)
    next
      case (OneOf neg xs)
      have "lo_pattern_match v (s @ [NUL]) (item_text (OneOf neg xs) @ pat_text js @ [NUL]) = Some (smatch v is s)"
        using match_set_step [OF _ "1.prems"(2), of neg xs "pat_text js @ [NUL]" v] ok(1)
        unfolding tl by (simp add: Cons OneOf)
      then show ?thesis by (simp only: Cons OneOf list.map concat.simps append_assoc)
    next
      case (Word w)
      let ?t = "drop (length w) s"
      have g: "smatch v is s = (take (length w) s = w \<and> (length w < length s \<or> js = []) \<and> smatch v js ?t)"
        by (auto simp: Cons Word)
      show ?thesis
      proof (cases "s = []")
        case True
        then show ?thesis using ok(1) by (auto simp: Cons Word lo_pattern_match.simps)
      next
        case False
        have t: "lo_pattern_match v (?t @ [NUL]) (pat_text js @ [NUL]) = Some (smatch v js ?t)"
          using "1.prems"(2) by (intro IHjs) (auto dest: in_set_dropD)
        have nil: "pat_text js = [] \<longleftrightarrow> js = []" by (cases js) simp_all
        have "lo_pattern_match v (s @ [NUL]) (pat_text is @ [NUL]) =
            (if take (length w) s = w \<and> (length w < length s \<or> js = []) then Some (smatch v js ?t) else Some False)"
          using match_word [OF _ "1.prems"(2) pat_text_chars [OF ok(2)] False, of w v] ok(1)
          unfolding nil t by (simp add: Cons Word)
        then show ?thesis unfolding g by simp
      qed
    next
      case Star
      let ?ks = "dropWhile ((=) Star) js"
      have sk: "skip_stars (pat_text js @ [NUL]) = Some (pat_text ?ks @ [NUL])"
        by (rule skip_stars_items [OF ok(2)])
      have g: "smatch v is s = any_suffix (smatch v ?ks) s"
        unfolding Cons Star smatch_Star by (rule any_suffix_dropStars)
      have "lo_pattern_match v (s @ [NUL]) (CHR ''*'' # pat_text js @ [NUL]) = Some (any_suffix (smatch v ?ks) s)"
      proof (cases ?ks)
        case Nil
        have sk: "skip_stars (pat_text js @ [NUL]) = Some [NUL]" using sk unfolding Nil by simp
        have "any_suffix (smatch v []) s" by (rule any_suffix_end) simp
        then show ?thesis unfolding Nil by (cases s) (simp_all add: lo_pattern_match.simps sk)
      next
        case (Cons k ks)
        have k: "k \<noteq> Star" using hd_dropWhile [of "(=) Star" js] Cons by auto
        have ks: "items_ok (k # ks)" "length (k # ks) \<le> length js"
          using items_ok_dropWhile [OF ok(2)] length_dropWhile_le [of "(=) Star" js] by (simp_all flip: Cons)
        show ?thesis
          unfolding Cons using IH [OF ks(2,1)] sk unfolding Cons
          by (intro match_after_star [OF ks(1) k "1.prems"(2)])
      qed
      then show ?thesis unfolding g by (simp add: Cons Star)
    qed
  qed
qed

lemma match_items:
  "pat_ok is \<Longrightarrow> NUL \<notin> set s \<Longrightarrow> lo_pattern_match v (s @ [NUL]) (pat_text is @ [NUL]) = Some (gmatch v is s)"
  using match_items_all pat_ok_items smatch_gmatch by metis

section \<open>Reading a pattern\<close>

text \<open>
  The syntax tree of a text. What follows the characters of a set or a word up to its end is the rest of
  the pattern; a text is readable when it is that of its tree.
\<close>

fun parse_set :: "byte list \<Rightarrow> set_item list \<times> byte list" where
  "parse_set [] = ([], [])"
| "parse_set [c] = (if c = CHR '']'' then ([], []) else ([One c], []))"
| "parse_set [c, d] = (if c = CHR '']'' then ([], [d]) else let (xs, r) = parse_set [d] in (One c # xs, r))"
| "parse_set (c # d # e # p) =
     (if c = CHR '']'' then ([], d # e # p)
      else if d = CHR ''-'' then let (xs, r) = parse_set p in (Range c e # xs, r)
      else let (xs, r) = parse_set (d # e # p) in (One c # xs, r))"

lemma parse_set_length: "length (snd (parse_set p)) \<le> length p"
  by (induction p rule: parse_set.induct) (auto split: prod.splits)

function parse_pat :: "byte list \<Rightarrow> pat_item list" where
  "parse_pat [] = []"
| "parse_pat (c # p) =
     (if c = CHR ''*'' then Star # parse_pat p
      else if c = CHR ''?'' then AnyOne # parse_pat p
      else if c = CHR ''['' then
        let neg = (take 1 p = ''!'');
            s = parse_set (if neg then tl p else p)
        in OneOf neg (fst s) # parse_pat (snd s)
      else if c = CHR ''{'' then
        Word (takeWhile (\<lambda>b. b \<noteq> CHR ''}'') p) # parse_pat (tl (dropWhile (\<lambda>b. b \<noteq> CHR ''}'') p))
      else Lit c # parse_pat p)"
  by pat_completeness auto
termination
proof (relation "measure length")
  fix c :: byte and p :: "byte list" and neg s
  assume "s = parse_set (if neg then tl p else p)"
  then have "length (snd s) \<le> length (if neg then tl p else p)" using parse_set_length by blast
  then show "(snd s, c # p) \<in> measure length" by (auto split: if_splits)
next
  fix c :: byte and p :: "byte list"
  have "length (dropWhile (\<lambda>b. b \<noteq> CHR ''}'') p) \<le> length p" by (rule length_dropWhile_le)
  then show "(tl (dropWhile (\<lambda>b. b \<noteq> CHR ''}'') p), c # p) \<in> measure length" by simp
qed simp_all

definition readable :: "byte list \<Rightarrow> bool" where
  "readable p \<longleftrightarrow> pat_ok (parse_pat p) \<and> pat_text (parse_pat p) = p"

lemma parse_set_text:
  "list_all set_item_ok xs \<Longrightarrow> parse_set (set_text xs @ CHR '']'' # q) = (xs, q)"
proof (induction xs)
  case Nil
  show ?case by (cases q; cases "tl q") auto
next
  case (Cons x xs)
  have IH: "parse_set (set_text xs @ CHR '']'' # q) = (xs, q)" using Cons by simp
  obtain e r where r: "set_text xs @ CHR '']'' # q = e # r" by (cases "set_text xs") auto
  have e: "e \<noteq> CHR ''-''"
    using r Cons.prems by (cases xs; cases "hd xs") (auto simp: set_char_def)
  show ?case
  proof (cases x)
    case (One c)
    then show ?thesis using Cons.prems IH e unfolding r by (cases r) (simp_all add: r set_char_def)
  next
    case (Range c d)
    then show ?thesis using Cons.prems IH by (simp add: set_char_def)
  qed
qed

text \<open>The text of a tree has no other reading.\<close>

lemma parse_pat_text: "pat_ok is \<Longrightarrow> parse_pat (pat_text is) = is"
proof (induction "is")
  case (Cons i "is")
  then have i: "item_ok i" and IH: "parse_pat (pat_text is) = is" by (auto dest: pat_ok_Cons)
  show ?case
  proof (cases i)
    case (OneOf neg xs)
    have s: "parse_set (set_text xs @ CHR '']'' # pat_text is) = (xs, pat_text is)"
      using i OneOf by (intro parse_set_text) simp
    obtain x ys where xs: "xs = x # ys" using i OneOf by (cases xs) auto
    obtain r where r: "set_text xs @ CHR '']'' # pat_text is = first_char x # r" unfolding xs by (cases x) auto
    show ?thesis
    proof (cases neg)
      case True
      then show ?thesis using OneOf s IH by simp
    next
      case False
      then have "first_char x \<noteq> CHR ''!''" using i OneOf xs by simp
      then show ?thesis using OneOf s IH False unfolding OneOf by (simp add: r)
    qed
  next
    case (Word w)
    have "takeWhile (\<lambda>b. b \<noteq> CHR ''}'') (w @ CHR ''}'' # q) = w"
      "dropWhile (\<lambda>b. b \<noteq> CHR ''}'') (w @ CHR ''}'' # q) = CHR ''}'' # q" for q
      using i Word wordlike_set [of w] by (simp_all add: takeWhile_tail dropWhile_append3)
    then show ?thesis using Word IH by simp
  qed (use i IH in simp_all)
qed simp

lemma readable_iff: "readable p \<longleftrightarrow> (\<exists>is. pat_ok is \<and> p = pat_text is)"
  using parse_pat_text by (auto simp: readable_def)

section \<open>Patterns of literals, \<open>?\<close> and \<open>*\<close>\<close>

text \<open>The reference on the text itself, for the patterns without brackets and braces.\<close>

primrec glob :: "byte list \<Rightarrow> byte list \<Rightarrow> bool" where
  "glob [] s = (s = [])"
| "glob (c # p) s =
     (if c = CHR ''*'' then any_suffix (glob p) s
      else if c = CHR ''?'' then s \<noteq> [] \<and> glob p (tl s)
      else s \<noteq> [] \<and> hd s = c \<and> glob p (tl s))"

definition plain :: "byte list \<Rightarrow> bool" where
  "plain p \<longleftrightarrow> (\<forall>c \<in> set p. c \<noteq> NUL \<and> c \<noteq> CHR ''['' \<and> c \<noteq> CHR ''{'')"

definition literal :: "byte list \<Rightarrow> bool" where
  "literal p \<longleftrightarrow> plain p \<and> (\<forall>c \<in> set p. c \<noteq> CHR ''*'' \<and> c \<noteq> CHR ''?'')"

lemma literal_Cons:
  "literal (c # p) \<longleftrightarrow> c \<noteq> NUL \<and> c \<noteq> CHR ''['' \<and> c \<noteq> CHR ''{'' \<and> c \<noteq> CHR ''*'' \<and> c \<noteq> CHR ''?'' \<and> literal p"
  unfolding literal_def plain_def list.set by blast

lemma glob_literal: "literal p \<Longrightarrow> glob p s \<longleftrightarrow> s = p"
proof (induction p arbitrary: s)
  case (Cons c p)
  then have "c \<noteq> CHR ''*''" "c \<noteq> CHR ''?''" "literal p" unfolding literal_Cons by blast+
  with Cons.IH show ?case by (cases s) auto
qed simp

lemma glob_star: "glob (CHR ''*'' # p) = any_suffix (glob p)"
  by (rule ext) simp

lemma plain_Cons: "plain (c # p) \<longleftrightarrow> c \<noteq> NUL \<and> c \<noteq> CHR ''['' \<and> c \<noteq> CHR ''{'' \<and> plain p"
  by (auto simp: plain_def)


definition items_of :: "byte list \<Rightarrow> pat_item list" where
  "items_of p = map (\<lambda>c. if c = CHR ''*'' then Star else if c = CHR ''?'' then AnyOne else Lit c) p"

lemma items_of_Cons:
  "items_of (c # p) = (if c = CHR ''*'' then Star else if c = CHR ''?'' then AnyOne else Lit c) # items_of p"
  by (simp add: items_of_def)

lemma items_of_plain:
  "plain p \<Longrightarrow> pat_ok (items_of p) \<and> pat_text (items_of p) = p \<and> gmatch v (items_of p) = glob p"
proof (induction p)
  case Nil
  show ?case by (simp add: items_of_def fun_eq_iff)
next
  case (Cons c p)
  then have IH: "pat_ok (items_of p)" "pat_text (items_of p) = p" "gmatch v (items_of p) = glob p"
    and c: "c \<noteq> NUL" "c \<noteq> CHR ''[''" "c \<noteq> CHR ''{''"
    by (simp_all add: plain_Cons)
  have "gmatch v (items_of (c # p)) s = glob (c # p) s" for s by (simp add: items_of_Cons IH(3))
  then show ?case using IH(1,2) c by (simp add: items_of_Cons fun_eq_iff)
qed

lemma plain_readable: "plain p \<Longrightarrow> readable p"
  unfolding readable_iff using items_of_plain [of p of_char] by metis

lemma match_glob:
  "plain p \<Longrightarrow> NUL \<notin> set s \<Longrightarrow> lo_pattern_match v (s @ [NUL]) (p @ [NUL]) = Some (glob p s)"
  using match_items [of "items_of p" s v] items_of_plain [of p v] by simp

section \<open>Properties\<close>

text \<open>
  C18: A pattern of literals, \<open>?\<close>, \<open>*\<close>, character sets and single words in braces, with the characters \<open>item_ok\<close>
  allows in each, is read as its grammar says, for every string and every order of characters: on the text of the
  pattern the matcher gives what the matcher \<open>smatch\<close> gives on its syntax tree, and reads nothing behind the two
  terminators. That is the reference \<open>gmatch\<close>, but for one thing: a word that is followed by stars alone, as in
  \<open>{on}*\<close>, does not match itself; in patterns without such a word (\<open>pat_ok\<close>) the two are the same.
\<close>

theorem match_is_reference:
  assumes "items_ok is" "NUL \<notin> set s"
  shows "lo_pattern_match v (s @ NUL # x) (pat_text is @ NUL # y) = Some (smatch v is s) \<and>
    (pat_ok is \<longrightarrow> smatch v is s = gmatch v is s)"
  using match_extends(1) [OF match_items_all [OF assms], where x = x and y = y] smatch_gmatch by simp

text \<open>
  For patterns of literals, \<open>?\<close> and \<open>*\<close> the matcher agrees with the declarative \<open>glob\<close> on every
  string, and reads nothing behind the two terminators; a pattern of literals only matches itself.
\<close>

theorem match_is_glob:
  assumes "plain p" "NUL \<notin> set s"
  shows "lo_pattern_match v (s @ NUL # x) (p @ NUL # y) = Some (glob p s) \<and> (literal p \<longrightarrow> glob p s = (s = p))"
  using match_extends(1) [OF match_glob [OF assms], where x = x and y = y] glob_literal [of p s] by simp

text \<open>
  A word in braces followed by stars does not match the word itself, though a star stands for any
  sequence, the empty one included: the matcher gives up when the string ends at the brace.
\<close>

theorem word_before_star_needs_more:
  assumes "wordlike w" "w \<noteq> []"
  shows "lo_pattern_match v (w @ [NUL]) (CHR ''{'' # w @ CHR ''}'' # CHR ''*'' # [NUL]) = Some False \<and>
    gmatch v [Word w, Star] w"
  using match_word [of w w "''*''" v] wordlike_set [OF assms(1)] assms by auto

text \<open>A set is negated by \<open>!\<close>; \<open>^\<close> is one of its characters.\<close>

theorem caret_is_member:
  assumes "c \<noteq> NUL"
  shows "lo_pattern_match v [c, NUL] (''[^a]'' @ [NUL]) = Some (c = CHR ''^'' \<or> c = CHR ''a'')"
    and "lo_pattern_match v [c, NUL] (''[!a]'' @ [NUL]) = Some (c \<noteq> CHR ''a'')"
  using assms match_items_all [of "[OneOf False [One (CHR ''^''), One (CHR ''a'')]]" "[c]" v]
    match_items_all [of "[OneOf True [One (CHR ''a'')]]" "[c]" v]
  by (auto simp: set_char_def)

section \<open>Witnesses\<close>

theorem match_is_reference_witness:
  "lo_pattern_match of_char (''/ch7/on'' @ [NUL]) (''/ch[0-9x]*/{on}'' @ [NUL]) = Some True \<and>
   lo_pattern_match of_char (''on'' @ [NUL]) (''{on}*'' @ [NUL]) = Some False"
  using match_is_reference [of "[Lit (CHR ''/''), Lit (CHR ''c''), Lit (CHR ''h''), OneOf False [Range (CHR ''0'') (CHR ''9''), One (CHR ''x'')], Star, Lit (CHR ''/''), Word ''on'']"
    "''/ch7/on''" of_char "[]" "[]"] match_is_reference [of "[Word ''on'', Star]" "''on''" of_char "[]" "[]"]
  by (simp add: set_char_def)

theorem match_is_glob_witness: "lo_pattern_match of_char (''/a/xyz'' @ [NUL]) (''/a/*z'' @ [NUL]) = Some True"
  using match_is_glob [of "''/a/*z''" "''/a/xyz''" of_char "[]" "[]"] by (simp add: plain_def)

theorem word_before_star_needs_more_witness:
  "lo_pattern_match of_char (''on'' @ [NUL]) (''{on}*'' @ [NUL]) = Some False"
  using word_before_star_needs_more [of "''on''" of_char] by simp

end
