(* ===== verification/Methods.thy ===== *)
theory Methods
  imports Glob
begin

text \<open>
  The method table of a server (\<open>src/server.c\<close>, \<open>lo_method\<close> of \<open>src/lo_types_internal.h\<close>):
  \<open>lo_server_add_method\<close>, \<open>lo_server_del_method\<close> and the path test of \<open>dispatch_method\<close>. The linked
  list is the list of its nodes. A handler is named by a number.
\<close>

record lo_method =
  mt_path :: "byte list ptr"
  mt_typespec :: "byte list ptr"
  mt_handler :: nat
  mt_user_data :: nat

text \<open>\<open>strpbrk(path, " #*,?[]{}") != NULL\<close>\<close>

definition is_pattern :: "byte list \<Rightarrow> bool" where
  "is_pattern path \<longleftrightarrow> list_ex (\<lambda>c. List.member '' #*,?[]{}'' c) path"

text \<open>The returned method (NULL when refused) and the list; the allocation is not checked.\<close>

definition lo_server_add_method ::
  "alloc \<Rightarrow> lo_method list \<Rightarrow> byte list ptr \<Rightarrow> byte list ptr \<Rightarrow> nat \<Rightarrow> nat \<Rightarrow>
   (lo_method ptr \<times> lo_method list) option" where
  "lo_server_add_method al ms path typespec h user_data =
     (if (case path of NULL \<Rightarrow> False | Ref p \<Rightarrow> is_pattern p) then Some (NULL, ms)
      else if al At_struct 0 = None then None
      else
        let m = \<lparr>mt_path = strdup al path, mt_typespec = strdup al typespec,
                 mt_handler = h, mt_user_data = user_data\<rparr>
        in Some (Ref m, ms @ [m]))"

text \<open>
  The test of the path of a method: equal pointers are two NULLs, since the table holds copies.
\<close>

definition del_path_match ::
  "(byte \<Rightarrow> int) \<Rightarrow> byte list ptr \<Rightarrow> byte list ptr \<Rightarrow> bool option" where
  "del_path_match chr_val it_path path =
     (case (it_path, path) of
        (NULL, NULL) \<Rightarrow> Some True
      | (Ref q, Ref p) \<Rightarrow>
          if p = q then Some True
          else if is_pattern p then lo_pattern_match chr_val (q @ [NUL]) (p @ [NUL])
          else Some False
      | _ \<Rightarrow> Some False)"

fun lo_server_del_method ::
  "(byte \<Rightarrow> int) \<Rightarrow> lo_method list \<Rightarrow> byte list ptr \<Rightarrow> byte list ptr \<Rightarrow> lo_method list option" where
  "lo_server_del_method chr_val [] path typespec = Some []"
| "lo_server_del_method chr_val (m # ms) path typespec = do {
     p \<leftarrow> del_path_match chr_val (mt_path m) path;
     rest \<leftarrow> lo_server_del_method chr_val ms path typespec;
     Some (if p \<and> mt_typespec m = typespec then rest else m # rest)
   }"

text \<open>
  The path test of \<open>dispatch_method\<close>: \<open>path\<close> is the C string at the memory \<open>mem\<close> of the received
  message, which the pattern matcher reads.
\<close>

definition path_matches ::
  "(byte \<Rightarrow> int) \<Rightarrow> byte list ptr \<Rightarrow> byte list \<Rightarrow> byte list \<Rightarrow> bool option" where
  "path_matches chr_val it_path path mem =
     (case it_path of
        NULL \<Rightarrow> Some True
      | Ref q \<Rightarrow>
          if path = q then Some True
          else if is_pattern path then lo_pattern_match chr_val (q @ [NUL]) mem
          else Some False)"

section \<open>The table\<close>

text \<open>A table of methods with literal paths: what \<open>lo_server_add_method\<close> lets in.\<close>

definition table_ok :: "lo_method list \<Rightarrow> bool" where
  "table_ok ms \<longleftrightarrow> list_all (\<lambda>m. case mt_path m of NULL \<Rightarrow> True | Ref p \<Rightarrow> \<not> is_pattern p) ms"

lemma add_method_table_ok:
  "table_ok ms \<Longrightarrow> lo_server_add_method al ms path typespec h u = Some (r, ms') \<Longrightarrow> table_ok ms'"
  by (auto simp: lo_server_add_method_def table_ok_def strdup_def Let_def split: if_splits ptr.splits)

lemma del_method_filter:
  "lo_server_del_method v ms path typespec = Some ms' \<Longrightarrow>
   ms' = filter (\<lambda>m. \<not> (del_path_match v (mt_path m) path = Some True \<and> mt_typespec m = typespec)) ms"
  by (induction ms arbitrary: ms') (auto split: bind_splits if_splits)

lemma del_method_table_ok:
  "table_ok ms \<Longrightarrow> lo_server_del_method v ms path typespec = Some ms' \<Longrightarrow> table_ok ms'"
  by (auto simp: table_ok_def list_all_iff dest!: del_method_filter)

text \<open>
  A received path selects the generic methods and those of exactly that path; one with pattern
  characters also those whose path its syntax tree matches.
\<close>

definition selected :: "(byte \<Rightarrow> int) \<Rightarrow> byte list \<Rightarrow> lo_method \<Rightarrow> bool" where
  "selected v path m \<longleftrightarrow>
     (case mt_path m of NULL \<Rightarrow> True | Ref q \<Rightarrow> q = path \<or> is_pattern path \<and> gmatch v (parse_pat path) q)"

lemma match_readable:
  assumes "readable p" "NUL \<notin> set q"
  shows "lo_pattern_match v (q @ [NUL]) (p @ NUL # y) = Some (gmatch v (parse_pat p) q)"
  using match_extends(1) [OF match_items [of "parse_pat p" q v], where x = "[]" and y = y] assms
  by (simp add: readable_def)

definition path_terminable :: "lo_method \<Rightarrow> bool" where
  "path_terminable m \<longleftrightarrow> (case mt_path m of NULL \<Rightarrow> True | Ref q \<Rightarrow> NUL \<notin> set q)"

lemma path_matches_selected:
  assumes "readable path \<or> \<not> is_pattern path" "path_terminable m"
  shows "path_matches v (mt_path m) path (path @ NUL # y) = Some (selected v path m)"
proof (cases "mt_path m")
  case (Ref q)
  have "lo_pattern_match v (q @ [NUL]) (path @ NUL # y) = Some (gmatch v (parse_pat path) q)" if "readable path"
    using assms(2) Ref that by (intro match_readable) (simp_all add: path_terminable_def)
  then show ?thesis using Ref assms(1) by (auto simp: path_matches_def selected_def)
qed (simp add: path_matches_def selected_def)

lemma del_path_match_selected:
  assumes "readable p \<or> \<not> is_pattern p" "path_terminable m"
  shows "del_path_match v (mt_path m) (Ref p) = Some (mt_path m \<noteq> NULL \<and> selected v p m)"
proof (cases "mt_path m")
  case (Ref q)
  then have "del_path_match v (mt_path m) (Ref p) = path_matches v (mt_path m) p (p @ NUL # [])"
    by (simp add: del_path_match_def path_matches_def)
  then show ?thesis unfolding path_matches_selected [OF assms] using Ref by simp
qed (simp add: del_path_match_def)

lemma alloc_total_strdup: "alloc_total al \<Longrightarrow> strdup al s = s"
  by (cases s) (simp_all add: strdup_def alloc_total_def del: not_None_eq)

text \<open>Every table made by adding and removing methods.\<close>

inductive table :: "(byte \<Rightarrow> int) \<Rightarrow> lo_method list \<Rightarrow> bool" for v :: "byte \<Rightarrow> int" where
  empty: "table v []"
| add: "table v ms \<Longrightarrow> lo_server_add_method al ms path spec h u = Some (r, ms') \<Longrightarrow> table v ms'"
| del: "table v ms \<Longrightarrow> lo_server_del_method v ms path spec = Some ms' \<Longrightarrow> table v ms'"

lemma table_table_ok: "table v ms \<Longrightarrow> table_ok ms"
  by (induction rule: table.induct) (auto simp: table_ok_def [of "[]"] intro: add_method_table_ok del_method_table_ok)

section \<open>Properties\<close>

text \<open>
  However methods are added and removed, no method of the table has a path with pattern
  characters, so only the path of a received message is ever used as a pattern.
\<close>

theorem table_paths_literal:
  assumes "table v ms" "m \<in> set ms" "mt_path m = Ref q"
  shows "\<not> is_pattern q"
  using table_table_ok [OF assms(1)] assms(2,3) by (auto simp: table_ok_def list_all_iff)

text \<open>
  \<open>lo_server_add_method\<close> refuses a path with pattern characters and leaves the table alone;
  otherwise the new method, with copies of the two strings, goes behind all others, and a message
  whose path it was added for selects it.
\<close>

theorem add_method_appends:
  assumes "alloc_total al"
  shows "(if \<exists>p. path = Ref p \<and> is_pattern p
      then lo_server_add_method al ms path spec hdl ud = Some (NULL, ms)
      else lo_server_add_method al ms path spec hdl ud =
          Some (Ref \<lparr>mt_path = path, mt_typespec = spec, mt_handler = hdl, mt_user_data = ud\<rparr>,
             ms @ [\<lparr>mt_path = path, mt_typespec = spec, mt_handler = hdl, mt_user_data = ud\<rparr>]) \<and>
        (\<forall>p y. path = NULL \<or> path = Ref p \<longrightarrow> path_matches v path p (p @ NUL # y) = Some True))"
proof -
  have "al At_struct 0 \<noteq> None" using assms unfolding alloc_total_def by blast
  then show ?thesis
    by (auto simp: lo_server_add_method_def alloc_total_strdup [OF assms] path_matches_def Let_def split: ptr.splits)
qed

text \<open>
  Running out of memory for the copy of the path is not noticed: the method is added with no
  path, and so receives the messages of every path.
\<close>

theorem add_method_lost_path_is_generic:
  assumes "\<not> is_pattern p" "al At_struct 0 \<noteq> None" "al At_data (length p + 1) = None"
  shows "\<exists>m. lo_server_add_method al ms (Ref p) spec hdl ud = Some (Ref m, ms @ [m]) \<and>
    (\<forall>path mem. path_matches v (mt_path m) path mem = Some True)"
  using assms by (auto simp: lo_server_add_method_def strdup_def path_matches_def Let_def)

text \<open>
  \<open>lo_server_del_method\<close> removes exactly the methods of the given types that a message of the given
  path would select, the generic ones apart; the others keep their order.
\<close>

theorem del_method_removes:
  assumes "readable p \<or> \<not> is_pattern p" "\<forall>m \<in> set ms. path_terminable m"
  shows "lo_server_del_method v ms (Ref p) spec =
    Some (filter (\<lambda>m. \<not> (mt_path m \<noteq> NULL \<and> selected v p m \<and> mt_typespec m = spec)) ms)"
  using assms(2)
proof (induction ms)
  case (Cons m ms)
  then show ?case using del_path_match_selected [OF assms(1), of m v] by simp
qed simp

section \<open>Witnesses\<close>

definition sample_method :: lo_method where
  "sample_method = \<lparr>mt_path = Ref ''/a'', mt_typespec = Ref ''i'', mt_handler = 1, mt_user_data = 0\<rparr>"

lemma sample_add: "lo_server_add_method al_zero [] (Ref ''/a'') (Ref ''i'') 1 0 = Some (Ref sample_method, [sample_method])"
  by (simp add: lo_server_add_method_def is_pattern_def al_zero_def strdup_def sample_method_def Let_def)

theorem table_paths_literal_witness: "\<not> is_pattern ''/a''"
  using table_paths_literal [OF table.add [OF table.empty sample_add], of sample_method "''/a''"]
  by (simp add: sample_method_def)

theorem add_method_appends_witness:
  "lo_server_add_method al_zero [sample_method] (Ref ''/*'') NULL 2 0 = Some (NULL, [sample_method])"
  using add_method_appends [OF alloc_total_al_zero, of "Ref ''/*''" "[sample_method]" NULL 2 0 of_char]
  by (simp add: is_pattern_def)

definition al_no_data :: alloc where
  "al_no_data k n = (if k = At_data then None else al_zero k n)"

theorem add_method_lost_path_is_generic_witness:
  "\<exists>m. lo_server_add_method al_no_data [] (Ref ''/a'') NULL 1 0 = Some (Ref m, [m]) \<and>
     path_matches of_char (mt_path m) ''/other'' (''/other'' @ [NUL]) = Some True"
  using add_method_lost_path_is_generic [of "''/a''" al_no_data "[]" NULL 1 0 of_char]
  by (auto simp: al_no_data_def al_zero_def is_pattern_def)

theorem del_method_removes_witness:
  "lo_server_del_method of_char [sample_method] (Ref ''/?'') (Ref ''i'') = Some []"
  using del_method_removes [of "''/?''" "[sample_method]" of_char "Ref ''i''"]
  by (simp add: sample_method_def readable_def path_terminable_def is_pattern_def selected_def)

end
