(* ===== verification/Coerce.thy ===== *)
theory Coerce
  imports Message
begin

text \<open>
  Type coercion: \<open>lo_is_numerical_type\<close>, \<open>lo_is_string_type\<close>, \<open>lo_hires_val\<close> and \<open>lo_coerce\<close> of
  \<open>src/message.c\<close>, \<open>lo_can_coerce\<close> and \<open>lo_can_coerce_spec\<close> of \<open>src/server.c\<close>, and the loop of
  \<open>dispatch_method\<close> that builds the coerced arguments for a handler.
\<close>

section \<open>Which types coerce\<close>

text \<open>\<open>strchr\<close> on a string also finds its terminator.\<close>

definition lo_is_numerical_type :: "byte \<Rightarrow> bool" where
  "lo_is_numerical_type c \<longleftrightarrow>
     List.member (map typechar [LO_INT32, LO_FLOAT, LO_INT64, LO_DOUBLE] @ [NUL]) c"

definition lo_is_string_type :: "byte \<Rightarrow> bool" where
  "lo_is_string_type c \<longleftrightarrow> List.member (map typechar [LO_STRING, LO_SYMBOL] @ [NUL]) c"

definition lo_can_coerce :: "byte \<Rightarrow> byte \<Rightarrow> bool" where
  "lo_can_coerce a b \<longleftrightarrow>
     a = b \<or> lo_is_numerical_type a \<and> lo_is_numerical_type b \<or> lo_is_string_type a \<and> lo_is_string_type b"

text \<open>The loop runs over equally long strings.\<close>

definition lo_can_coerce_spec :: "byte list \<Rightarrow> byte list \<Rightarrow> bool" where
  "lo_can_coerce_spec a b \<longleftrightarrow> length a = length b \<and> list_all (\<lambda>(x, y). lo_can_coerce x y) (zip a b)"

section \<open>High-resolution values\<close>

text \<open>
  \<open>lo_hires\<close> (\<open>long double\<close>) holds every value of the four numerical types exactly. A finite value
  is its sign and its magnitude.
\<close>

datatype lo_hires = Fin bool rat | Inf bool | NaN

definition pow2_rat :: "int \<Rightarrow> rat" where
  "pow2_rat e = (if 0 \<le> e then 2 ^ nat e else 1 / 2 ^ nat (- e))"

text \<open>A float with \<open>k\<close> exponent bits and \<open>m\<close> fraction bits, from its bit pattern.\<close>

definition ieee_val :: "nat \<Rightarrow> nat \<Rightarrow> int \<Rightarrow> lo_hires" where
  "ieee_val k m w =
     (let neg = (w div 2 ^ (k + m) mod 2 = 1);
          e = w div 2 ^ m mod 2 ^ k;
          f = w mod 2 ^ m;
          bias = 2 ^ (k - 1) - 1
      in if e = 2 ^ k - 1 then (if f = 0 then Inf neg else NaN)
         else if e = 0 then Fin neg (of_int f * pow2_rat (1 - bias - int m))
         else Fin neg (of_int (2 ^ m + f) * pow2_rat (e - bias - int m)))"

definition int_val :: "int \<Rightarrow> lo_hires" where
  "int_val i = Fin (i < 0) (of_int \<bar>i\<bar>)"

definition lo_hires_val :: "bool \<Rightarrow> byte \<Rightarrow> byte list \<Rightarrow> lo_hires option" where
  "lo_hires_val be t p =
     (case lo_type_of t of
        Some LO_INT32 \<Rightarrow> map_option (\<lambda>w. int_val (sint w)) (rd_host32 be p)
      | Some LO_INT64 \<Rightarrow> map_option (\<lambda>w. int_val (sint w)) (rd_host64 be p)
      | Some LO_FLOAT \<Rightarrow> map_option (\<lambda>w. ieee_val 8 23 (uint w)) (rd_host32 be p)
      | Some LO_DOUBLE \<Rightarrow> map_option (\<lambda>w. ieee_val 11 52 (uint w)) (rd_host64 be p)
      | _ \<Rightarrow> Some (Fin False 0))"

text \<open>
  Conversion to an unsigned integer truncates; it is undefined for a value the type cannot hold,
  which every negative value from -1 on is. Rounding to \<open>float\<close> and \<open>double\<close> depends on the
  rounding mode of the machine and is a parameter.
\<close>

definition to_unsigned :: "nat \<Rightarrow> lo_hires \<Rightarrow> int option" where
  "to_unsigned bits v =
     (case v of
        Fin neg r \<Rightarrow>
          (let t = (if neg then - \<lfloor>r\<rfloor> else \<lfloor>r\<rfloor>) in if 0 \<le> t \<and> t < 2 ^ bits then Some t else None)
      | _ \<Rightarrow> None)"

record rounding =
  rnd_float :: "lo_hires \<Rightarrow> u32"
  rnd_double :: "lo_hires \<Rightarrow> u64"

section \<open>Coercion\<close>

text \<open>The result value and the bytes written through \<open>to\<close>.\<close>

definition lo_coerce :: "bool \<Rightarrow> rounding \<Rightarrow> byte \<Rightarrow> byte \<Rightarrow> byte list \<Rightarrow> (int \<times> byte list) option" where
  "lo_coerce be rnd type_to type_from from =
     (if type_to = type_from then do {
        n \<leftarrow> lo_arg_size be type_from from;
        if length from < n then None else Some (1, take n from)
      }
      else if lo_is_string_type type_to \<and> lo_is_string_type type_from then do {
        s \<leftarrow> cstr from;
        Some (1, s @ [NUL])
      }
      else if lo_is_numerical_type type_to \<and> lo_is_numerical_type type_from then do {
        v \<leftarrow> lo_hires_val be type_from from;
        case lo_type_of type_to of
          Some LO_INT32 \<Rightarrow> map_option (\<lambda>i. (1, host32 be (word_of_int i))) (to_unsigned 32 v)
        | Some LO_INT64 \<Rightarrow> map_option (\<lambda>i. (1, host64 be (word_of_int i))) (to_unsigned 64 v)
        | Some LO_FLOAT \<Rightarrow> Some (1, host32 be (rnd_float rnd v))
        | Some LO_DOUBLE \<Rightarrow> Some (1, host64 be (rnd_double rnd v))
        | _ \<Rightarrow> Some (0, [])
      }
      else Some (0, []))"

text \<open>The first loop of the coercing branch: the size of the buffer for the coerced data.\<close>

fun coerce_size :: "bool \<Rightarrow> byte list \<Rightarrow> byte list \<Rightarrow> byte list \<Rightarrow> nat \<Rightarrow> nat option" where
  "coerce_size be (c # spec) (t # types) ptr opsize = do {
     n \<leftarrow> lo_arg_size be c ptr;
     m \<leftarrow> lo_arg_size be t ptr;
     coerce_size be spec types (drop m ptr) (opsize + n)
   }"
| "coerce_size be _ _ ptr opsize = Some opsize"

text \<open>The second loop, with the offsets that become \<open>argv\<close>; a write past \<open>data_co\<close> is undefined.\<close>

fun coerce_args ::
  "bool \<Rightarrow> rounding \<Rightarrow> byte list \<Rightarrow> byte list \<Rightarrow> byte list \<Rightarrow> byte list \<Rightarrow> nat \<Rightarrow>
   (byte list \<times> nat list) option" where
  "coerce_args be rnd (c # spec) (t # types) ptr data_co off = do {
     (ok, bytes) \<leftarrow> lo_coerce be rnd c t ptr;
     if length data_co < off + length bytes then None
     else do {
       let data_co' = poke data_co off bytes;
       n \<leftarrow> lo_arg_size be c (drop off data_co');
       m \<leftarrow> lo_arg_size be t ptr;
       (data_co'', argv) \<leftarrow> coerce_args be rnd spec types (drop m ptr) data_co' (off + n);
       Some (data_co'', off # argv)
     }
   }"
| "coerce_args be rnd _ _ ptr data_co off = Some (data_co, [])"

section \<open>Coercion between values\<close>

text \<open>The numerical value of an argument, and the argument of type \<open>t\<close> that \<open>lo_coerce\<close> makes of it.\<close>

fun num_val :: "osc_arg \<Rightarrow> lo_hires option" where
  "num_val (OInt32 w) = Some (int_val (sint w))"
| "num_val (OInt64 w) = Some (int_val (sint w))"
| "num_val (OFloat w) = Some (ieee_val 8 23 (uint w))"
| "num_val (ODouble w) = Some (ieee_val 11 52 (uint w))"
| "num_val _ = None"

definition coerce_arg :: "rounding \<Rightarrow> lo_type \<Rightarrow> osc_arg \<Rightarrow> osc_arg option" where
  "coerce_arg rnd t a =
     (if t = arg_type a then Some a
      else case (t, a) of
        (LO_STRING, OSymbol s) \<Rightarrow> Some (OString s)
      | (LO_SYMBOL, OString s) \<Rightarrow> Some (OSymbol s)
      | (LO_INT32, _) \<Rightarrow> do { v \<leftarrow> num_val a; i \<leftarrow> to_unsigned 32 v; Some (OInt32 (word_of_int i)) }
      | (LO_INT64, _) \<Rightarrow> do { v \<leftarrow> num_val a; i \<leftarrow> to_unsigned 64 v; Some (OInt64 (word_of_int i)) }
      | (LO_FLOAT, _) \<Rightarrow> map_option (\<lambda>v. OFloat (rnd_float rnd v)) (num_val a)
      | (LO_DOUBLE, _) \<Rightarrow> map_option (\<lambda>v. ODouble (rnd_double rnd v)) (num_val a)
      | _ \<Rightarrow> None)"

lemma numerical_typechar [simp]:
  "lo_is_numerical_type (typechar t) \<longleftrightarrow> t = LO_INT32 \<or> t = LO_FLOAT \<or> t = LO_INT64 \<or> t = LO_DOUBLE"
  by (auto simp: lo_is_numerical_type_def typechar_inj)

lemma string_typechar [simp]:
  "lo_is_string_type (typechar t) \<longleftrightarrow> t = LO_STRING \<or> t = LO_SYMBOL"
  by (auto simp: lo_is_string_type_def typechar_inj)

lemma can_coerce_typechar:
  "lo_can_coerce (typechar s) (typechar t) \<longleftrightarrow>
     s = t \<or> s \<in> {LO_INT32, LO_FLOAT, LO_INT64, LO_DOUBLE} \<and> t \<in> {LO_INT32, LO_FLOAT, LO_INT64, LO_DOUBLE}
     \<or> s \<in> {LO_STRING, LO_SYMBOL} \<and> t \<in> {LO_STRING, LO_SYMBOL}"
  by (auto simp: lo_can_coerce_def typechar_inj)

lemma lo_hires_val_host:
  "num_val a = Some v \<Longrightarrow> lo_hires_val be (arg_tag a) (host_arg be a @ rest) = Some v"
  by (cases a) (auto simp: lo_hires_val_def)

lemma num_val_type: "num_val a = Some v \<Longrightarrow> arg_type a \<in> {LO_INT32, LO_FLOAT, LO_INT64, LO_DOUBLE}"
  by (cases a) auto

text \<open>What is written reads back as the coerced argument.\<close>

lemma lo_coerce_arg:
  assumes "coerce_arg rnd t a = Some a'" "arg_ok a"
  shows "arg_type a' = t" "arg_ok a'"
    and "\<exists>bytes. lo_coerce be rnd (typechar t) (arg_tag a) (host_arg be a @ rest) = Some (1, bytes) \<and>
       (bytes = host_arg be a' \<or> (\<exists>s. bytes = s @ [NUL] \<and> NUL \<notin> set s \<and> (a' = OString s \<or> a' = OSymbol s)))"
proof -
  have same: "\<exists>bytes. lo_coerce be rnd (typechar t) (arg_tag a) (host_arg be a @ rest) = Some (1, bytes) \<and> bytes = host_arg be a"
    if "t = arg_type a"
    using that assms(2) by (simp add: lo_coerce_def arg_tag_def [symmetric] lo_arg_size_host_arg)
  have num: "lo_hires_val be (typechar (arg_type a)) (host_arg be a @ rest) = Some v" if "num_val a = Some v" for v
    using lo_hires_val_host [OF that] by (simp add: arg_tag_def)
  show "arg_type a' = t" "arg_ok a'"
    using assms by (auto simp: coerce_arg_def split: if_splits lo_type.splits osc_arg.splits bind_splits)
  show "\<exists>bytes. lo_coerce be rnd (typechar t) (arg_tag a) (host_arg be a @ rest) = Some (1, bytes) \<and>
       (bytes = host_arg be a' \<or> (\<exists>s. bytes = s @ [NUL] \<and> NUL \<notin> set s \<and> (a' = OString s \<or> a' = OSymbol s)))"
  proof (cases "t = arg_type a")
    case True
    then show ?thesis using same assms by (auto simp: coerce_arg_def)
  next
    case False
    show ?thesis
    proof (cases "num_val a")
      case None
      then obtain s where "a = OString s \<and> t = LO_SYMBOL \<and> a' = OSymbol s \<or> a = OSymbol s \<and> t = LO_STRING \<and> a' = OString s"
        using False assms(1) by (auto simp: coerce_arg_def split: lo_type.splits osc_arg.splits)
      then show ?thesis using assms(2) by (auto simp: lo_coerce_def arg_tag_def typechar_inj)
    next
      case (Some v)
      then have ty: "arg_type a \<in> {LO_INT32, LO_FLOAT, LO_INT64, LO_DOUBLE}" by (rule num_val_type)
      then show ?thesis
        using False assms(1) num [OF Some] Some
        by (cases t) (auto simp: coerce_arg_def lo_coerce_def arg_tag_def typechar_inj split: osc_arg.splits bind_splits)
    qed
  qed
qed

section \<open>The coerced arguments of a handler\<close>

text \<open>What a handler reads of an argument through its pointer.\<close>

definition reads :: "bool \<Rightarrow> osc_arg \<Rightarrow> byte list \<Rightarrow> bool" where
  "reads be a mem \<longleftrightarrow> length (host_arg be a) \<le> length mem \<and>
     (case a of
        OString s \<Rightarrow> cstr mem = Some s
      | OSymbol s \<Rightarrow> cstr mem = Some s
      | _ \<Rightarrow> take (length (host_arg be a)) mem = host_arg be a)"

lemma cstr_prefix: "NUL \<notin> set s \<Longrightarrow> take (Suc (length s)) mem = s @ [NUL] \<Longrightarrow> cstr mem = Some s"
  by (metis append.assoc append_Cons append_Nil append_take_drop_id cstr_append)

lemma cstr_take: "cstr mem = Some s \<Longrightarrow> take (Suc (length s)) mem = s @ [NUL]"
  by (auto dest!: cstr_Some)

lemma reads_prefix:
  assumes "reads be a mem" "take n mem = take n mem'" "length (wire_arg a) \<le> n" "length mem = length mem'"
  shows "reads be a mem'"
proof -
  have n: "length (host_arg be a) \<le> n" using assms(3) by (simp add: length_host_arg)
  have eq: "take k mem = take k mem'" if "k \<le> length (host_arg be a)" for k
    using arg_cong [OF assms(2), of "take k"] that n by (simp add: min_absorb1)
  have str: "cstr mem' = Some s" if "cstr mem = Some s" "length s < length (host_arg be a)" for s
    using cstr_take [OF that(1)] that(2) eq [of "Suc (length s)"] cstr_Some [OF that(1)]
    by (intro cstr_prefix) auto
  show ?thesis
    using assms(1,4) eq [of "length (host_arg be a)"]
    by (cases a) (auto simp: reads_def str)
qed

lemma coerced_size:
  assumes "coerce_arg rnd t a = Some a'" "arg_ok a"
  shows "lo_arg_size be (typechar t) (host_arg be a @ rest) = Some (length (wire_arg a'))"
proof (cases "t = arg_type a")
  case True
  then show ?thesis
    using assms lo_arg_size_host_arg [OF assms(2), of be rest]
    by (simp add: coerce_arg_def arg_tag_def length_host_arg)
next
  case False
  then show ?thesis
    using assms by (auto simp: coerce_arg_def lo_arg_size_def split: lo_type.splits osc_arg.splits bind_splits)
qed

lemma reads_size:
  assumes "reads be a mem" "arg_ok a"
  shows "lo_arg_size be (arg_tag a) mem = Some (length (wire_arg a))"
proof (cases "arg_type a = LO_STRING \<or> arg_type a = LO_SYMBOL")
  case True
  then show ?thesis using assms(1) by (cases a) (auto simp: reads_def lo_arg_size_def)
next
  case False
  then have "take (length (host_arg be a)) mem = host_arg be a"
    using assms(1) by (cases a) (simp_all add: reads_def)
  then have "mem = host_arg be a @ drop (length (host_arg be a)) mem"
    by (metis append_take_drop_id)
  then show ?thesis using lo_arg_size_host_arg [OF assms(2)] by (metis length_host_arg)
qed

text \<open>The bytes \<open>lo_coerce\<close> writes for \<open>a'\<close>, in place.\<close>

definition image_of :: "bool \<Rightarrow> osc_arg \<Rightarrow> byte list \<Rightarrow> bool" where
  "image_of be a bytes \<longleftrightarrow>
     bytes = host_arg be a \<or> (\<exists>s. bytes = s @ [NUL] \<and> NUL \<notin> set s \<and> (a = OString s \<or> a = OSymbol s))"

lemma coerced_bytes_length: "image_of be a bytes \<Longrightarrow> length bytes \<le> length (wire_arg a)"
  by (auto simp: image_of_def length_host_arg Suc_le_eq)

lemma coerced_bytes_read:
  assumes "image_of be a bytes" "arg_ok a" "length (wire_arg a) \<le> length (bytes @ rest)"
  shows "reads be a (bytes @ rest)"
proof (cases "bytes = host_arg be a")
  case True
  then show ?thesis using assms(2) by (cases a) (auto simp: reads_def)
next
  case False
  then obtain s where s: "bytes = s @ [NUL]" "NUL \<notin> set s" "a = OString s \<or> a = OSymbol s"
    using assms(1) by (auto simp: image_of_def)
  then show ?thesis using assms(3) by (auto simp: reads_def)
qed

text \<open>One round of the second loop.\<close>

lemma coerce_step:
  assumes "coerce_arg rnd t a = Some a'" "arg_ok a" "off + length (wire_arg a') \<le> length buf"
  shows "\<exists>buf1. coerce_args be rnd (typechar t # spec) (arg_tag a # types) (host_arg be a @ rest) buf off =
       map_option (\<lambda>(b, argv). (b, off # argv))
         (coerce_args be rnd spec types rest buf1 (off + length (wire_arg a'))) \<and>
     length buf1 = length buf \<and> take off buf1 = take off buf \<and> reads be a' (drop off buf1)"
proof -
  note ca = lo_coerce_arg [OF assms(1,2)]
  obtain bytes where b: "lo_coerce be rnd (typechar t) (arg_tag a) (host_arg be a @ rest) = Some (1, bytes)"
    "image_of be a' bytes"
    using ca(3) unfolding image_of_def by blast
  have le: "length bytes \<le> length (wire_arg a')" using b(2) by (rule coerced_bytes_length)
  define buf1 where "buf1 = poke buf off bytes"
  have len: "length buf1 = length buf" using le assms(3) by (simp add: buf1_def length_poke)
  have dr: "drop off buf1 = bytes @ drop (off + length bytes) buf" using assms(3) by (simp add: buf1_def poke_def)
  have fits: "length (wire_arg a') \<le> length (bytes @ drop (off + length bytes) buf)"
    using assms(3) len by (simp add: dr [symmetric])
  have r: "reads be a' (drop off buf1)"
    unfolding dr using b(2) ca(2) fits by (rule coerced_bytes_read)
  have n: "lo_arg_size be (typechar t) (drop off buf1) = Some (length (wire_arg a'))"
    using reads_size [OF r ca(2)] ca(1) by (simp add: arg_tag_def)
  have m: "lo_arg_size be (arg_tag a) (host_arg be a @ rest) = Some (length (host_arg be a))"
    using assms(2) by (rule lo_arg_size_host_arg)
  have "coerce_args be rnd (typechar t # spec) (arg_tag a # types) (host_arg be a @ rest) buf off =
       map_option (\<lambda>(b, argv). (b, off # argv))
         (coerce_args be rnd spec types rest buf1 (off + length (wire_arg a')))"
    using b(1) n m le assms(3) by (simp add: Let_def buf1_def [symmetric] map_option_case split: option.split)
  moreover have "take off buf1 = take off buf" using assms(3) by (simp add: buf1_def take_poke)
  ultimately show ?thesis using len r by blast
qed

text \<open>Offsets of arguments that all get a pointer, also those without data.\<close>

fun co_offsets :: "osc_arg list \<Rightarrow> nat \<Rightarrow> nat list" where
  "co_offsets [] off = []"
| "co_offsets (a # as) off = off # co_offsets as (off + length (wire_arg a))"

lemma coerce_size_args:
  "list_all2 (\<lambda>(t, a) a'. coerce_arg rnd t a = Some a' \<and> arg_ok a) tas as' \<Longrightarrow>
   coerce_size be (map (\<lambda>(t, a). typechar t) tas) (map (\<lambda>(t, a). arg_tag a) tas)
     (concat (map (\<lambda>(t, a). host_arg be a) tas) @ rest) sz = Some (sz + args_len as')"
proof (induction arbitrary: sz rule: list_all2_induct)
  case (Cons x xs a' as')
  obtain t a where x: "x = (t, a)" by (cases x)
  then show ?case
    using Cons coerced_size [of rnd t a a' be] by (simp add: lo_arg_size_host_arg split_beta)
qed simp

lemma coerce_args_read:
  "list_all2 (\<lambda>(t, a) a'. coerce_arg rnd t a = Some a' \<and> arg_ok a) tas as' \<Longrightarrow>
   off + args_len as' \<le> length buf \<Longrightarrow>
   \<exists>buf'. coerce_args be rnd (map (\<lambda>(t, a). typechar t) tas) (map (\<lambda>(t, a). arg_tag a) tas)
        (concat (map (\<lambda>(t, a). host_arg be a) tas) @ rest) buf off = Some (buf', co_offsets as' off) \<and>
     length buf' = length buf \<and> take off buf' = take off buf \<and>
     list_all2 (\<lambda>o' a'. reads be a' (drop o' buf')) (co_offsets as' off) as'"
proof (induction arbitrary: buf off rule: list_all2_induct)
  case (Cons x xs a' as')
  obtain t a where x: "x = (t, a)" by (cases x)
  have a: "coerce_arg rnd t a = Some a'" "arg_ok a" using Cons.hyps(1) x by auto
  let ?n = "length (wire_arg a')"
  have fit: "off + ?n \<le> length buf" using Cons.prems by simp
  obtain buf1 where b1: "coerce_args be rnd (typechar t # map (\<lambda>(t, a). typechar t) xs)
        (arg_tag a # map (\<lambda>(t, a). arg_tag a) xs)
        (host_arg be a @ concat (map (\<lambda>(t, a). host_arg be a) xs) @ rest) buf off =
       map_option (\<lambda>(b, argv). (b, off # argv))
         (coerce_args be rnd (map (\<lambda>(t, a). typechar t) xs) (map (\<lambda>(t, a). arg_tag a) xs)
           (concat (map (\<lambda>(t, a). host_arg be a) xs) @ rest) buf1 (off + ?n))"
     "length buf1 = length buf" "take off buf1 = take off buf" "reads be a' (drop off buf1)"
    using coerce_step [OF a fit] by blast
  have "off + ?n + args_len as' \<le> length buf1" using Cons.prems b1(2) by (simp add: add.assoc)
  from Cons.IH [OF this] obtain buf' where b': "coerce_args be rnd (map (\<lambda>(t, a). typechar t) xs)
        (map (\<lambda>(t, a). arg_tag a) xs)
        (concat (map (\<lambda>(t, a). host_arg be a) xs) @ rest) buf1 (off + ?n) = Some (buf', co_offsets as' (off + ?n))"
     "length buf' = length buf1" "take (off + ?n) buf' = take (off + ?n) buf1"
     "list_all2 (\<lambda>o' a'. reads be a' (drop o' buf')) (co_offsets as' (off + ?n)) as'"
    by blast
  have same: "take ?n (drop off buf1) = take ?n (drop off buf')"
    unfolding take_drop add.commute [of ?n off] b'(3) by (rule refl)
  have "reads be a' (drop off buf')"
    by (rule reads_prefix [OF b1(4) same order_refl]) (simp only: length_drop b'(2))
  moreover have "take off buf' = take off buf"
  proof -
    have "take off (take (off + ?n) buf') = take off (take (off + ?n) buf1)" using b'(3) by simp
    then show ?thesis unfolding b1(3) [symmetric] take_take by simp
  qed
  moreover have "coerce_args be rnd (typechar t # map (\<lambda>(t, a). typechar t) xs)
        (arg_tag a # map (\<lambda>(t, a). arg_tag a) xs)
        (host_arg be a @ concat (map (\<lambda>(t, a). host_arg be a) xs) @ rest) buf off = Some (buf', off # co_offsets as' (off + ?n))"
    unfolding b1(1) b'(1) by simp
  moreover note b1(2) b'(2,4)
  ultimately show ?case by (intro exI [of _ buf']) (simp add: x del: coerce_args.simps)
qed simp

text \<open>Types that coerce by \<open>lo_can_coerce_spec\<close> have a coerced value, if the conversion is defined.\<close>

lemma coerce_arg_defined:
  assumes "lo_can_coerce (arg_tag a) (typechar t)"
    and "\<And>v. num_val a = Some v \<Longrightarrow> t = LO_INT32 \<Longrightarrow> to_unsigned 32 v \<noteq> None"
    and "\<And>v. num_val a = Some v \<Longrightarrow> t = LO_INT64 \<Longrightarrow> to_unsigned 64 v \<noteq> None"
  shows "coerce_arg rnd t a \<noteq> None"
proof -
  let ?N = "{LO_INT32, LO_FLOAT, LO_INT64, LO_DOUBLE}"
  have alt: "arg_type a = t \<or> arg_type a \<in> ?N \<and> t \<in> ?N \<or> arg_type a \<in> {LO_STRING, LO_SYMBOL} \<and> t \<in> {LO_STRING, LO_SYMBOL}"
    using assms(1) unfolding arg_tag_def can_coerce_typechar .
  have num: "coerce_arg rnd t a \<noteq> None" if n: "arg_type a \<in> ?N" "t \<in> ?N"
  proof -
    obtain v where v: "num_val a = Some v" using n(1) by (cases a) simp_all
    show ?thesis
    proof (cases t)
      case LO_INT32
      then show ?thesis using assms(2) [OF v] by (auto simp: coerce_arg_def v)
    next
      case LO_INT64
      then show ?thesis using assms(3) [OF v] by (auto simp: coerce_arg_def v)
    qed (use n(2) in \<open>simp_all add: coerce_arg_def v\<close>)
  qed
  have str: "coerce_arg rnd t a \<noteq> None" if "arg_type a \<in> {LO_STRING, LO_SYMBOL}" "t \<in> {LO_STRING, LO_SYMBOL}"
    using that by (cases a; cases t; simp add: coerce_arg_def)
  from alt show ?thesis
  proof (elim disjE conjE)
    assume "arg_type a = t"
    then show ?thesis by (simp add: coerce_arg_def)
  qed (fact num, fact str)
qed

end
