(* ===== verification/Queue.thy ===== *)
theory Queue
  imports Message "HOL-Library.Multiset"
begin

text \<open>
  The event queue of a server (\<open>queue_data\<close>, \<open>lo_server_events_pending\<close> and
  \<open>lo_server_next_event_delay\<close> of \<open>src/server.c\<close>): messages of bundles whose time has not come, in a
  linked list ordered by timetag. The locale \<open>event_queue\<close> is the contract with the dispatcher.
\<close>

record queued_msg =
  q_ts :: lo_timetag
  q_path :: "byte list"
  q_msg :: lo_message
  q_sock :: int

text \<open>The insertion loop: before the first entry that is later.\<close>

fun queue_insert :: "queued_msg \<Rightarrow> queued_msg list \<Rightarrow> queued_msg list" where
  "queue_insert ins [] = [ins]"
| "queue_insert ins (it # q) =
     (if lo_timetag_diff (q_ts it) (q_ts ins) > 0 then ins # it # q else it # queue_insert ins q)"

definition queue_data ::
  "queued_msg list \<Rightarrow> lo_timetag \<Rightarrow> byte list \<Rightarrow> lo_message \<Rightarrow> int \<Rightarrow> queued_msg list" where
  "queue_data q ts path msg sock =
     queue_insert \<lparr>q_ts = ts, q_path = path, q_msg = msg, q_sock = sock\<rparr> q"

definition lo_server_events_pending :: "queued_msg list \<Rightarrow> bool" where
  "lo_server_events_pending q \<longleftrightarrow> q \<noteq> []"

definition lo_server_next_event_delay :: "lo_timetag \<Rightarrow> queued_msg list \<Rightarrow> rat" where
  "lo_server_next_event_delay now q =
     (case q of
        [] \<Rightarrow> 100
      | it # _ \<Rightarrow>
          let delay = lo_timetag_diff (q_ts it) now;
              delay = (if delay > 100 then 100 else delay)
          in if delay < 0 then 0 else delay)"

section \<open>A queue ordered by time\<close>

locale event_queue =
  fixes enq :: "'e \<Rightarrow> 'e list \<Rightarrow> 'e list"
    and time :: "'e \<Rightarrow> 't::linorder"
  assumes enq_mset: "mset (enq x q) = add_mset x (mset q)"
    and enq_sorted: "sorted (map time q) \<Longrightarrow> sorted (map time (enq x q))"
    and enq_fifo: "sorted (map time q) \<Longrightarrow> filter (\<lambda>y. time y = k) (enq x q) =
      filter (\<lambda>y. time y = k) q @ (if time x = k then [x] else [])"
begin

lemma enq_set [simp]: "set (enq x q) = insert x (set q)"
  using enq_mset [of x q] by (metis set_mset_add_mset_insert set_mset_mset)

lemma enq_length: "length (enq x q) = Suc (length q)"
  using enq_mset [of x q] by (metis size_add_mset size_mset)

lemma enq_all:
  assumes "sorted (map time q)"
  shows "sorted (map time (fold enq xs q)) \<and> mset (fold enq xs q) = mset q + mset xs \<and>
    (\<forall>k. filter (\<lambda>y. time y = k) (fold enq xs q) = filter (\<lambda>y. time y = k) (q @ xs))"
  using assms by (induction xs arbitrary: q) (auto simp: enq_sorted enq_mset enq_fifo)

text \<open>Entering a list of events one by one is a stable sort of it.\<close>

lemma enq_sort_key: "fold enq xs [] = sort_key time xs"
proof (rule sym, rule properties_for_sort_key)
  show "mset (fold enq xs []) = mset xs" using enq_all [of "[]" xs] by simp
  show "sorted (map time (fold enq xs []))" using enq_all [of "[]" xs] by simp
  fix k assume "k \<in> set (fold enq xs [])"
  show "filter (\<lambda>x. time k = time x) (fold enq xs []) = filter (\<lambda>x. time k = time x) xs"
    using enq_all [of "[]" xs] by (simp add: eq_commute [of "time k"])
qed

lemma head_earliest: "sorted (map time (x # q)) \<Longrightarrow> y \<in> set (x # q) \<Longrightarrow> time x \<le> time y"
  by auto

end

lemma later_iff: "lo_timetag_diff a b > 0 \<longleftrightarrow> b < a"
  by (rule lo_timetag_diff_pos)

lemma queue_insert_mset: "mset (queue_insert x q) = add_mset x (mset q)"
  by (induction q) auto

lemma queue_insert_set: "set (queue_insert x q) = insert x (set q)"
  by (metis queue_insert_mset set_mset_add_mset_insert set_mset_mset)

lemma queue_insert_sorted: "sorted (map q_ts q) \<Longrightarrow> sorted (map q_ts (queue_insert x q))"
proof (induction q)
  case (Cons y q)
  then show ?case
    by (cases "q_ts x < q_ts y") (auto simp: later_iff queue_insert_set intro: order_trans less_imp_le)
qed simp

lemma queue_insert_fifo:
  "sorted (map q_ts q) \<Longrightarrow> filter (\<lambda>y. q_ts y = k) (queue_insert x q) =
     filter (\<lambda>y. q_ts y = k) q @ (if q_ts x = k then [x] else [])"
proof (induction q)
  case (Cons y q)
  show ?case
  proof (cases "q_ts x < q_ts y")
    case True
    then have "filter (\<lambda>z. q_ts z = q_ts x) (y # q) = []"
      using Cons.prems by (auto simp: filter_empty_conv)
    then show ?thesis using True by (auto simp: later_iff)
  next
    case False
    then show ?thesis using Cons by (simp add: later_iff)
  qed
qed simp

interpretation eq: event_queue queue_insert q_ts
  by unfold_locales (auto simp: queue_insert_mset queue_insert_sorted queue_insert_fifo)

section \<open>Properties\<close>

text \<open>
  C28: Queueing messages one by one, whatever the order in which their times come, leaves the queue a
  stable sort of them by time: those of the same time stay in the order in which they came.
\<close>

theorem queue_data_sorts:
  "fold (\<lambda>(ts, path, msg, sock) q. queue_data q ts path msg sock) es [] =
   sort_key q_ts (map (\<lambda>(ts, path, msg, sock). \<lparr>q_ts = ts, q_path = path, q_msg = msg, q_sock = sock\<rparr>) es)"
proof -
  have "fold (\<lambda>(ts, path, msg, sock) q. queue_data q ts path msg sock) es q =
      fold queue_insert (map (\<lambda>(ts, path, msg, sock). \<lparr>q_ts = ts, q_path = path, q_msg = msg, q_sock = sock\<rparr>) es) q" for q
    by (induction es arbitrary: q) (auto simp: queue_data_def)
  then show ?thesis by (simp add: eq.enq_sort_key)
qed

text \<open>
  The delay to the next event is between 0 and 100 seconds; it is 0 exactly when there is an event
  whose time has come, and 100 for an empty queue.
\<close>

theorem next_event_delay_bounds:
  "0 \<le> lo_server_next_event_delay now q \<and> lo_server_next_event_delay now q \<le> 100 \<and>
   (lo_server_next_event_delay now q = 0 \<longleftrightarrow> (\<exists>e q'. q = e # q' \<and> q_ts e \<le> now)) \<and>
   (\<not> lo_server_events_pending q \<longrightarrow> lo_server_next_event_delay now q = 100)"
proof (cases q)
  case (Cons e q')
  have "0 < lo_timetag_diff (q_ts e) now \<longleftrightarrow> \<not> q_ts e \<le> now"
    by (simp add: lo_timetag_diff_pos not_le)
  then show ?thesis
    by (auto simp: Cons lo_server_next_event_delay_def lo_server_events_pending_def Let_def)
qed (simp add: lo_server_next_event_delay_def lo_server_events_pending_def)

text \<open>A queue with an event at the time 200, seen at the time 100.\<close>

theorem next_event_delay_bounds_witness:
  "lo_server_next_event_delay (Timetag 100 0) [] = 100 \<and> (0 :: rat) \<le> lo_server_next_event_delay (Timetag 100 0) []"
  using next_event_delay_bounds [of "Timetag 100 0" "[]"] by (simp add: lo_server_events_pending_def)

end
