(* ===== verification/Dispatch.thy ===== *)
theory Dispatch
  imports Wire Methods Coerce Queue
begin

text \<open>
  The dispatcher of a server (\<open>src/server.c\<close>): \<open>dispatch_data\<close> on raw data, \<open>dispatch_method\<close> on a
  message, \<open>dispatch_queued\<close> on the event queue, the queue and coercion switches, the bundle handlers
  and \<open>lo_throw\<close>.
\<close>

section \<open>The server state\<close>

text \<open>What a handler is given. \<open>c_argv\<close> holds offsets into \<open>c_data\<close>.\<close>

record call =
  c_handler :: nat
  c_user_data :: nat
  c_path :: "byte list"
  c_types :: "byte list"
  c_data :: "byte list"
  c_argv :: "nat ptr list ptr"
  c_argc :: nat
  c_ts :: lo_timetag
  c_source :: "nat ptr"

text \<open>What the outside sees of a server, in order.\<close>

datatype event =
    Ev_call call
  | Ev_bundle_start lo_timetag
  | Ev_bundle_end
  | Ev_error int "byte list option"
  | Ev_reply lo_message

record server =
  sv_methods :: "lo_method list"
  sv_protocol :: proto
  sv_coerce :: bool
  sv_enqueue :: bool
  sv_queued :: "queued_msg list"
  sv_bundle_start :: bool
  sv_bundle_end :: bool
  sv_err_h :: bool
  sv_log :: "event list"

text \<open>
  What the server meets: the byte order, the signedness of \<open>char\<close>, the rounding of the machine, the
  allocator, the return values of the client's handlers and the clock, which may both depend on
  everything that happened. Handlers that change the server from within a call are in theory \<open>Reentrant\<close>.
\<close>

record env =
  e_be :: bool
  e_chr_val :: "byte \<Rightarrow> int"
  e_rnd :: rounding
  e_al :: alloc
  e_handler :: "event list \<Rightarrow> call \<Rightarrow> int"
  e_now :: "event list \<Rightarrow> lo_timetag"

definition emit :: "event \<Rightarrow> server \<Rightarrow> server" where
  "emit e s = s\<lparr>sv_log := sv_log s @ [e]\<rparr>"

definition lo_throw :: "server \<Rightarrow> int \<Rightarrow> byte list option \<Rightarrow> server" where
  "lo_throw s errnum path = (if sv_err_h s then emit (Ev_error errnum path) s else s)"

definition lo_server_enable_coercion :: "server \<Rightarrow> int \<Rightarrow> int \<times> server" where
  "lo_server_enable_coercion s enable =
     ((if sv_coerce s then 1 else 0), s\<lparr>sv_coerce := enable \<noteq> 0\<rparr>)"

definition lo_server_should_coerce_args :: "server \<Rightarrow> bool" where
  "lo_server_should_coerce_args s \<longleftrightarrow> sv_coerce s"

definition lo_server_add_bundle_handlers :: "server \<Rightarrow> bool \<Rightarrow> bool \<Rightarrow> int \<times> server" where
  "lo_server_add_bundle_handlers s sh eh = (0, s\<lparr>sv_bundle_start := sh, sv_bundle_end := eh\<rparr>)"

section \<open>Dispatching one message\<close>

definition call_handler :: "env \<Rightarrow> server \<Rightarrow> call \<Rightarrow> int \<times> server" where
  "call_handler env s c = (e_handler env (sv_log s) c, emit (Ev_call c) s)"

text \<open>
  The matching method \<open>it\<close>: the value of \<open>ret\<close> afterwards. \<open>pptr\<close> is the method's own path when it
  has one. \<open>argv\<close> and \<open>data_co\<close> of the coercing branch are NULL without arguments.
\<close>

definition dispatch_to ::
  "env \<Rightarrow> lo_method \<Rightarrow> byte list \<Rightarrow> lo_message \<Rightarrow> byte list \<Rightarrow> int \<Rightarrow> server \<Rightarrow> (int \<times> server) option" where
  "dispatch_to env it path msg types ret s =
     (let pptr = (case mt_path it of NULL \<Rightarrow> path | Ref q \<Rightarrow> q);
          c = \<lparr>c_handler = mt_handler it, c_user_data = mt_user_data it, c_path = pptr,
               c_types = types, c_data = m_data msg, c_argv = m_argv msg, c_argc = length types,
               c_ts = m_ts msg, c_source = m_source msg\<rparr>
      in case mt_typespec it of
           NULL \<Rightarrow> Some (call_handler env s c)
         | Ref spec \<Rightarrow>
             if types = spec then Some (call_handler env s c)
             else if lo_server_should_coerce_args s \<and> lo_can_coerce_spec types spec then
               (if types = [] then Some (call_handler env s (c\<lparr>c_types := spec, c_data := [], c_argv := NULL\<rparr>))
                else do {
                  opsize \<leftarrow> coerce_size (e_be env) spec types (m_data msg) 0;
                  data_co \<leftarrow> e_al env At_data opsize;
                  (data, argv) \<leftarrow> coerce_args (e_be env) (e_rnd env) spec types (m_data msg) data_co 0;
                  Some (call_handler env s (c\<lparr>c_types := spec, c_data := data, c_argv := Ref (map Ref argv)\<rparr>))
                })
             else Some (ret, s))"

text \<open>The loop over the methods; \<open>mem\<close> is the memory at \<open>path\<close>.\<close>

fun dispatch_loop ::
  "env \<Rightarrow> lo_method list \<Rightarrow> byte list \<Rightarrow> byte list \<Rightarrow> lo_message \<Rightarrow> byte list \<Rightarrow> int \<Rightarrow> server \<Rightarrow>
   (int \<times> server) option" where
  "dispatch_loop env [] path mem msg types ret s = Some (ret, s)"
| "dispatch_loop env (it # ms) path mem msg types ret s = do {
     hit \<leftarrow> path_matches (e_chr_val env) (mt_path it) path mem;
     if \<not> hit then dispatch_loop env ms path mem msg types ret s
     else do {
       (ret', s') \<leftarrow> dispatch_to env it path msg types ret s;
       if ret' = 0 \<and> \<not> is_pattern path then Some (ret', s')
       else dispatch_loop env ms path mem msg types ret' s'
     }
   }"

text \<open>
  Method enumeration: the next components of the paths below \<open>path\<close>, each once, in the order of the
  table.
\<close>

fun enumerate :: "byte list \<Rightarrow> lo_method list \<Rightarrow> byte list list \<Rightarrow> byte list list" where
  "enumerate path [] sl = sl"
| "enumerate path (it # ms) sl =
     (case mt_path it of
        NULL \<Rightarrow> enumerate path ms sl
      | Ref q \<Rightarrow>
          if take (length path) q = path then
            (let tmp = takeWhile (\<lambda>c. c \<noteq> CHR ''/'') (drop (length path) q)
             in enumerate path ms (if List.member sl tmp then sl else sl @ [tmp]))
          else enumerate path ms sl)"

text \<open>The results of the \<open>add\<close> functions are ignored; \<open>argv[0]->i\<close> is read from the message.\<close>

definition enumeration_reply ::
  "env \<Rightarrow> byte list \<Rightarrow> lo_method list \<Rightarrow> lo_message \<Rightarrow> byte list \<Rightarrow> lo_message option" where
  "enumeration_reply env path ms msg types = do {
     r \<leftarrow> lo_message_new (e_al env);
     reply \<leftarrow> (case r of NULL \<Rightarrow> None | Ref m \<Rightarrow> Some m);
     reply1 \<leftarrow> (if types = ''i'' then
                  (case m_argv msg of
                     NULL \<Rightarrow> Some reply
                   | Ref (Ref off # _) \<Rightarrow> do {
                       i \<leftarrow> rd_host32 (e_be env) (drop off (m_data msg));
                       Some (snd (lo_message_add_int32 (e_al env) (e_be env) reply i))
                     }
                   | Ref _ \<Rightarrow> None)
                else Some reply);
     let reply2 = snd (lo_message_add_string (e_al env) reply1 path);
     Some (foldl (\<lambda>m str. snd (lo_message_add_string (e_al env) m str)) reply2 (enumerate path ms []))
   }"

definition dispatch_method ::
  "env \<Rightarrow> server \<Rightarrow> byte list \<Rightarrow> lo_message \<Rightarrow> int \<Rightarrow> server option" where
  "dispatch_method env s mem msg sock = do {
     path \<leftarrow> cstr mem;
     types \<leftarrow> cstr (lo_message_get_types msg);
     let msg1 = msg\<lparr>m_source := (if sv_protocol s = LO_TCP \<and> sock \<ge> 0 then Ref (nat sock) else NULL)\<rparr>;
     (ret, s1) \<leftarrow> dispatch_loop env (sv_methods s) path mem msg1 types 1 s;
     if ret = 1 \<and> sv_protocol s = LO_UDP \<and> path \<noteq> [] \<and> last path = CHR ''/'' then do {
       reply \<leftarrow> enumeration_reply env path (sv_methods s1) msg1 types;
       Some (emit (Ev_reply reply) s1)
     }
     else Some s1
   }"

section \<open>Dispatching raw data\<close>

definition immediate :: "env \<Rightarrow> server \<Rightarrow> lo_timetag \<Rightarrow> lo_timetag \<Rightarrow> bool" where
  "immediate env s ts now \<longleftrightarrow>
     tt_sec ts = tt_sec LO_TT_IMMEDIATE \<and> tt_frac ts = tt_frac LO_TT_IMMEDIATE
     \<or> lo_timetag_diff ts now \<le> 0 \<or> \<not> sv_enqueue s"

text \<open>A message element of a bundle, once deserialised: it is run now, or kept for later.\<close>

definition bundle_message ::
  "env \<Rightarrow> server \<Rightarrow> lo_timetag \<Rightarrow> lo_timetag \<Rightarrow> byte list \<Rightarrow> lo_message \<Rightarrow> int \<Rightarrow> server option" where
  "bundle_message env s ts now mem m sock =
     (let msg = lo_message_incref (m\<lparr>m_ts := ts\<rparr>) in
      if immediate env s ts now then dispatch_method env s mem msg sock
      else do {
        path \<leftarrow> cstr mem;
        Some (s\<lparr>sv_queued := queue_data (sv_queued s) ts path msg sock\<rparr>)
      })"

lemma rd_host32_length: "rd_host32 be bs = Some w \<Longrightarrow> 4 \<le> length bs"
  using rd_host32_None [of be bs] by (simp add: not_less)

text \<open>
  \<open>dispatch_data\<close> returns the size, or a negative error code. \<open>dispatch_elements\<close> is its loop over
  the elements of a bundle, from \<open>pos\<close> on; \<open>Some code\<close> is the \<open>return -result\<close> out of it, which skips
  the end handler. What a nested bundle returns is ignored.
\<close>

function (sequential)
  dispatch_data :: "env \<Rightarrow> server \<Rightarrow> byte list \<Rightarrow> int \<Rightarrow> int \<Rightarrow> (int \<times> server) option" and
  dispatch_elements :: "env \<Rightarrow> server \<Rightarrow> byte list \<Rightarrow> int \<Rightarrow> lo_timetag \<Rightarrow> lo_timetag \<Rightarrow> byte list \<Rightarrow> int \<Rightarrow>
     (int option \<times> server) option" where
  "dispatch_data env s data sz sock =
     (case lo_validate_string data sz of
        None \<Rightarrow> None
      | Some len \<Rightarrow>
          if len < 0 then Some (len, lo_throw s (- len) None)
          else (case str_eq data ''#bundle'' of
            None \<Rightarrow> None
          | Some True \<Rightarrow>
              (case lo_validate_bundle (e_be env) data sz of
                 None \<Rightarrow> None
               | Some bundle_result \<Rightarrow>
                   if bundle_result < 0
                   then Some (bundle_result, lo_throw s (- bundle_result) None)
                   else
                     (case (rd_host32 (e_be env) (drop (nat len) data),
                            rd_host32 (e_be env) (drop (nat len + 4) data)) of
                        (Some sec, Some fr) \<Rightarrow>
                          let ts = Timetag (lo_otoh32 (e_be env) sec) (lo_otoh32 (e_be env) fr);
                              now = e_now env (sv_log s);
                              s1 = (if sv_bundle_start s then emit (Ev_bundle_start ts) s else s)
                          in (case dispatch_elements env s1 (drop (nat len + 8) data) (sz - len - 8) ts now data sock of
                                None \<Rightarrow> None
                              | Some (Some code, s2) \<Rightarrow> Some (code, s2)
                              | Some (None, s2) \<Rightarrow> Some (sz, if sv_bundle_end s2 then emit Ev_bundle_end s2 else s2))
                      | _ \<Rightarrow> None))
          | Some False \<Rightarrow>
              (case lo_message_deserialise (e_al env) (e_be env) data (nat sz) of
                 None \<Rightarrow> None
               | Some (NULL, result) \<Rightarrow> Some (- result, lo_throw s result (cstr data))
               | Some (Ref m, _) \<Rightarrow>
                   map_option (\<lambda>s'. (sz, s')) (dispatch_method env s data (lo_message_incref m) sock))))"
| "dispatch_elements env s bs remain ts now path_mem sock =
     (if remain < 4 then Some (None, s)
      else (case rd_host32 (e_be env) bs of
        None \<Rightarrow> None
      | Some w \<Rightarrow>
          let elem_len = uint (lo_otoh32 (e_be env) w);
              pos = drop 4 bs
          in (case str_eq pos ''#bundle'' of
                None \<Rightarrow> None
              | Some True \<Rightarrow>
                  (case dispatch_data env s pos elem_len sock of
                     None \<Rightarrow> None
                   | Some (_, s1) \<Rightarrow>
                       dispatch_elements env s1 (drop (nat elem_len) pos) (remain - 4 - elem_len) ts now path_mem sock)
              | Some False \<Rightarrow>
                  (case lo_message_deserialise (e_al env) (e_be env) pos (nat elem_len) of
                     None \<Rightarrow> None
                   | Some (NULL, result) \<Rightarrow> Some (Some (- result), lo_throw s result (cstr path_mem))
                   | Some (Ref m, _) \<Rightarrow>
                       (case bundle_message env s ts now pos m sock of
                          None \<Rightarrow> None
                        | Some s1 \<Rightarrow>
                            dispatch_elements env s1 (drop (nat elem_len) pos) (remain - 4 - elem_len) ts now path_mem sock)))))"
  by pat_completeness auto

termination
  by (relation "inv_image (less_than <*lex*> less_than)
       (\<lambda>x. case x of Inl (env, s, data, sz, sock) \<Rightarrow> (length data, 1)
          | Inr (env, s, bs, remain, ts, now, p, sock) \<Rightarrow> (length bs, 0 :: nat))")
     (auto dest!: rd_host32_length)

declare dispatch_data.simps [simp del] dispatch_elements.simps [simp del]

definition lo_server_dispatch_data :: "env \<Rightarrow> server \<Rightarrow> byte list \<Rightarrow> int \<Rightarrow> (int \<times> server) option" where
  "lo_server_dispatch_data env s data sz = dispatch_data env s data sz (- 1)"

section \<open>The event queue\<close>

definition FLT_EPSILON :: rat where "FLT_EPSILON = 1 / 2 ^ 23"

text \<open>
  The \<open>do\<close> loop: the head is dispatched and removed, then everything due at the same time, or all.
\<close>

fun dispatch_due ::
  "env \<Rightarrow> lo_timetag \<Rightarrow> bool \<Rightarrow> queued_msg list \<Rightarrow> server \<Rightarrow> server option" where
  "dispatch_due env disp_time dispatch_all [] s = Some s"
| "dispatch_due env disp_time dispatch_all (it # tailhead) s = do {
     s1 \<leftarrow> dispatch_method env s (q_path it @ [NUL]) (q_msg it) (q_sock it);
     let s2 = s1\<lparr>sv_queued := tailhead\<rparr>;
     if tailhead \<noteq> [] \<and> (lo_timetag_diff (q_ts (hd tailhead)) disp_time < FLT_EPSILON \<or> dispatch_all)
     then dispatch_due env disp_time dispatch_all tailhead s2
     else Some s2
   }"

definition dispatch_queued :: "env \<Rightarrow> server \<Rightarrow> bool \<Rightarrow> (int \<times> server) option" where
  "dispatch_queued env s dispatch_all =
     (case sv_queued s of
        [] \<Rightarrow> Some (1, lo_throw s LO_INT_ERR (Some ''timeout''))
      | head # _ \<Rightarrow>
          map_option (\<lambda>s'. (0, s')) (dispatch_due env (q_ts head) dispatch_all (sv_queued s) s))"

text \<open>Switching the queue off may first dispatch what it holds.\<close>

definition lo_server_enable_queue :: "env \<Rightarrow> server \<Rightarrow> int \<Rightarrow> int \<Rightarrow> (int \<times> server) option" where
  "lo_server_enable_queue env s enable dispatch_remaining =
     (let prev = (if sv_enqueue s then 1 else 0);
          s1 = s\<lparr>sv_enqueue := enable \<noteq> 0\<rparr>
      in if enable = 0 \<and> dispatch_remaining \<noteq> 0 \<and> sv_queued s1 \<noteq> [] then
           map_option (\<lambda>(_, s2). (prev, s2)) (dispatch_queued env s1 True)
         else Some (prev, s1))"

end
