(* ===== verification/Delivery.thy ===== *)
theory Delivery
  imports Dispatch Bundle
begin

text \<open>
  What the dispatcher means: \<open>deliver\<close> handles a packet as a tree, without bytes. \<open>dispatch_data\<close> on
  the wire form of a packet refines it.
\<close>

section \<open>What dispatching leaves alone\<close>

text \<open>Dispatching a message only adds to the log of a server.\<close>

definition logged :: "server \<Rightarrow> server \<Rightarrow> bool" where
  "logged s s' \<longleftrightarrow> (\<exists>l. s' = s\<lparr>sv_log := sv_log s @ l\<rparr>)"

lemma logged_refl [simp]: "logged s s"
  unfolding logged_def by (rule exI [of _ "[]"]) simp

lemma logged_trans: "logged s t \<Longrightarrow> logged t u \<Longrightarrow> logged s u"
  unfolding logged_def by auto

lemma logged_emit [simp]: "logged s (emit e s)"
  by (auto simp: logged_def emit_def)

lemma logged_fields:
  assumes "logged s s'"
  shows "sv_methods s' = sv_methods s" "sv_enqueue s' = sv_enqueue s" "sv_queued s' = sv_queued s"
    "sv_coerce s' = sv_coerce s" "sv_protocol s' = sv_protocol s"
    "sv_bundle_start s' = sv_bundle_start s" "sv_bundle_end s' = sv_bundle_end s"
  using assms by (auto simp: logged_def)

lemma call_handler_logged: "call_handler env s c = (r, s') \<Longrightarrow> logged s s'"
  by (auto simp: call_handler_def)

lemma dispatch_to_logged: "dispatch_to env it path msg types ret s = Some (r, s') \<Longrightarrow> logged s s'"
  by (auto simp: dispatch_to_def Let_def dest: call_handler_logged split: ptr.splits if_splits bind_splits prod.splits)

lemma dispatch_loop_logged: "dispatch_loop env ms path mem msg types ret s = Some (r, s') \<Longrightarrow> logged s s'"
  by (induction ms arbitrary: ret s)
     (auto dest!: dispatch_to_logged intro: logged_trans split: if_splits bind_splits prod.splits)

lemma dispatch_method_logged: "dispatch_method env s mem msg sock = Some s' \<Longrightarrow> logged s s'"
  by (auto simp: dispatch_method_def Let_def dest!: dispatch_loop_logged intro: logged_trans
      split: if_splits bind_splits prod.splits)

section \<open>The memory behind the path\<close>

text \<open>
  The paths whose reading is settled: those without pattern characters, and the patterns that are the
  text of a syntax tree, on which the matcher is the reference matcher.
\<close>

definition path_ok :: "byte list \<Rightarrow> bool" where
  "path_ok path \<longleftrightarrow> NUL \<notin> set path \<and> (readable path \<or> \<not> is_pattern path)"

definition methods_ok :: "server \<Rightarrow> bool" where
  "methods_ok s \<longleftrightarrow> list_all path_terminable (sv_methods s)"

lemma dispatch_loop_mem:
  assumes "path_ok path" "list_all path_terminable ms"
  shows "dispatch_loop env ms path (path @ NUL # y) msg types ret s = dispatch_loop env ms path (path @ [NUL]) msg types ret s"
  using assms(2)
proof (induction ms arbitrary: ret s)
  case (Cons m ms)
  have "path_matches v (mt_path m) path (path @ NUL # z) = Some (selected v path m)" for v z
    using assms(1) Cons.prems by (intro path_matches_selected) (simp_all add: path_ok_def)
  from this [of _ y] this [of _ "[]"] show ?case
    using Cons by (simp cong: if_cong)
qed simp

lemma dispatch_method_mem:
  assumes "path_ok path" "methods_ok s"
  shows "dispatch_method env s (path @ NUL # y) msg sock = dispatch_method env s (path @ [NUL]) msg sock"
proof -
  have "cstr (path @ NUL # z) = Some path" for z
    using assms(1) by (simp add: path_ok_def)
  from this [of y] this [of "[]"] show ?thesis
    using dispatch_loop_mem [OF assms(1) assms(2) [unfolded methods_ok_def], where y = y]
    by (simp add: dispatch_method_def)
qed

lemma dispatch_method_wire:
  assumes "path_ok path" "methods_ok s"
  shows "dispatch_method env s (wire_message path xs @ rest) msg sock = dispatch_method env s (path @ [NUL]) msg sock"
proof -
  obtain k where "padstr path = path @ NUL # replicate k NUL" using padstr_eq by blast
  then show ?thesis
    using dispatch_method_mem [OF assms] by (simp add: wire_message_def)
qed

section \<open>Delivery of packets\<close>

definition message_in :: "env \<Rightarrow> int \<Rightarrow> lo_timetag \<Rightarrow> byte list \<Rightarrow> osc_arg list \<Rightarrow> server \<Rightarrow> server option" where
  "message_in env sock ts path xs s =
     dispatch_method env s (path @ [NUL]) (lo_message_incref ((received_message (e_be env) xs)\<lparr>m_ts := ts\<rparr>)) sock"

text \<open>The entry a message gets that has to wait.\<close>

definition entry :: "env \<Rightarrow> int \<Rightarrow> lo_timetag \<Rightarrow> byte list \<Rightarrow> osc_arg list \<Rightarrow> queued_msg" where
  "entry env sock ts path xs =
     \<lparr>q_ts = ts, q_path = path, q_msg = lo_message_incref ((received_message (e_be env) xs)\<lparr>m_ts := ts\<rparr>), q_sock = sock\<rparr>"

text \<open>\<open>deliver_all\<close> handles the elements of a bundle with timetag \<open>ts\<close>, received at the time \<open>now\<close>.\<close>

fun deliver :: "env \<Rightarrow> int \<Rightarrow> packet \<Rightarrow> server \<Rightarrow> server option"
  and deliver_all :: "env \<Rightarrow> int \<Rightarrow> lo_timetag \<Rightarrow> lo_timetag \<Rightarrow> packet list \<Rightarrow> server \<Rightarrow> server option" where
  "deliver env sock (PMessage path xs) s = message_in env sock LO_TT_IMMEDIATE path xs s"
| "deliver env sock (PBundle tt ps) s =
     map_option (\<lambda>s'. if sv_bundle_end s' then emit Ev_bundle_end s' else s')
       (deliver_all env sock tt (e_now env (sv_log s)) ps
         (if sv_bundle_start s then emit (Ev_bundle_start tt) s else s))"
| "deliver_all env sock ts now [] s = Some s"
| "deliver_all env sock ts now (PMessage path xs # ps) s =
     (if immediate env s ts now
      then (case message_in env sock ts path xs s of None \<Rightarrow> None | Some s' \<Rightarrow> deliver_all env sock ts now ps s')
      else deliver_all env sock ts now ps (s\<lparr>sv_queued := queue_insert (entry env sock ts path xs) (sv_queued s)\<rparr>))"
| "deliver_all env sock ts now (PBundle tt qs # ps) s =
     (case deliver env sock (PBundle tt qs) s of None \<Rightarrow> None | Some s' \<Rightarrow> deliver_all env sock ts now ps s')"

fun packet_ok :: "packet \<Rightarrow> bool" where
  "packet_ok (PMessage path xs) \<longleftrightarrow> path_ok path \<and> path \<noteq> bundle_tag \<and> list_all arg_ok xs \<and> wire_len path xs < 2 ^ 31"
| "packet_ok (PBundle tt ps) \<longleftrightarrow> length (wire_packet (PBundle tt ps)) < 2 ^ 31 \<and> list_all packet_ok ps"

lemma packet_ok_length: "packet_ok p \<Longrightarrow> length (wire_packet p) < 2 ^ 31"
  by (cases p) (simp_all del: wire_packet.simps(2) add: length_wire_message)

text \<open>The same server, apart from its log and its queue.\<close>

definition same_setup :: "server \<Rightarrow> server \<Rightarrow> bool" where
  "same_setup s s' \<longleftrightarrow> sv_methods s' = sv_methods s \<and> sv_protocol s' = sv_protocol s \<and> sv_coerce s' = sv_coerce s \<and>
     sv_enqueue s' = sv_enqueue s \<and> sv_bundle_start s' = sv_bundle_start s \<and> sv_bundle_end s' = sv_bundle_end s \<and>
     sv_err_h s' = sv_err_h s"

lemma logged_same_setup: "logged s s' \<Longrightarrow> same_setup s s'"
  by (auto simp: logged_def same_setup_def)

lemma same_setup_refl [simp]: "same_setup s s"
  by (simp add: same_setup_def)

lemma same_setup_trans: "same_setup s t \<Longrightarrow> same_setup t u \<Longrightarrow> same_setup s u"
  by (simp add: same_setup_def)

lemma same_setup_update [simp]:
  "same_setup (s\<lparr>sv_queued := q\<rparr>) s' = same_setup s s'" "same_setup s (s'\<lparr>sv_queued := q\<rparr>) = same_setup s s'"
  "same_setup (emit e s) s' = same_setup s s'" "same_setup s (emit e s') = same_setup s s'"
  by (simp_all add: same_setup_def emit_def)

lemma same_setup_methods: "same_setup s s' \<Longrightarrow> methods_ok s' = methods_ok s"
  by (simp add: same_setup_def methods_ok_def)

lemma message_in_setup: "message_in env sock ts path xs s = Some s' \<Longrightarrow> same_setup s s'"
  by (auto simp: message_in_def dest: dispatch_method_logged intro: logged_same_setup)

lemma deliver_setup:
  "deliver env sock p s = Some s' \<Longrightarrow> same_setup s s'"
  "deliver_all env sock ts now ps s = Some s' \<Longrightarrow> same_setup s s'"
proof (induction env sock p s and env sock ts now ps s arbitrary: s' and s' rule: deliver_deliver_all.induct)
  case (2 env sock tt ps s)
  then show ?case
    by (auto intro: same_setup_trans split: if_splits)
next
  case (4 env sock ts now path xs ps s)
  then show ?case
    by (auto intro: same_setup_trans dest!: message_in_setup split: if_splits option.splits)
next
  case (5 env sock ts now tt qs ps s)
  then show ?case by (auto intro: same_setup_trans split: option.splits)
qed (auto dest: message_in_setup)

section \<open>Refinement\<close>

lemma message_tag:
  assumes "packet_ok (PMessage path xs)"
  shows "str_eq (wire_message path xs @ rest) ''#bundle'' = Some False"
    and "lo_validate_string (wire_message path xs @ rest) (int (wire_len path xs)) = Some (int (lo_strsize path))"
proof -
  have p: "NUL \<notin> set path" "path \<noteq> bundle_tag" using assms by (simp_all add: path_ok_def)
  show "str_eq (wire_message path xs @ rest) ''#bundle'' = Some False"
    using str_eq_padstr [of bundle_tag path] p padstr_bundle_tag(3) by (simp add: wire_message_def) (simp add: bundle_tag_def)
  show "lo_validate_string (wire_message path xs @ rest) (int (wire_len path xs)) = Some (int (lo_strsize path))"
    unfolding wire_message_def append.assoc using p by (intro lo_validate_string_padstr) (simp_all add: wire_len_def)
qed

lemma bundle_tag_read:
  "str_eq (wire_packet (PBundle tt ps) @ rest) ''#bundle'' = Some True"
  "length (wire_packet (PBundle tt ps)) \<le> n \<Longrightarrow> lo_validate_string (wire_packet (PBundle tt ps) @ rest) (int n) = Some 8"
proof -
  show "str_eq (wire_packet (PBundle tt ps) @ rest) ''#bundle'' = Some True"
    unfolding wire_bundle_padstr using str_eq_padstr [of bundle_tag bundle_tag] padstr_bundle_tag(3)
    by simp (simp add: bundle_tag_def)
  assume "length (wire_packet (PBundle tt ps)) \<le> n"
  then have "8 \<le> n" unfolding wire_bundle by simp
  then show "lo_validate_string (wire_packet (PBundle tt ps) @ rest) (int n) = Some 8"
    unfolding wire_bundle_padstr append.assoc
    using lo_validate_string_padstr [of bundle_tag "int n"] padstr_bundle_tag by simp
qed

lemma received_immediate: "(received_message be xs)\<lparr>m_ts := LO_TT_IMMEDIATE\<rparr> = received_message be xs"
  by (simp add: received_message_def)

lemma deserialise_packet:
  assumes "packet_ok (PMessage path xs)" "alloc_total al"
  shows "lo_message_deserialise al be (wire_message path xs @ rest) (wire_len path xs) = Some (Ref (received_message be xs), 0)"
  using assms by (intro deserialise_received) (simp_all add: path_ok_def)

lemma dispatch_data_message:
  assumes "packet_ok (PMessage path xs)" "alloc_total (e_al env)" "methods_ok s"
  shows "dispatch_data env s (wire_message path xs @ rest) (int (wire_len path xs)) sock =
     map_option (\<lambda>s'. (int (wire_len path xs), s')) (deliver env sock (PMessage path xs) s)"
proof -
  have ok: "path_ok path" using assms(1) by simp
  show ?thesis
    unfolding dispatch_data.simps [of env s]
    using message_tag [OF assms(1)] deserialise_packet [OF assms(1,2)] dispatch_method_wire [OF ok assms(3)]
    by (simp add: message_in_def received_immediate)
qed

lemma element_head:
  assumes "length w < 2 ^ 31"
  shows "\<exists>c. rd_host32 be (framed (w # ws) @ rest) = Some c \<and> uint (lo_otoh32 be c) = int (length w)"
    and "drop 4 (framed (w # ws) @ rest) = w @ framed ws @ rest"
    and "int (length (framed (w # ws))) - 4 - int (length w) = int (length (framed ws))"
  using assms uint_small [of "length w"] by simp_all

lemma packet_cases_ok: "packet_ok p \<Longrightarrow> length (wire_packet p) < 2 ^ 32"
  using packet_ok_length [of p] by simp

lemma bundle_fields:
  "drop 16 (wire_packet (PBundle tt ps) @ rest) = framed (map wire_packet ps) @ rest"
  "rd_host32 be (drop 8 (wire_packet (PBundle tt ps) @ rest)) = Some (lo_htoo32 be (tt_sec tt))"
  "rd_host32 be (drop 12 (wire_packet (PBundle tt ps) @ rest)) = Some (lo_htoo32 be (tt_frac tt))"
  unfolding wire_bundle by simp_all

lemma deliver_refined:
  assumes "alloc_total (e_al env)"
  shows "packet_ok p \<Longrightarrow> methods_ok s \<Longrightarrow>
      dispatch_data env s (wire_packet p @ rest) (int (length (wire_packet p))) sock =
      map_option (\<lambda>s'. (int (length (wire_packet p)), s')) (deliver env sock p s)"
    and "list_all packet_ok ps \<Longrightarrow> methods_ok s \<Longrightarrow>
      dispatch_elements env s (framed (map wire_packet ps) @ rest) (int (length (framed (map wire_packet ps)))) ts now mem sock =
      map_option (\<lambda>s'. (None, s')) (deliver_all env sock ts now ps s)"
  using assms
proof (induction env sock p s and env sock ts now ps s arbitrary: rest and rest mem rule: deliver_deliver_all.induct)
  case (1 env sock path xs s)
  then show ?case using dispatch_data_message [of path xs env s rest sock] by simp
next
  case (2 env sock tt ps s)
  let ?w = "wire_packet (PBundle tt ps)" and ?f = "framed (map wire_packet ps)"
  let ?s1 = "if sv_bundle_start s then emit (Ev_bundle_start tt) s else s"
  let ?now = "e_now env (sv_log s)"
  have ps: "list_all packet_ok ps" using "2.prems"(1) by simp
  have len: "int (length ?w) - 8 - 8 = int (length ?f)" unfolding wire_bundle by simp
  have v: "lo_validate_bundle (e_be env) (?w @ rest) (int (length ?w)) = Some (int (length ?w))"
    using ps by (intro validate_wire_bundle packet_cases_ok) (simp add: list_all_iff)
  have "methods_ok ?s1" using "2.prems"(2) by (simp add: methods_ok_def emit_def)
  then have el: "dispatch_elements env ?s1 (?f @ rest) (int (length ?f)) tt ?now (?w @ rest) sock =
      map_option (\<lambda>s'. (None, s')) (deliver_all env sock tt ?now ps ?s1)"
    using "2.IH" ps "2.prems"(3) by blast
  have tt: "Timetag (lo_otoh32 be (lo_htoo32 be (tt_sec tt))) (lo_otoh32 be (lo_htoo32 be (tt_frac tt))) = tt" for be
    by (cases tt) simp
  obtain D where D: "?w @ rest = D" by blast
  note f = bundle_fields [where tt = tt and ps = ps and rest = rest, unfolded D] bundle_tag_read [where tt = tt and ps = ps and rest = rest, unfolded D]
  show ?case
    using f(4) f(5) [OF order_refl] v el unfolding dispatch_data.simps [of env s] D
    by (cases "deliver_all env sock tt ?now ps ?s1") (simp_all add: f(1-3) tt len)
next
  case (3 env sock ts now s)
  then show ?case by (simp add: dispatch_elements.simps)
next
  case (4 env sock ts now path xs ps s)
  let ?w = "wire_message path xs" and ?f = "framed (map wire_packet ps)"
  let ?m = "(received_message (e_be env) xs)\<lparr>m_ts := ts\<rparr>"
  have ok: "packet_ok (PMessage path xs)" "path_ok path" "list_all packet_ok ps" using "4.prems"(1) by simp_all
  have l: "length ?w < 2 ^ 31" using ok(1) by simp
  obtain c where c: "rd_host32 (e_be env) (framed (?w # map wire_packet ps) @ rest) = Some c" "uint (lo_otoh32 (e_be env) c) = int (length ?w)"
    using element_head(1) [OF l] by blast
  note h = c element_head(2,3) [OF l, of "map wire_packet ps"]
  have big: "\<not> int (length (framed (?w # map wire_packet ps))) < 4" by simp
  have tag: "str_eq (?w @ ?f @ rest) ''#bundle'' = Some False" by (rule message_tag(1) [OF ok(1)])
  have des: "lo_message_deserialise (e_al env) (e_be env) (?w @ ?f @ rest) (wire_len path xs) =
      Some (Ref (received_message (e_be env) xs), 0)"
    by (rule deserialise_packet [OF ok(1) "4.prems"(3)])
  have step: "dispatch_elements env s (framed (map wire_packet (PMessage path xs # ps)) @ rest)
      (int (length (framed (map wire_packet (PMessage path xs # ps))))) ts now mem sock =
      (case bundle_message env s ts now (?w @ ?f @ rest) (received_message (e_be env) xs) sock of
         None \<Rightarrow> None
       | Some s1 \<Rightarrow> dispatch_elements env s1 (?f @ rest) (int (length ?f)) ts now mem sock)"
    using h tag des big unfolding dispatch_elements.simps [of env s] list.map wire_packet.simps(1)
    by (cases "bundle_message env s ts now (?w @ ?f @ rest) (received_message (e_be env) xs) sock")
      (simp_all add: Let_def del: framed_simps)
  show ?case
  proof (cases "immediate env s ts now")
    case True
    have m: "bundle_message env s ts now (?w @ ?f @ rest) (received_message (e_be env) xs) sock = message_in env sock ts path xs s"
      using True dispatch_method_wire [OF ok(2) "4.prems"(2)] by (simp add: bundle_message_def message_in_def)
    show ?thesis
    proof (cases "message_in env sock ts path xs s")
      case (Some s')
      have "methods_ok s'" using message_in_setup [OF Some] same_setup_methods "4.prems"(2) by blast
      then show ?thesis using "4.IH"(1) [OF True Some ok(3)] "4.prems"(3) step m Some True by simp
    qed (use step m True in simp)
  next
    case False
    obtain k where "padstr path = path @ NUL # replicate k NUL" using padstr_eq by blast
    then have cs: "cstr (?w @ ?f @ rest) = Some path" using ok(2) by (simp add: wire_message_def path_ok_def)
    let ?s' = "s\<lparr>sv_queued := queue_insert (entry env sock ts path xs) (sv_queued s)\<rparr>"
    have m: "bundle_message env s ts now (?w @ ?f @ rest) (received_message (e_be env) xs) sock = Some ?s'"
      using False cs by (simp add: bundle_message_def queue_data_def entry_def)
    have "methods_ok ?s'" using "4.prems"(2) by (simp add: methods_ok_def)
    then show ?thesis using "4.IH"(2) [OF False ok(3)] "4.prems"(3) step m False by simp
  qed
next
  case (5 env sock ts now tt qs ps s)
  let ?p = "PBundle tt qs"
  let ?w = "wire_packet ?p" and ?f = "framed (map wire_packet ps)"
  have ok: "packet_ok ?p" "list_all packet_ok ps" using "5.prems"(1) by simp_all
  have l: "length ?w < 2 ^ 31" using ok(1) by simp
  obtain c where c: "rd_host32 (e_be env) (framed (?w # map wire_packet ps) @ rest) = Some c" "uint (lo_otoh32 (e_be env) c) = int (length ?w)"
    using element_head(1) [OF l] by blast
  note h = c element_head(2,3) [OF l, of "map wire_packet ps"]
  have big: "\<not> int (length (framed (?w # map wire_packet ps))) < 4" by simp
  have dd: "dispatch_data env s (?w @ ?f @ rest) (int (length ?w)) sock = map_option (\<lambda>s'. (int (length ?w), s')) (deliver env sock ?p s)"
    by (rule "5.IH"(1) [OF ok(1) "5.prems"(2,3)])
  have step: "dispatch_elements env s (framed (map wire_packet (?p # ps)) @ rest)
      (int (length (framed (map wire_packet (?p # ps))))) ts now mem sock =
      (case deliver env sock ?p s of
         None \<Rightarrow> None
       | Some s1 \<Rightarrow> dispatch_elements env s1 (?f @ rest) (int (length ?f)) ts now mem sock)"
    using h bundle_tag_read(1) [where tt = tt and ps = qs and rest = "?f @ rest"] dd big unfolding dispatch_elements.simps [of env s] list.map
    by (cases "deliver env sock ?p s") (simp_all add: Let_def del: framed_simps wire_packet.simps deliver.simps)
  show ?case
  proof (cases "deliver env sock ?p s")
    case (Some s')
    have "methods_ok s'" using deliver_setup(1) [OF Some] same_setup_methods "5.prems"(2) by blast
    then show ?thesis using "5.IH"(2) [OF Some ok(2)] "5.prems"(3) step Some by (simp del: wire_packet.simps deliver.simps)
  qed (use step in \<open>simp del: wire_packet.simps deliver.simps\<close>)
qed

end
