(* ===== verification/Reactions.thy ===== *)
theory Reactions
  imports Delivery
begin

text \<open>
  What a server does with packets: which handlers a message reaches and in which order, which
  messages of a bundle wait, and what one round of the event queue dispatches.
\<close>

section \<open>The handlers a message reaches\<close>

text \<open>
  A method whose path is selected takes a message that has its types, or any if it has none, and with
  coercion (\<open>co\<close>) also one whose types can be converted to its own.
\<close>

definition takes :: "bool \<Rightarrow> byte list \<Rightarrow> lo_method \<Rightarrow> bool" where
  "takes co types m \<longleftrightarrow>
     (case mt_typespec m of NULL \<Rightarrow> True | Ref spec \<Rightarrow> types = spec \<or> co \<and> lo_can_coerce_spec types spec)"

definition call_of :: "byte list \<Rightarrow> lo_message \<Rightarrow> byte list \<Rightarrow> lo_method \<Rightarrow> call" where
  "call_of path msg types m =
     \<lparr>c_handler = mt_handler m, c_user_data = mt_user_data m,
      c_path = (case mt_path m of NULL \<Rightarrow> path | Ref q \<Rightarrow> q), c_types = types, c_data = m_data msg,
      c_argv = m_argv msg, c_argc = length types, c_ts = m_ts msg, c_source = m_source msg\<rparr>"

text \<open>
  The arguments after conversion: their data and the vector of pointers. \<open>None\<close>: a conversion is not defined.
\<close>

definition converted :: "env \<Rightarrow> byte list \<Rightarrow> byte list \<Rightarrow> byte list \<Rightarrow> (byte list \<times> nat ptr list ptr) option" where
  "converted env spec types data =
     (if types = [] then Some ([], NULL)
      else do {
        size \<leftarrow> coerce_size (e_be env) spec types data 0;
        buf \<leftarrow> e_al env At_data size;
        (out, argv) \<leftarrow> coerce_args (e_be env) (e_rnd env) spec types data buf 0;
        Some (out, Ref (map Ref argv))
      })"

text \<open>The call a method that takes the message gets.\<close>

definition handed :: "env \<Rightarrow> byte list \<Rightarrow> lo_message \<Rightarrow> byte list \<Rightarrow> lo_method \<Rightarrow> call option" where
  "handed env path msg types m =
     (case mt_typespec m of
        NULL \<Rightarrow> Some (call_of path msg types m)
      | Ref spec \<Rightarrow>
          if types = spec then Some (call_of path msg types m)
          else map_option (\<lambda>(data, argv). (call_of path msg types m)\<lparr>c_types := spec, c_data := data, c_argv := argv\<rparr>)
                 (converted env spec types (m_data msg)))"

definition offers :: "env \<Rightarrow> bool \<Rightarrow> byte list \<Rightarrow> lo_message \<Rightarrow> byte list \<Rightarrow> lo_method list \<Rightarrow> call list" where
  "offers env co path msg types ms =
     map (\<lambda>m. the (handed env path msg types m)) (filter (\<lambda>m. selected (e_chr_val env) path m \<and> takes co types m) ms)"

text \<open>
  The calls made out of those offered: with \<open>once\<close>, none after a handler that returned 0. What a
  handler returns may depend on all that happened before. \<open>answer\<close> is what the last of them returned, \<open>r\<close> if
  there is none.
\<close>

fun made :: "(event list \<Rightarrow> call \<Rightarrow> int) \<Rightarrow> bool \<Rightarrow> call list \<Rightarrow> event list \<Rightarrow> call list" where
  "made h once [] lg = []"
| "made h once (c # cs) lg = c # (if once \<and> h lg c = 0 then [] else made h once cs (lg @ [Ev_call c]))"

fun answer :: "(event list \<Rightarrow> call \<Rightarrow> int) \<Rightarrow> bool \<Rightarrow> call list \<Rightarrow> event list \<Rightarrow> int \<Rightarrow> int" where
  "answer h once [] lg r = r"
| "answer h once (c # cs) lg r =
     (if once \<and> h lg c = 0 then 0 else answer h once cs (lg @ [Ev_call c]) (h lg c))"

lemma dispatch_to_takes:
  "dispatch_to env m path msg types ret s =
     (if takes (sv_coerce s) types m then map_option (call_handler env s) (handed env path msg types m) else Some (ret, s))"
  by (auto simp: dispatch_to_def takes_def handed_def converted_def call_of_def Let_def lo_server_should_coerce_args_def
      map_option_bind o_def case_prod_unfold option.map_comp split: ptr.splits)

lemma dispatch_loop_made:
  assumes "path_ok path" "list_all path_terminable ms" "r \<noteq> 0 \<or> is_pattern path"
    and "list_all (\<lambda>m. takes co types m \<longrightarrow> handed env path msg types m \<noteq> None) ms" "co = sv_coerce s"
  shows "dispatch_loop env ms path (path @ [NUL]) msg types r s =
    Some (answer (e_handler env) (\<not> is_pattern path) (offers env co path msg types ms) (sv_log s) r,
      s\<lparr>sv_log := sv_log s @ map Ev_call (made (e_handler env) (\<not> is_pattern path) (offers env co path msg types ms) (sv_log s))\<rparr>)"
  using assms(2-5)
proof (induction ms arbitrary: r s)
  case Nil
  show ?case by (simp add: offers_def)
next
  case (Cons m ms)
  have hit: "path_matches (e_chr_val env) (mt_path m) path (path @ [NUL]) = Some (selected (e_chr_val env) path m)"
    using assms(1) Cons.prems(1) by (intro path_matches_selected) (simp_all add: path_ok_def)
  show ?case
  proof (cases "selected (e_chr_val env) path m \<and> takes co types m")
    case False
    then have "dispatch_loop env (m # ms) path (path @ [NUL]) msg types r s =
        dispatch_loop env ms path (path @ [NUL]) msg types r s"
      using Cons.prems(2,4) by (auto simp: hit dispatch_to_takes)
    moreover have "offers env co path msg types (m # ms) = offers env co path msg types ms"
      using False by (simp add: offers_def)
    ultimately show ?thesis using Cons.IH [of r s] Cons.prems by simp
  next
    case True
    then obtain c where c: "handed env path msg types m = Some c" using Cons.prems(3) by auto
    then have offers: "offers env co path msg types (m # ms) = c # offers env co path msg types ms"
      using True by (simp add: offers_def)
    define r1 where "r1 = e_handler env (sv_log s) c"
    have step: "dispatch_loop env (m # ms) path (path @ [NUL]) msg types r s =
        (if r1 = 0 \<and> \<not> is_pattern path then Some (r1, emit (Ev_call c) s)
         else dispatch_loop env ms path (path @ [NUL]) msg types r1 (emit (Ev_call c) s))"
      using True Cons.prems(4) by (simp add: hit dispatch_to_takes c call_handler_def r1_def)
    show ?thesis
    proof (cases "r1 = 0 \<and> \<not> is_pattern path")
      case True
      then show ?thesis using step by (simp add: offers emit_def r1_def)
    next
      case False
      moreover have "dispatch_loop env ms path (path @ [NUL]) msg types r1 (emit (Ev_call c) s) =
          Some (answer (e_handler env) (\<not> is_pattern path) (offers env co path msg types ms) (sv_log (emit (Ev_call c) s)) r1,
            (emit (Ev_call c) s)\<lparr>sv_log := sv_log (emit (Ev_call c) s) @ map Ev_call (made (e_handler env) (\<not> is_pattern path)
              (offers env co path msg types ms) (sv_log (emit (Ev_call c) s)))\<rparr>)"
        using Cons.prems calculation by (intro Cons.IH) (auto simp: emit_def)
      ultimately show ?thesis unfolding step offers by (auto simp: emit_def r1_def)
    qed
  qed
qed

text \<open>
  Where the conversions are defined: no negative or too large number is converted to an integer type
  (\<open>coerce_arg\<close>).
\<close>

definition convertible :: "env \<Rightarrow> osc_arg list \<Rightarrow> lo_method \<Rightarrow> bool" where
  "convertible env xs m \<longleftrightarrow>
     (\<forall>spec. mt_typespec m = Ref spec \<and> lo_can_coerce_spec (map arg_tag xs) spec \<longrightarrow>
       (\<exists>ts. spec = map typechar ts \<and> list_all2 (\<lambda>t a. coerce_arg (e_rnd env) t a \<noteq> None) ts xs))"

lemma zip_parts:
  "map (\<lambda>(t, a). f t) ps = map f (map fst ps)" "map (\<lambda>(t, a). g a) ps = map g (map snd ps)"
  by (simp_all add: case_prod_unfold)

lemma handed_defined:
  assumes "takes co (map arg_tag xs) m" "convertible env xs m \<or> \<not> co" "list_all arg_ok xs" "alloc_total (e_al env)"
    and "m_data msg = concat (map (host_arg (e_be env)) xs)"
  shows "\<exists>c. handed env path msg (map arg_tag xs) m = Some c \<and>
    c_types c = (case mt_typespec m of NULL \<Rightarrow> map arg_tag xs | Ref spec \<Rightarrow> spec)"
proof (cases "mt_typespec m = NULL \<or> mt_typespec m = Ref (map arg_tag xs)")
  case True
  then show ?thesis by (auto simp: handed_def call_of_def)
next
  case False
  then obtain spec where spec: "mt_typespec m = Ref spec" "map arg_tag xs \<noteq> spec" by (cases "mt_typespec m") auto
  then have can: "lo_can_coerce_spec (map arg_tag xs) spec" "co" using assms(1) by (auto simp: takes_def)
  then obtain ts where ts: "spec = map typechar ts" "list_all2 (\<lambda>t a. coerce_arg (e_rnd env) t a \<noteq> None) ts xs"
    using assms(2) spec(1) unfolding convertible_def by blast
  note len = list_all2_lengthD [OF ts(2)]
  from ts(2) have "list_all2 (\<lambda>(t, a) a'. coerce_arg (e_rnd env) t a = Some a' \<and> arg_ok a)
      (zip ts xs) (map (\<lambda>(t, a). the (coerce_arg (e_rnd env) t a)) (zip ts xs))"
    using assms(3) by (auto simp: list_all2_conv_all_nth list_all_length)
  then obtain as' where as': "list_all2 (\<lambda>(t, a) a'. coerce_arg (e_rnd env) t a = Some a' \<and> arg_ok a) (zip ts xs) as'"
    by blast
  have z: "map (\<lambda>(t, a). typechar t) (zip ts xs) = spec" "map (\<lambda>(t, a). arg_tag a) (zip ts xs) = map arg_tag xs"
    "concat (map (\<lambda>(t, a). host_arg (e_be env) a) (zip ts xs)) = m_data msg"
    using len assms(5) ts(1) map_fst_zip [OF len] map_snd_zip [OF len] by (simp_all only: zip_parts)
  have "coerce_size (e_be env) spec (map arg_tag xs) (m_data msg) 0 = Some (args_len as')"
    using coerce_size_args [OF as', of "e_be env" "[]" 0] unfolding z by (simp add: z)
  moreover obtain buf where "e_al env At_data (args_len as') = Some buf" "length buf = args_len as'"
    using assms(4) unfolding alloc_total_def alloc_ok_def by (metis not_None_eq)
  moreover from this(2) obtain out argv where "coerce_args (e_be env) (e_rnd env) spec (map arg_tag xs) (m_data msg) buf 0 = Some (out, argv)"
    using coerce_args_read [OF as', of 0 buf "e_be env" "[]"] by (auto simp: z)
  ultimately show ?thesis using spec by (auto simp: handed_def converted_def)
qed

lemma get_types_repr:
  assumes "msg_repr be m xs"
  shows "cstr (lo_message_get_types m) = Some (map arg_tag xs)"
proof -
  have "take (length xs + 2) (m_types m) = CHR '','' # map arg_tag xs @ [NUL]"
    using assms by (simp add: msg_repr_def types_ok_def)
  then have "m_types m = (CHR '','' # map arg_tag xs @ [NUL]) @ drop (length xs + 2) (m_types m)"
    by (metis append_take_drop_id)
  then have "lo_message_get_types m = map arg_tag xs @ NUL # drop (length xs + 2) (m_types m)"
    unfolding lo_message_get_types_def by (metis append.assoc append_Cons append_Nil drop_Suc_Cons drop0 One_nat_def)
  moreover have "NUL \<notin> set (map arg_tag xs)" by auto
  ultimately show ?thesis by simp
qed

text \<open>The message as the handlers see it.\<close>

definition seen_message :: "env \<Rightarrow> server \<Rightarrow> int \<Rightarrow> lo_timetag \<Rightarrow> osc_arg list \<Rightarrow> lo_message" where
  "seen_message env s sock ts xs =
     (lo_message_incref ((received_message (e_be env) xs)\<lparr>m_ts := ts\<rparr>))
       \<lparr>m_source := (if sv_protocol s = LO_TCP \<and> sock \<ge> 0 then Ref (nat sock) else NULL)\<rparr>"

text \<open>
  What a message makes happen: the calls of the handlers and, over UDP, the reply to a path that ends in a
  slash when no handler dealt with it.
\<close>

definition asks_for_methods :: "server \<Rightarrow> byte list \<Rightarrow> bool" where
  "asks_for_methods s path \<longleftrightarrow> sv_protocol s = LO_UDP \<and> path \<noteq> [] \<and> last path = CHR ''/''"

definition reached :: "env \<Rightarrow> server \<Rightarrow> int \<Rightarrow> lo_timetag \<Rightarrow> byte list \<Rightarrow> osc_arg list \<Rightarrow> event list" where
  "reached env s sock ts path xs =
     (let msg = seen_message env s sock ts xs; types = map arg_tag xs;
          cs = offers env (sv_coerce s) path msg types (sv_methods s); once = (\<not> is_pattern path)
      in map Ev_call (made (e_handler env) once cs (sv_log s)) @
         (if asks_for_methods s path \<and> answer (e_handler env) once cs (sv_log s) 1 = 1
          then [Ev_reply (the (enumeration_reply env path (sv_methods s) msg types))] else []))"

lemma seen_message_data [simp]: "m_data (seen_message env s sock ts xs) = concat (map (host_arg (e_be env)) xs)"
  by (simp add: seen_message_def lo_message_incref_def received_message_def)

lemma enumeration_reply_defined:
  assumes "alloc_total (e_al env)"
  shows "enumeration_reply env path ms (seen_message env s sock ts xs) (map arg_tag xs) \<noteq> None"
proof -
  obtain m where m: "lo_message_new (e_al env) = Some (Ref m)" using lo_message_new_repr [OF assms] by blast
  show ?thesis
  proof (cases "map arg_tag xs = ''i''")
    case True
    then obtain x where x: "xs = [x]" "typechar (arg_type x) = typechar LO_INT32" by (auto simp: arg_tag_def typechar.simps)
    then obtain w where xs: "xs = [OInt32 w]" by (cases x) (auto simp: typechar_inj)
    have "rd_host32 (e_be env) (host32 (e_be env) w) = Some w" using rd_host32_host32 [of "e_be env" w "[]"] by simp
    moreover have "be32 w \<noteq> []" by (simp add: be32_def)
    ultimately show ?thesis using True
      by (simp add: enumeration_reply_def m xs seen_message_def lo_message_incref_def received_message_def Let_def)
  qed (simp add: enumeration_reply_def m Let_def del: map_eq_Cons_conv)
qed

lemma message_in_reached:
  assumes "path_ok path" "methods_ok s" "list_all arg_ok xs" "alloc_total (e_al env)"
    and "sv_coerce s \<Longrightarrow> list_all (convertible env xs) (sv_methods s)"
  shows "message_in env sock ts path xs s = Some (s\<lparr>sv_log := sv_log s @ reached env s sock ts path xs\<rparr>)"
proof -
  let ?m0 = "lo_message_incref ((received_message (e_be env) xs)\<lparr>m_ts := ts\<rparr>)"
  have "msg_repr (e_be env) (received_message (e_be env) xs) xs" by (rule received_message_repr [OF assms(3)])
  then have "msg_repr (e_be env) ?m0 xs"
    by (simp add: lo_message_incref_def msg_repr_def types_ok_def data_ok_def)
  then have types: "cstr (lo_message_get_types ?m0) = Some (map arg_tag xs)" by (rule get_types_repr)
  have cs: "cstr (path @ [NUL]) = Some path" using assms(1) by (simp add: path_ok_def)
  let ?seen = "seen_message env s sock ts xs" and ?types = "map arg_tag xs"
  let ?cs = "offers env (sv_coerce s) path ?seen ?types (sv_methods s)"
  have "list_all (\<lambda>m. takes (sv_coerce s) ?types m \<longrightarrow> handed env path ?seen ?types m \<noteq> None) (sv_methods s)"
    using assms(5) handed_defined [OF _ _ assms(3,4), of "sv_coerce s" _ ?seen path]
    by (cases "sv_coerce s") (auto simp: list_all_iff)
  then have loop: "dispatch_loop env (sv_methods s) path (path @ [NUL]) ?seen ?types 1 s =
      Some (answer (e_handler env) (\<not> is_pattern path) ?cs (sv_log s) 1,
        s\<lparr>sv_log := sv_log s @ map Ev_call (made (e_handler env) (\<not> is_pattern path) ?cs (sv_log s))\<rparr>)"
    using assms(1,2) by (intro dispatch_loop_made) (simp_all add: methods_ok_def)
  obtain reply where reply: "enumeration_reply env path (sv_methods s) ?seen ?types = Some reply"
    using enumeration_reply_defined [OF assms(4)] by blast
  show ?thesis
    unfolding message_in_def dispatch_method_def cs types bind.bind_lunit Let_def seen_message_def [symmetric] loop
    by (simp add: reached_def asks_for_methods_def Let_def reply emit_def)
qed

section \<open>The messages of a bundle\<close>

definition messages_of :: "(byte list \<times> osc_arg list) list \<Rightarrow> packet list" where
  "messages_of ms = map (\<lambda>(path, xs). PMessage path xs) ms"

lemma immediate_setup: "same_setup s s' \<Longrightarrow> immediate env s' ts now = immediate env s ts now"
  by (simp add: immediate_def same_setup_def)

lemma deliver_all_waiting:
  assumes "\<not> immediate env s ts now"
  shows "deliver_all env sock ts now (messages_of ms) s =
    Some (s\<lparr>sv_queued := fold queue_insert (map (\<lambda>(path, xs). entry env sock ts path xs) ms) (sv_queued s)\<rparr>)"
  using assms
proof (induction ms arbitrary: s)
  case (Cons m ms)
  obtain path xs where m: "m = (path, xs)" by (cases m)
  let ?s = "s\<lparr>sv_queued := queue_insert (entry env sock ts path xs) (sv_queued s)\<rparr>"
  have "\<not> immediate env ?s ts now"
    using Cons.prems immediate_setup [of s ?s env ts now] by simp
  then show ?case using Cons.IH [of ?s] Cons.prems by (simp add: messages_of_def m)
qed (simp add: messages_of_def)

text \<open>Messages handled at once, one after the other.\<close>

definition react :: "env \<Rightarrow> int \<Rightarrow> lo_timetag \<Rightarrow> byte list \<times> osc_arg list \<Rightarrow> server \<Rightarrow> server" where
  "react env sock ts m s = s\<lparr>sv_log := sv_log s @ reached env s sock ts (fst m) (snd m)\<rparr>"

text \<open>A message whose path has a settled reading and whose arguments convert wherever they have to.\<close>

definition plain_message :: "env \<Rightarrow> server \<Rightarrow> byte list \<times> osc_arg list \<Rightarrow> bool" where
  "plain_message env s m \<longleftrightarrow> path_ok (fst m) \<and> list_all arg_ok (snd m) \<and>
     (sv_coerce s \<longrightarrow> list_all (convertible env (snd m)) (sv_methods s))"

lemma react_setup [simp]: "same_setup (react env sock ts m s) s' = same_setup s s'"
  "same_setup s' (react env sock ts m s) = same_setup s' s" "sv_queued (react env sock ts m s) = sv_queued s"
  by (simp_all add: react_def same_setup_def)

lemma plain_message_setup: "same_setup s s' \<Longrightarrow> plain_message env s' = plain_message env s"
  by (simp add: fun_eq_iff plain_message_def same_setup_def)

lemma deliver_all_now:
  assumes "immediate env s ts now" "methods_ok s" "list_all (plain_message env s) ms" "alloc_total (e_al env)"
  shows "deliver_all env sock ts now (messages_of ms) s = Some (fold (react env sock ts) ms s)"
  using assms(1-3)
proof (induction ms arbitrary: s)
  case (Cons m ms)
  obtain path xs where m: "m = (path, xs)" by (cases m)
  have "message_in env sock ts path xs s = Some (react env sock ts m s)"
    using Cons.prems assms(4) unfolding react_def by (simp add: m plain_message_def message_in_reached)
  moreover have "immediate env (react env sock ts m s) ts now" "methods_ok (react env sock ts m s)"
      "list_all (plain_message env (react env sock ts m s)) ms"
    using Cons.prems plain_message_setup [of s "react env sock ts m s" env]
    by (simp_all add: immediate_def react_def methods_ok_def same_setup_def)
  ultimately show ?case using Cons.IH [of "react env sock ts m s"] Cons.prems(1) by (simp add: messages_of_def m)
qed (simp add: messages_of_def)

section \<open>One round of the event queue\<close>

text \<open>Dispatching does not look at the queue.\<close>

lemma emit_queue: "emit e (s\<lparr>sv_queued := q\<rparr>) = (emit e s)\<lparr>sv_queued := q\<rparr>"
  by (simp add: emit_def)

lemma call_handler_queue:
  "call_handler env (s\<lparr>sv_queued := q\<rparr>) c = (fst (call_handler env s c), (snd (call_handler env s c))\<lparr>sv_queued := q\<rparr>)"
  by (simp add: call_handler_def emit_queue)

lemma dispatch_to_queue:
  "dispatch_to env m path msg types ret (s\<lparr>sv_queued := q\<rparr>) =
     map_option (\<lambda>(r, s'). (r, s'\<lparr>sv_queued := q\<rparr>)) (dispatch_to env m path msg types ret s)"
  by (simp add: dispatch_to_def Let_def lo_server_should_coerce_args_def call_handler_queue case_prod_unfold
      map_option_bind o_def split: ptr.splits)

lemma dispatch_loop_queue:
  "dispatch_loop env ms path mem msg types ret (s\<lparr>sv_queued := q\<rparr>) =
     map_option (\<lambda>(r, s'). (r, s'\<lparr>sv_queued := q\<rparr>)) (dispatch_loop env ms path mem msg types ret s)"
proof (induction ms arbitrary: ret s)
  case (Cons m ms)
  show ?case
  proof (cases "path_matches (e_chr_val env) (mt_path m) path mem")
    case (Some hit)
    show ?thesis
    proof (cases "dispatch_to env m path msg types ret s")
      case (Some p)
      then show ?thesis using \<open>path_matches _ _ _ _ = _\<close> Cons.IH by (cases p) (auto simp: dispatch_to_queue)
    qed (use Some Cons.IH in \<open>auto simp: dispatch_to_queue\<close>)
  qed simp
qed simp

lemma dispatch_method_queue:
  "dispatch_method env (s\<lparr>sv_queued := q\<rparr>) mem msg sock =
     map_option (\<lambda>s'. s'\<lparr>sv_queued := q\<rparr>) (dispatch_method env s mem msg sock)"
proof (cases "cstr mem")
  case (Some path)
  show ?thesis
  proof (cases "cstr (lo_message_get_types msg)")
    case types: (Some types)
    define msg1 where "msg1 = msg\<lparr>m_source := (if sv_protocol s = LO_TCP \<and> sock \<ge> 0 then Ref (nat sock) else NULL)\<rparr>"
    show ?thesis
    proof (cases "dispatch_loop env (sv_methods s) path mem msg1 types 1 s")
      case (Some p)
      then have "sv_methods (snd p) = sv_methods s"
        by (cases p) (auto dest!: dispatch_loop_logged simp: logged_def)
      then show ?thesis using Some \<open>cstr mem = _\<close> types
        by (cases p) (auto simp: dispatch_method_def msg1_def [symmetric] dispatch_loop_queue emit_queue split: bind_splits)
    qed (use Some types in \<open>simp add: dispatch_method_def msg1_def [symmetric] dispatch_loop_queue\<close>)
  qed (use Some in \<open>simp add: dispatch_method_def\<close>)
qed (simp add: dispatch_method_def)

fun run_entries :: "env \<Rightarrow> queued_msg list \<Rightarrow> server \<Rightarrow> server option" where
  "run_entries env [] s = Some s"
| "run_entries env (e # es) s = do {
     s' \<leftarrow> dispatch_method env s (q_path e @ [NUL]) (q_msg e) (q_sock e);
     run_entries env es s'
   }"

lemma run_entries_queue:
  "run_entries env es (s\<lparr>sv_queued := q\<rparr>) = map_option (\<lambda>s'. s'\<lparr>sv_queued := q\<rparr>) (run_entries env es s)"
proof (induction es arbitrary: s)
  case (Cons e es)
  then show ?case
    by (cases "dispatch_method env s (q_path e @ [NUL]) (q_msg e) (q_sock e)") (simp_all add: dispatch_method_queue)
qed simp

definition is_due :: "lo_timetag \<Rightarrow> bool \<Rightarrow> queued_msg \<Rightarrow> bool" where
  "is_due t dispatch_all e \<longleftrightarrow> lo_timetag_diff (q_ts e) t < FLT_EPSILON \<or> dispatch_all"

lemma dispatch_due_run:
  "dispatch_due env t dispatch_all (e # q) s =
     map_option (\<lambda>s'. s'\<lparr>sv_queued := dropWhile (is_due t dispatch_all) q\<rparr>)
       (run_entries env (e # takeWhile (is_due t dispatch_all) q) s)"
proof (induction q arbitrary: e s)
  case Nil
  then show ?case by (cases "dispatch_method env s (q_path e @ [NUL]) (q_msg e) (q_sock e)") simp_all
next
  case (Cons e' q)
  show ?case
  proof (cases "dispatch_method env s (q_path e @ [NUL]) (q_msg e) (q_sock e)")
    case (Some s1)
    show ?thesis
    proof (cases "is_due t dispatch_all e'")
      case True
      then have "dispatch_due env t dispatch_all (e # e' # q) s =
          dispatch_due env t dispatch_all (e' # q) (s1\<lparr>sv_queued := e' # q\<rparr>)"
        using Some by (simp add: is_due_def)
      also have "\<dots> = map_option (\<lambda>s'. s'\<lparr>sv_queued := dropWhile (is_due t dispatch_all) q\<rparr>)
          (map_option (\<lambda>s'. s'\<lparr>sv_queued := e' # q\<rparr>) (run_entries env (e' # takeWhile (is_due t dispatch_all) q) s1))"
        unfolding Cons.IH run_entries_queue ..
      finally show ?thesis using True Some by (simp add: option.map_comp o_def)
    qed (use Some in \<open>auto simp: is_due_def\<close>)
  qed simp
qed

section \<open>Coerced calls\<close>

text \<open>\<open>tas\<close> pairs the types a method wants with the arguments that came; \<open>as'\<close> is what it gets.\<close>

lemma dispatch_to_coerced:
  assumes "sv_coerce s" "alloc_total (e_al env)" "mt_typespec m = Ref (map (\<lambda>(t, a). typechar t) tas)"
    and "map (\<lambda>(t, a). arg_tag a) tas \<noteq> map (\<lambda>(t, a). typechar t) tas"
    and "lo_can_coerce_spec (map (\<lambda>(t, a). arg_tag a) tas) (map (\<lambda>(t, a). typechar t) tas)"
    and "list_all2 (\<lambda>(t, a) a'. coerce_arg (e_rnd env) t a = Some a' \<and> arg_ok a) tas as'"
    and "m_data msg = concat (map (\<lambda>(t, a). host_arg (e_be env) a) tas) @ rest"
  shows "\<exists>data. dispatch_to env m path msg (map (\<lambda>(t, a). arg_tag a) tas) ret s =
      Some (call_handler env s ((call_of path msg (map (\<lambda>(t, a). arg_tag a) tas) m)
        \<lparr>c_types := map (\<lambda>(t, a). typechar t) tas, c_data := data, c_argv := Ref (map Ref (co_offsets as' 0))\<rparr>)) \<and>
    list_all2 (\<lambda>off a'. reads (e_be env) a' (drop off data)) (co_offsets as' 0) as'"
proof -
  have ne: "map (\<lambda>(t, a). arg_tag a) tas \<noteq> []" using assms(4) by auto
  have sz: "coerce_size (e_be env) (map (\<lambda>(t, a). typechar t) tas) (map (\<lambda>(t, a). arg_tag a) tas) (m_data msg) 0 =
      Some (args_len as')"
    unfolding assms(7) using coerce_size_args [OF assms(6), of "e_be env" rest 0] by simp
  obtain buf where buf: "e_al env At_data (args_len as') = Some buf" "length buf = args_len as'"
    using assms(2) unfolding alloc_total_def alloc_ok_def by (metis not_None_eq)
  obtain data where data: "coerce_args (e_be env) (e_rnd env) (map (\<lambda>(t, a). typechar t) tas) (map (\<lambda>(t, a). arg_tag a) tas)
        (m_data msg) buf 0 = Some (data, co_offsets as' 0)"
    "list_all2 (\<lambda>off a'. reads (e_be env) a' (drop off data)) (co_offsets as' 0) as'"
    unfolding assms(7) using coerce_args_read [OF assms(6), of 0 buf "e_be env" rest] buf(2) by auto
  have "dispatch_to env m path msg (map (\<lambda>(t, a). arg_tag a) tas) ret s =
      Some (call_handler env s ((call_of path msg (map (\<lambda>(t, a). arg_tag a) tas) m)
        \<lparr>c_types := map (\<lambda>(t, a). typechar t) tas, c_data := data, c_argv := Ref (map Ref (co_offsets as' 0))\<rparr>))"
    using assms(1,4,5) ne unfolding dispatch_to_def Let_def assms(3) ptr.case lo_server_should_coerce_args_def
    by (simp add: sz buf(1) data(1) call_of_def del: map_eq_conv)
  then show ?thesis using data(2) by blast
qed

section \<open>Properties\<close>

text \<open>
  C3: The dispatcher on bytes refines the delivery of packets as trees: on the wire form of any
  well-formed packet, nested bundles included, and whatever follows it in memory, \<open>dispatch_data\<close>
  reads in bounds, returns the packet's size, and leaves the server as \<open>deliver\<close> does.
\<close>

theorem dispatch_refines_delivery:
  assumes "packet_ok p" "methods_ok s" "alloc_total (e_al env)"
  shows "dispatch_data env s (wire_packet p @ rest) (int (length (wire_packet p))) sock =
    map_option (\<lambda>s'. (int (length (wire_packet p)), s')) (deliver env sock p s)"
  using deliver_refined(1) [OF assms(3,1,2)] .


text \<open>
  C19: A bundle of messages that is due, or that a server without a queue receives, is handled at once: the
  start handler, if there is one, the messages in the order in which they are in the bundle, then the end
  handler, if there is one; nothing is queued. Each message makes happen what theorem
  \<open>message_reaches_handlers\<close> says, under the same conditions. Bundles in the bundle are covered by
  \<open>dispatch_refines_delivery\<close>.
\<close>

theorem due_bundle_runs_in_order:
  assumes "packet_ok (PBundle tt (messages_of ms))" "methods_ok s" "alloc_total (e_al env)"
    and "tt = LO_TT_IMMEDIATE \<or> tt \<le> e_now env (sv_log s) \<or> \<not> sv_enqueue s" "list_all (plain_message env s) ms"
  shows "dispatch_data env s (wire_packet (PBundle tt (messages_of ms))) (int (length (wire_packet (PBundle tt (messages_of ms))))) sock =
    Some (int (length (wire_packet (PBundle tt (messages_of ms)))),
      (if sv_bundle_end s then emit Ev_bundle_end else id)
        (fold (react env sock tt) ms ((if sv_bundle_start s then emit (Ev_bundle_start tt) else id) s)))"
proof -
  let ?s = "if sv_bundle_start s then emit (Ev_bundle_start tt) s else s"
  have s: "same_setup s ?s" by (simp add: same_setup_def emit_def)
  have "immediate env ?s tt (e_now env (sv_log s))"
    using assms(4) by (auto simp: immediate_def emit_def lo_timetag_diff_le_0)
  moreover have "methods_ok ?s" "list_all (plain_message env ?s) ms"
    using assms(2,5) plain_message_setup [OF s] by (simp_all add: emit_def methods_ok_def)
  ultimately have d: "deliver_all env sock tt (e_now env (sv_log s)) (messages_of ms) ?s =
      Some (fold (react env sock tt) ms ?s)"
    using assms(3) by (intro deliver_all_now)
  have e: "sv_bundle_end (fold (react env sock tt) ms t) = sv_bundle_end t" for t
    by (induction ms arbitrary: t) (simp_all add: react_def)
  have "sv_bundle_end ?s = sv_bundle_end s" by (simp add: emit_def)
  then show ?thesis
    using deliver_refined(1) [OF assms(3,1,2), of "[]" sock] d
    by (auto simp: e simp del: wire_packet.simps)
qed

text \<open>
  C20: With queueing enabled, the messages of a bundle whose time has not come all wait: no method is
  called, the queue stays ordered by time, the new entries come behind those of the same time and in
  the order of the bundle, and nothing is lost. The handlers for the start and the end of a bundle are
  called all the same, at once and with no message between them: the end handler does not wait for the
  messages.
\<close>

theorem future_bundle_waits:
  assumes "packet_ok (PBundle tt (messages_of ms))" "methods_ok s" "alloc_total (e_al env)"
    and "sv_enqueue s" "e_now env (sv_log s) < tt" "tt \<noteq> LO_TT_IMMEDIATE" "sorted (map q_ts (sv_queued s))"
  shows "\<exists>s'. dispatch_data env s (wire_packet (PBundle tt (messages_of ms)))
        (int (length (wire_packet (PBundle tt (messages_of ms))))) sock =
      Some (int (length (wire_packet (PBundle tt (messages_of ms)))), s') \<and>
    sorted (map q_ts (sv_queued s')) \<and>
    (\<forall>k. filter (\<lambda>e. q_ts e = k) (sv_queued s') = filter (\<lambda>e. q_ts e = k) (sv_queued s) @
       (if k = tt then map (\<lambda>(path, xs). entry env sock tt path xs) ms else [])) \<and>
    sv_log s' = sv_log s @ (if sv_bundle_start s then [Ev_bundle_start tt] else []) @ (if sv_bundle_end s then [Ev_bundle_end] else [])"
proof -
  let ?s = "if sv_bundle_start s then emit (Ev_bundle_start tt) s else s"
  let ?es = "map (\<lambda>(path, xs). entry env sock tt path xs) ms"
  have "\<not> immediate env ?s tt (e_now env (sv_log s))"
    using assms(4-6) by (auto simp: immediate_def emit_def lo_timetag_diff_le_0 intro: lo_timetag.expand)
  then have d: "deliver_all env sock tt (e_now env (sv_log s)) (messages_of ms) ?s =
      Some (?s\<lparr>sv_queued := fold queue_insert ?es (sv_queued ?s)\<rparr>)"
    by (rule deliver_all_waiting)
  have q: "sv_queued ?s = sv_queued s" by (simp add: emit_def)
  let ?t = "?s\<lparr>sv_queued := fold queue_insert ?es (sv_queued s)\<rparr>"
  let ?u = "if sv_bundle_end ?t then emit Ev_bundle_end ?t else ?t"
  have "dispatch_data env s (wire_packet (PBundle tt (messages_of ms)))
      (int (length (wire_packet (PBundle tt (messages_of ms))))) sock =
      Some (int (length (wire_packet (PBundle tt (messages_of ms)))), ?u)"
    using deliver_refined(1) [OF assms(3,1,2), of "[]" sock] d q by (simp del: wire_packet.simps)
  moreover have "sv_queued ?u = fold queue_insert ?es (sv_queued s)" by (simp add: emit_def)
  moreover have "filter (\<lambda>e. q_ts e = k) ?es = (if k = tt then ?es else [])" for k
    by (auto simp: filter_id_conv filter_empty_conv entry_def)
  moreover have "sv_log ?u = sv_log s @ (if sv_bundle_start s then [Ev_bundle_start tt] else []) @
      (if sv_bundle_end s then [Ev_bundle_end] else [])"
    by (simp add: emit_def)
  ultimately show ?thesis using eq.enq_all [OF assms(7), of ?es] by (intro exI [of _ ?u]) simp
qed

text \<open>
  C24: One round of the event queue dispatches the head and, in order, the entries behind it that are
  due at the same time (with \<open>dispatch_all\<close>, every one), each exactly once, and leaves the rest
  queued; a round on an empty queue reports a timeout.
\<close>

theorem dispatch_queued_round:
  shows "dispatch_queued env s dispatch_all =
    (case sv_queued s of
       [] \<Rightarrow> Some (1, lo_throw s LO_INT_ERR (Some ''timeout''))
     | e # q \<Rightarrow>
         map_option (\<lambda>s'. (0, s'\<lparr>sv_queued := dropWhile (is_due (q_ts e) dispatch_all) q\<rparr>))
           (run_entries env (e # takeWhile (is_due (q_ts e) dispatch_all) q) s))"
  by (simp add: dispatch_queued_def dispatch_due_run option.map_comp o_def del: dispatch_due.simps run_entries.simps
      split: list.splits)

text \<open>
  C29: When a method's type string differs from the message's but the types coerce and coercion is
  enabled, the handler is called with the method's types, a data buffer and an argument vector
  through which it reads exactly the converted arguments.
\<close>

theorem coerced_call_reads_arguments:
  assumes "sv_coerce s" "alloc_total (e_al env)" "mt_typespec m = Ref (map (\<lambda>(t, a). typechar t) tas)"
    and "map (\<lambda>(t, a). arg_tag a) tas \<noteq> map (\<lambda>(t, a). typechar t) tas"
    and "lo_can_coerce_spec (map (\<lambda>(t, a). arg_tag a) tas) (map (\<lambda>(t, a). typechar t) tas)"
    and "list_all2 (\<lambda>(t, a) a'. coerce_arg (e_rnd env) t a = Some a' \<and> arg_ok a) tas as'"
    and "m_data msg = concat (map (\<lambda>(t, a). host_arg (e_be env) a) tas) @ rest"
  shows "\<exists>data. dispatch_to env m path msg (map (\<lambda>(t, a). arg_tag a) tas) ret s =
      Some (call_handler env s ((call_of path msg (map (\<lambda>(t, a). arg_tag a) tas) m)
        \<lparr>c_types := map (\<lambda>(t, a). typechar t) tas, c_data := data, c_argv := Ref (map Ref (co_offsets as' 0))\<rparr>)) \<and>
    list_all2 (\<lambda>off a'. reads (e_be env) a' (drop off data)) (co_offsets as' 0) as'"
  using assms by (rule dispatch_to_coerced)

section \<open>Witnesses\<close>

text \<open>A server with the method \<open>/a\<close> for one integer, at the time 100, whose handlers return 0.\<close>

definition sample_env :: env where
  "sample_env = \<lparr>e_be = True, e_chr_val = of_char, e_rnd = \<lparr>rnd_float = (\<lambda>_. 0), rnd_double = (\<lambda>_. 0)\<rparr>,
     e_al = al_zero, e_handler = (\<lambda>_ _. 0), e_now = (\<lambda>_. Timetag 100 0)\<rparr>"

definition sample_server :: server where
  "sample_server = \<lparr>sv_methods = [sample_method, sample_method], sv_protocol = LO_UDP, sv_coerce = False,
     sv_enqueue = True, sv_queued = [], sv_bundle_start = True, sv_bundle_end = True, sv_err_h = True, sv_log = []\<rparr>"

lemma sample_setup:
  "e_al sample_env = al_zero" "alloc_total (e_al sample_env)" "methods_ok sample_server" "\<not> sv_coerce sample_server"
  "sv_enqueue sample_server" "sv_bundle_start sample_server" "sv_bundle_end sample_server"
  "e_now sample_env lg = Timetag 100 0" "sv_queued sample_server = []" "sv_log sample_server = []"
  by (simp_all add: sample_env_def sample_server_def methods_ok_def path_terminable_def sample_method_def)

lemma sample_path: "path_ok ''/a''" "\<not> is_pattern ''/a''" "''/a'' \<noteq> bundle_tag"
  by (simp_all add: path_ok_def is_pattern_def bundle_tag_def)

lemma sample_tag: "map arg_tag [OInt32 7] = ''i''"
  by (simp add: arg_tag_def typechar.simps)

lemma sample_packet_ok: "packet_ok (PMessage ''/a'' [OInt32 7])"
  by (simp add: sample_path sample_wire_len)

lemma sample_bundle_ok: "packet_ok (PBundle tt (messages_of [(''/a'', [OInt32 7])]))"
proof -
  have "length (wire_packet (PBundle tt [PMessage ''/a'' [OInt32 7]])) = 32"
    unfolding wire_bundle by (simp add: sample_wire_len)
  then show ?thesis using sample_packet_ok by (simp add: messages_of_def del: wire_packet.simps)
qed

theorem dispatch_refines_delivery_witness:
  "dispatch_data sample_env sample_server (wire_packet (PMessage ''/a'' [OInt32 7])) 12 (- 1) =
     map_option (\<lambda>s'. (12, s')) (deliver sample_env (- 1) (PMessage ''/a'' [OInt32 7]) sample_server)"
  using dispatch_refines_delivery [OF sample_packet_ok sample_setup(3,2), of "[]" "- 1"]
  by (simp add: sample_wire_len)

text \<open>
  The two equal methods both get a message sent to a pattern, the characters of a set, by a server that
  converts arguments.
\<close>

lemma sample_pattern: "path_ok ''/[a-c]''" "is_pattern ''/[a-c]''"
  by (simp_all add: path_ok_def is_pattern_def readable_def set_char_def)

lemma sample_pattern_wire_len: "wire_len ''/[a-c]'' [OInt32 7] = 16"
  using sample_wire_len by (simp add: wire_len_def lo_strsize_def)

lemma sample_convertible: "convertible sample_env [OInt32 7] sample_method"
  unfolding convertible_def
  by (auto simp: sample_method_def coerce_arg_def typechar.simps intro!: exI [of _ "[LO_INT32]"])


theorem due_bundle_runs_in_order_witness:
  "\<exists>c. dispatch_data sample_env sample_server (wire_packet (PBundle LO_TT_IMMEDIATE (messages_of [(''/a'', [OInt32 7])])))
     (int (length (wire_packet (PBundle LO_TT_IMMEDIATE (messages_of [(''/a'', [OInt32 7])]))))) (- 1) =
     Some (int (length (wire_packet (PBundle LO_TT_IMMEDIATE (messages_of [(''/a'', [OInt32 7])])))),
       sample_server\<lparr>sv_log := [Ev_bundle_start LO_TT_IMMEDIATE, Ev_call c, Ev_bundle_end]\<rparr>)"
proof -
  let ?s = "emit (Ev_bundle_start LO_TT_IMMEDIATE) sample_server"
  have pm: "list_all (plain_message sample_env sample_server) [(''/a'', [OInt32 7])]"
    by (simp add: plain_message_def sample_path sample_setup)
  define c where "c = call_of ''/a'' (seen_message sample_env ?s (- 1) LO_TT_IMMEDIATE [OInt32 7]) ''i'' sample_method"
  have "offers sample_env co ''/a'' (seen_message sample_env ?s (- 1) LO_TT_IMMEDIATE [OInt32 7]) ''i'' (sv_methods ?s) = [c, c]" for co
    by (simp add: offers_def sample_server_def emit_def sample_method_def selected_def takes_def handed_def c_def)
  then have "reached sample_env ?s (- 1) LO_TT_IMMEDIATE ''/a'' [OInt32 7] = [Ev_call c]"
    by (simp add: reached_def asks_for_methods_def sample_tag sample_path Let_def del: list.map) (simp add: sample_env_def)
  then show ?thesis
    using due_bundle_runs_in_order [OF sample_bundle_ok sample_setup(3,2) disjI1 [OF refl] pm, of "- 1"]
    by (auto simp: react_def emit_def sample_setup simp del: wire_packet.simps)
qed

theorem future_bundle_waits_witness:
  "\<exists>s'. dispatch_data sample_env sample_server (wire_packet (PBundle (Timetag 200 0) (messages_of [(''/a'', [OInt32 7])])))
     (int (length (wire_packet (PBundle (Timetag 200 0) (messages_of [(''/a'', [OInt32 7])]))))) (- 1) =
     Some (int (length (wire_packet (PBundle (Timetag 200 0) (messages_of [(''/a'', [OInt32 7])])))), s') \<and>
     filter (\<lambda>e. q_ts e = Timetag 200 0) (sv_queued s') = [entry sample_env (- 1) (Timetag 200 0) ''/a'' [OInt32 7]]"
proof -
  have "e_now sample_env (sv_log sample_server) < Timetag 200 0" "Timetag 200 0 \<noteq> LO_TT_IMMEDIATE"
    by (simp_all add: sample_setup less_lo_timetag_def tt_key_def LO_TT_IMMEDIATE_def)
  moreover have "sorted (map q_ts (sv_queued sample_server))" by (simp add: sample_setup)
  ultimately show ?thesis
    using future_bundle_waits [OF sample_bundle_ok sample_setup(3,2,5), of "Timetag 200 0" "- 1"]
    by (auto simp: sample_setup simp del: wire_packet.simps)
qed

text \<open>A message with a string, for a method that wants a symbol.\<close>

theorem coerced_call_reads_arguments_witness:
  "\<exists>data. dispatch_to sample_env (sample_method\<lparr>mt_typespec := Ref ''S''\<rparr>) ''/a'' (received_message True [OString ''x'']) ''s'' 1
      (sample_server\<lparr>sv_coerce := True\<rparr>) =
    Some (call_handler sample_env (sample_server\<lparr>sv_coerce := True\<rparr>)
      ((call_of ''/a'' (received_message True [OString ''x'']) ''s'' (sample_method\<lparr>mt_typespec := Ref ''S''\<rparr>))
        \<lparr>c_types := ''S'', c_data := data, c_argv := Ref [Ref 0]\<rparr>)) \<and> reads True (OSymbol ''x'') data"
proof -
  have tags: "arg_tag (OString ''x'') = CHR ''s''" "typechar LO_SYMBOL = CHR ''S''"
    by (simp_all add: arg_tag_def typechar.simps)
  have can: "lo_can_coerce (CHR ''s'') (CHR ''S'')"
    by (simp add: lo_can_coerce_def lo_is_string_type_def typechar.simps)
  show ?thesis
    using coerced_call_reads_arguments [of "sample_server\<lparr>sv_coerce := True\<rparr>" sample_env "sample_method\<lparr>mt_typespec := Ref ''S''\<rparr>"
        "[(LO_SYMBOL, OString ''x'')]" "[OSymbol ''x'']" "received_message True [OString ''x'']" "[]" "''/a''" 1]
      can
    by (simp add: sample_setup tags lo_can_coerce_spec_def coerce_arg_def received_message_def sample_env_def)
qed

end
