(* ===== verification/Serving.thy ===== *)
theory Serving
  imports Reactions Sockets Address
begin

text \<open>
  The whole server object (\<open>struct _lo_server\<close>): what the dispatcher works on and the socket table
  together, with \<open>lo_server_recv\<close>, \<open>lo_server_recv_raw\<close>, \<open>lo_server_recv_noblock\<close>, \<open>lo_server_wait\<close>
  and the accessors of \<open>src/server.c\<close> (the build with \<open>poll\<close>, without IPv6). What
  \<open>poll\<close>, \<open>accept\<close>, \<open>recv\<close>, \<open>recvfrom\<close> and the clock give is an argument.
\<close>

section \<open>The object\<close>

record lo_server =
  ls_core :: server
  ls_socks :: "lo_address sockets"
  ls_port :: int
  ls_hostname :: "byte list ptr"
  ls_path :: "byte list ptr"
  ls_iface :: lo_inaddr

abbreviation ls_protocol :: "lo_server \<Rightarrow> proto" where
  "ls_protocol s \<equiv> sv_protocol (ls_core s)"

abbreviation ls_delay :: "lo_timetag \<Rightarrow> lo_server \<Rightarrow> rat" where
  "ls_delay now s \<equiv> lo_server_next_event_delay now (sv_queued (ls_core s))"

definition sockets_len :: "lo_server \<Rightarrow> nat" where
  "sockets_len s = length (so_fds (ls_socks s))"

section \<open>Accessors\<close>

definition lo_server_get_socket_fd :: "lo_server \<Rightarrow> int option" where
  "lo_server_get_socket_fd s = (case so_fds (ls_socks s) of [] \<Rightarrow> None | fd # _ \<Rightarrow> Some fd)"

definition lo_server_get_port :: "lo_server ptr \<Rightarrow> int" where
  "lo_server_get_port s = (case s of NULL \<Rightarrow> 0 | Ref s \<Rightarrow> ls_port s)"

definition lo_server_get_protocol :: "lo_server ptr \<Rightarrow> proto option" where
  "lo_server_get_protocol s = (case s of NULL \<Rightarrow> None | Ref s \<Rightarrow> Some (ls_protocol s))"

text \<open>
  \<open>gethostname\<close> gives a name (empty when it failed), \<open>gethostbyname\<close> its entry. A name that does not
  fit is not terminated.
\<close>

definition LO_HOST_SIZE :: nat where "LO_HOST_SIZE = 1024"

definition lo_server_resolve_hostname ::
  "alloc \<Rightarrow> byte list \<Rightarrow> (byte list \<Rightarrow> byte list ptr) \<Rightarrow> lo_server \<Rightarrow> lo_server option" where
  "lo_server_resolve_hostname al name gethostbyname s =
     (let hostname = (case gethostbyname name of NULL \<Rightarrow> name | Ref h \<Rightarrow> h) in
      if LO_HOST_SIZE \<le> length hostname then None
      else Some (s\<lparr>ls_hostname := strdup al (Ref (if hostname = [] then ''localhost'' else hostname))\<rparr>))"

text \<open>\<open>%d\<close>\<close>

fun dec :: "nat \<Rightarrow> byte list" where
  "dec n = (if n < 10 then [''0123456789'' ! n] else dec (n div 10) @ [''0123456789'' ! (n mod 10)])"

declare dec.simps [simp del]

definition dec_int :: "int \<Rightarrow> byte list" where
  "dec_int i = (if i < 0 then CHR ''-'' # dec (nat (- i)) else dec (nat i))"

text \<open>Printing a NULL string, and into a buffer that could not be had, is undefined.\<close>

definition lo_server_get_url ::
  "alloc \<Rightarrow> byte list \<Rightarrow> (byte list \<Rightarrow> byte list ptr) \<Rightarrow> lo_server ptr \<Rightarrow> (byte list ptr \<times> lo_server ptr) option" where
  "lo_server_get_url al name gethostbyname sp =
     (case sp of
        NULL \<Rightarrow> Some (NULL, NULL)
      | Ref s \<Rightarrow>
          if ls_protocol s = LO_UNIX then
            (case ls_path s of
               NULL \<Rightarrow> None
             | Ref p \<Rightarrow>
                 let buf = ''osc.unix:///'' @ p
                 in if al At_data (length buf + 2) = None then None else Some (Ref buf, Ref s))
          else do {
            s1 \<leftarrow> (if ls_hostname s = NULL then lo_server_resolve_hostname al name gethostbyname s else Some s);
            (case ls_hostname s1 of
               NULL \<Rightarrow> None
             | Ref host \<Rightarrow>
                 let buf = ''osc.'' @ get_protocol_name (ls_protocol s1) @ ''://'' @ host @ '':'' @ dec_int (ls_port s1) @ ''/''
                 in if al At_data (length buf + 2) = None then None else Some (Ref buf, Ref s1))
          })"

section \<open>Receiving\<close>

text \<open>\<open>recvfrom\<close> gives an error or nothing (\<open>None\<close>), or a datagram, cut to the size of the buffer.\<close>

definition lo_server_recv_raw :: "alloc \<Rightarrow> byte list option \<Rightarrow> byte list ptr option" where
  "lo_server_recv_raw al dgram =
     (case dgram of
        None \<Rightarrow> Some NULL
      | Some bytes \<Rightarrow>
          let buffer = take LO_MAX_MSG_SIZE bytes in
          if buffer = [] then Some NULL
          else if al At_data (length buffer) = None then None
          else Some (Ref buffer))"

text \<open>The first of the \<open>n\<close> sockets from \<open>i\<close> on that \<open>poll\<close> reports something for.\<close>

fun first_event :: "(nat \<Rightarrow> revents) \<Rightarrow> nat \<Rightarrow> nat \<Rightarrow> revents" where
  "first_event revents i 0 = Rev_none"
| "first_event revents i (Suc n) =
     (case revents i of Rev_none \<Rightarrow> first_event revents (Suc i) n | r \<Rightarrow> r)"

text \<open>
  How the wait of \<open>lo_server_recv\<close> ends: an event is due, an error on a socket, a socket is ready, or
  a message was waiting in a buffer.
\<close>

datatype waited = W_due | W_error | W_ready | W_data "byte list" int

text \<open>What is decided without polling; NULL: \<open>poll\<close> is called.\<close>

definition before_poll :: "alloc \<Rightarrow> lo_server \<Rightarrow> rat \<Rightarrow> (waited ptr \<times> lo_server) option" where
  "before_poll al s sched_time =
     (if \<not> sched_time > 1 / 100 then Some (Ref W_due, s)
      else if ls_protocol s = LO_TCP then do {
        (found, socks) \<leftarrow> scan_buffers al (ls_socks s) 0 (sockets_len s);
        Some (case found of NULL \<Rightarrow> NULL | Ref (data, fd) \<Rightarrow> Ref (W_data data fd), s\<lparr>ls_socks := socks\<rparr>)
      }
      else Some (NULL, s))"

text \<open>
  The loop \<open>again:\<close> of \<open>lo_server_recv\<close>. Each call of \<open>poll\<close> gives what it stored in \<open>revents\<close> and
  the clock at the next look at the queue (\<open>None\<close>: the list of results is too short). The
  timeouts given to \<open>poll\<close>, in milliseconds, are collected.
\<close>

record wake =
  wk_revents :: "nat \<Rightarrow> revents"
  wk_now :: lo_timetag

fun recv_wait :: "alloc \<Rightarrow> lo_server \<Rightarrow> rat \<Rightarrow> wake list \<Rightarrow> (waited \<times> lo_server \<times> int list) option" where
  "recv_wait al s sched_time [] = do {
     (d, s1) \<leftarrow> before_poll al s sched_time;
     (case d of Ref w \<Rightarrow> Some (w, s1, []) | NULL \<Rightarrow> None)
   }"
| "recv_wait al s sched_time (wake # wakes) = do {
     (d, s1) \<leftarrow> before_poll al s sched_time;
     (case d of
        Ref w \<Rightarrow> Some (w, s1, [])
      | NULL \<Rightarrow>
          let t = \<lfloor>(if sched_time > 10 then 10 else sched_time) * 1000\<rfloor> in
          (case first_event (wk_revents wake) 0 (sockets_len s1) of
             Rev_err \<Rightarrow> Some (W_error, s1, [t])
           | Rev_ready \<Rightarrow> Some (W_ready, s1, [t])
           | Rev_none \<Rightarrow>
               map_option (\<lambda>(w, s2, ts). (w, s2, t # ts))
                 (recv_wait al s1 (ls_delay (wk_now wake) s1) wakes)))
   }"

text \<open>From \<open>got_data:\<close> on.\<close>

definition got_data :: "env \<Rightarrow> lo_server \<Rightarrow> byte list \<Rightarrow> int \<Rightarrow> (int \<times> lo_server) option" where
  "got_data env s data sock = do {
     (r, core) \<leftarrow> dispatch_data env (ls_core s) data (int (length data)) sock;
     Some (if r < 0 then - 1 else int (length data), s\<lparr>ls_core := core\<rparr>)
   }"

definition due_events :: "env \<Rightarrow> lo_server \<Rightarrow> (int \<times> lo_server) option" where
  "due_events env s = map_option (\<lambda>(r, core). (r, s\<lparr>ls_core := core\<rparr>)) (dispatch_queued env (ls_core s) False)"

text \<open>
  What the system gives to one call: the clock at its start, its polls, then a datagram, or the
  rounds of polling in \<open>lo_server_recv_raw_stream\<close>.
\<close>

record input =
  in_now :: lo_timetag
  in_wakes :: "wake list"
  in_dgram :: "byte list option"
  in_rounds :: "lo_address poll_round list"

definition lo_server_recv ::
  "env \<Rightarrow> (nat \<Rightarrow> bool) \<Rightarrow> input \<Rightarrow> lo_server \<Rightarrow> (int \<times> lo_server) option" where
  "lo_server_recv env can_alloc inp s = do {
     (w, s1, _) \<leftarrow> recv_wait (e_al env) s (ls_delay (in_now inp) s) (in_wakes inp);
     (case w of
        W_due \<Rightarrow> due_events env s1
      | W_error \<Rightarrow> Some (0, s1)
      | W_data data fd \<Rightarrow> got_data env s1 data fd
      | W_ready \<Rightarrow>
          if ls_protocol s1 = LO_TCP then do {
            (data, sock, socks) \<leftarrow> lo_server_recv_raw_stream (e_al env) can_alloc (in_rounds inp) (ls_socks s1);
            (case data of
               NULL \<Rightarrow> Some (0, s1\<lparr>ls_socks := socks\<rparr>)
             | Ref d \<Rightarrow> got_data env (s1\<lparr>ls_socks := socks\<rparr>) d sock)
          }
          else do {
            data \<leftarrow> lo_server_recv_raw (e_al env) (in_dgram inp);
            (case data of NULL \<Rightarrow> Some (0, s1) | Ref d \<Rightarrow> got_data env s1 d (- 1))
          })
   }"

section \<open>Waiting\<close>

text \<open>Does some buffer, from socket \<open>i\<close> on, hold a whole message?\<close>

fun any_buffered :: "lo_address sockets \<Rightarrow> nat \<Rightarrow> nat \<Rightarrow> bool option" where
  "any_buffered st i 0 = Some False"
| "any_buffered st i (Suc n) =
     (if length (so_contexts st) \<le> i then None
      else (case lo_server_buffer_contains_msg (so_contexts st ! i) of
              None \<Rightarrow> None
            | Some len \<Rightarrow> if len \<noteq> 0 then Some True else any_buffered st (Suc i) n))"

text \<open>The conversion of a \<open>double\<close> to \<open>int\<close>.\<close>

definition c_trunc :: "rat \<Rightarrow> int" where
  "c_trunc r = (if r < 0 then - \<lfloor>- r\<rfloor> else \<lfloor>r\<rfloor>)"

text \<open>One call of \<open>poll\<close> in \<open>lo_server_wait\<close>, with the clock readings around it.\<close>

record arrival =
  ar_then :: lo_timetag
  ar_revents :: "nat \<Rightarrow> revents"
  ar_accept :: "int \<times> lo_address"
  ar_now :: lo_timetag
  ar_delay_now :: lo_timetag

definition wait_result :: "lo_server \<Rightarrow> arrival \<Rightarrow> int" where
  "wait_result s a =
     (case first_event (ar_revents a) 1 (sockets_len s - 1) of
        Rev_err \<Rightarrow> 0
      | Rev_ready \<Rightarrow> 1
      | Rev_none \<Rightarrow> if ls_delay (ar_delay_now a) s < 1 / 100 then 1 else 0)"

text \<open>A new connection is accepted and the wait goes on for the time that is left.\<close>

fun wait_loop ::
  "(nat \<Rightarrow> bool) \<Rightarrow> lo_server \<Rightarrow> int \<Rightarrow> int \<Rightarrow> arrival list \<Rightarrow> (int \<times> lo_server \<times> int list) option" where
  "wait_loop can_alloc s timeout sched_timeout [] =
     (case any_buffered (ls_socks s) 0 (sockets_len s) of Some True \<Rightarrow> Some (1, s, []) | _ \<Rightarrow> None)"
| "wait_loop can_alloc s timeout sched_timeout (a # as) =
     (case any_buffered (ls_socks s) 0 (sockets_len s) of
        None \<Rightarrow> None
      | Some True \<Rightarrow> Some (1, s, [])
      | Some False \<Rightarrow>
          let t = (if timeout > sched_timeout then sched_timeout else timeout) in
          (case ar_revents a 0 of
             Rev_err \<Rightarrow> Some (0, s, [t])
           | Rev_none \<Rightarrow> Some (wait_result s a, s, [t])
           | Rev_ready \<Rightarrow>
               if ls_protocol s \<noteq> LO_TCP then Some (1, s, [t])
               else (case lo_server_add_socket can_alloc (ls_socks s) (fst (ar_accept a)) (snd (ar_accept a)) of
                       None \<Rightarrow> None
                     | Some (i, socks) \<Rightarrow>
                         if i < 0 \<or> length (so_contexts socks) \<le> nat i then None
                         else
                           let s1 = s\<lparr>ls_socks := set_context (nat i) (init_context (so_contexts socks ! nat i)) socks\<rparr>;
                               diff = lo_timetag_diff (ar_now a) (ar_then a);
                               timeout' = timeout - c_trunc (diff * 1000)
                           in map_option (\<lambda>(r, s2, ts). (r, s2, t # ts))
                                (wait_loop can_alloc s1 (if timeout' < 0 then 0 else timeout')
                                   (c_trunc (ls_delay (ar_delay_now a) s1 * 1000)) as))))"

definition lo_server_wait ::
  "(nat \<Rightarrow> bool) \<Rightarrow> lo_timetag \<Rightarrow> arrival list \<Rightarrow> lo_server \<Rightarrow> int \<Rightarrow> (int \<times> lo_server \<times> int list) option" where
  "lo_server_wait can_alloc now as s timeout =
     wait_loop can_alloc s timeout (c_trunc (ls_delay now s * 1000)) as"

definition lo_server_recv_noblock ::
  "env \<Rightarrow> (nat \<Rightarrow> bool) \<Rightarrow> lo_timetag \<Rightarrow> arrival list \<Rightarrow> input \<Rightarrow> lo_server \<Rightarrow> int \<Rightarrow> (int \<times> lo_server) option" where
  "lo_server_recv_noblock env can_alloc now as inp s timeout = do {
     (result, s1, _) \<leftarrow> lo_server_wait can_alloc now as s timeout;
     (if result > 0 then lo_server_recv env can_alloc inp s1 else Some (0, s1))
   }"

section \<open>Waiting for packets and events\<close>

lemma first_event_none: "first_event ev i n = Rev_none \<longleftrightarrow> (\<forall>j. i \<le> j \<and> j < i + n \<longrightarrow> ev j = Rev_none)"
proof (induction n arbitrary: i)
  case (Suc n)
  have "(\<forall>j. i \<le> j \<and> j < i + Suc n \<longrightarrow> ev j = Rev_none) \<longleftrightarrow>
      ev i = Rev_none \<and> (\<forall>j. Suc i \<le> j \<and> j < Suc i + n \<longrightarrow> ev j = Rev_none)"
    by (auto simp: less_Suc_eq_le) (metis le_antisym not_less_eq_eq)
  then show ?case using Suc.IH [of "Suc i"] by (simp split: revents.splits)
qed auto

text \<open>Every timeout is between 10 and 10000 ms, and the first is not beyond the next event.\<close>

lemma recv_wait_timeouts:
  "recv_wait al s sched_time wakes = Some (w, s', ts) \<Longrightarrow>
   (\<forall>t \<in> set ts. 10 \<le> t \<and> t \<le> 10000) \<and> (ts \<noteq> [] \<longrightarrow> of_int (hd ts) \<le> sched_time * 1000) \<and> length ts \<le> length wakes"
proof (induction wakes arbitrary: s sched_time w s' ts)
  case Nil
  then show ?case by (auto split: bind_splits ptr.splits)
next
  case (Cons k wakes)
  obtain d s1 where b: "before_poll al s sched_time = Some (d, s1)"
    using Cons.prems by (auto split: bind_splits)
  show ?case
  proof (cases d)
    case (Ref x)
    then show ?thesis using Cons.prems b by simp
  next
    case NULL
    define t where "t = \<lfloor>(if sched_time > 10 then 10 else sched_time) * 1000\<rfloor>"
    have due: "sched_time > 1 / 100" using b NULL by (auto simp: before_poll_def split: if_splits)
    have t: "10 \<le> t" "t \<le> 10000" "of_int t \<le> sched_time * 1000"
    proof -
      show "10 \<le> t" using due unfolding t_def le_floor_iff by (simp add: field_simps)
      show "t \<le> 10000" unfolding t_def by (simp add: floor_le_iff)
      have "of_int t \<le> (if sched_time > 10 then 10 else sched_time) * 1000" unfolding t_def by (rule of_int_floor_le)
      also have "\<dots> \<le> sched_time * 1000" by (simp add: less_imp_le)
      finally show "of_int t \<le> sched_time * 1000" .
    qed
    show ?thesis
    proof (cases "first_event (wk_revents k) 0 (sockets_len s1)")
      case Rev_none
      then obtain ts' where r: "recv_wait al s1 (ls_delay (wk_now k) s1) wakes = Some (w, s', ts')" "ts = t # ts'"
        using Cons.prems b NULL by (auto simp: t_def [symmetric])
      then show ?thesis using Cons.IH [OF r(1)] t by simp
    qed (use Cons.prems b NULL t in \<open>auto simp: t_def [symmetric]\<close>)
  qed
qed

text \<open>A server that gets datagrams looks only at the queue and at \<open>poll\<close>.\<close>

lemma recv_wait_due:
  assumes "ls_protocol s \<noteq> LO_TCP" "\<forall>k \<in> set (ws1 @ [k]). \<forall>i. wk_revents k i = Rev_none"
    and "sv_queued (ls_core s) = e # q" "q_ts e \<le> wk_now k"
  shows "\<exists>ts. recv_wait al s sched_time (ws1 @ k # ws2) = Some (W_due, s, ts)"
  using assms(2)
proof (induction ws1 arbitrary: sched_time)
  case Nil
  have "ls_delay (wk_now k) s = 0"
    using assms(3,4) lo_timetag_diff_pos [of "q_ts e" "wk_now k"]
    by (auto simp: lo_server_next_event_delay_def Let_def)
  then have "recv_wait al s (ls_delay (wk_now k) s) ws2 = Some (W_due, s, [])"
    by (cases ws2) (simp_all add: before_poll_def)
  moreover have "first_event (wk_revents k) 0 n = Rev_none" for n using Nil by (simp add: first_event_none)
  ultimately show ?case using assms(1) by (auto simp: before_poll_def)
next
  case (Cons k' ws1)
  have "first_event (wk_revents k') 0 n = Rev_none" for n using Cons.prems by (simp add: first_event_none)
  moreover obtain ts where "recv_wait al s (ls_delay (wk_now k') s) (ws1 @ k # ws2) = Some (W_due, s, ts)"
    using Cons.IH [of "ls_delay (wk_now k') s"] Cons.prems by auto
  ultimately show ?case using assms(1) by (auto simp: before_poll_def)
qed

section \<open>Messages in the buffers of connections\<close>

text \<open>No buffer below the \<open>n\<close>-th from \<open>i\<close> on holds a whole message.\<close>

lemma scan_buffers_skip:
  assumes "\<forall>j. i \<le> j \<and> j < i + n \<longrightarrow> context_ok (so_contexts st ! j) \<and> \<not> whole_message (content (so_contexts st ! j))"
    and "i + n \<le> length (so_fds st)" "length (so_fds st) \<le> length (so_contexts st)"
  shows "scan_buffers al st i (n + k) = scan_buffers al st (i + n) k"
  using assms
proof (induction n arbitrary: i)
  case (Suc n)
  have i: "context_ok (so_contexts st ! i)" "\<not> whole_message (content (so_contexts st ! i))"
    using Suc.prems(1) by simp_all
  have "set_context i (so_contexts st ! i) st = st" by (simp add: set_context_def)
  moreover have "scan_buffers al st (Suc i) (n + k) = scan_buffers al st (Suc i + n) k"
    using Suc.prems by (intro Suc.IH) auto
  ultimately show ?case using Suc.prems(2,3) copy_none [OF i, of al] by simp
qed simp

lemma scan_buffers_none:
  assumes "\<forall>j < length (so_fds st). context_ok (so_contexts st ! j) \<and> \<not> whole_message (content (so_contexts st ! j))"
    and "length (so_fds st) \<le> length (so_contexts st)"
  shows "scan_buffers al st 0 (length (so_fds st)) = Some (NULL, st)"
  using scan_buffers_skip [of 0 "length (so_fds st)" st al 0] assms by simp

lemma scan_buffers_found:
  assumes "\<forall>j < i. context_ok (so_contexts st ! j) \<and> \<not> whole_message (content (so_contexts st ! j))"
    and "i < length (so_fds st)" "length (so_fds st) \<le> length (so_contexts st)" "alloc_total al"
    and "context_ok (so_contexts st ! i)" "content (so_contexts st ! i) = frame m @ rest" "m \<noteq> []"
  shows "\<exists>sc. scan_buffers al st 0 (length (so_fds st)) = Some (Ref (m, so_fds st ! i), set_context i sc st) \<and>
    context_ok sc \<and> content sc = rest"
proof -
  obtain sc where sc: "lo_server_buffer_copy_for_dispatch al (so_contexts st ! i) = Some (Ref m, sc)" "context_ok sc" "content sc = rest"
    using copy_whole [OF assms(5-7,4)] by blast
  obtain k where k: "length (so_fds st) = i + Suc k" using assms(2) by (metis add_Suc_right less_imp_Suc_add)
  have "scan_buffers al st 0 (i + Suc k) = scan_buffers al st (0 + i) (Suc k)"
    using assms(1-3) by (intro scan_buffers_skip) auto
  moreover have "scan_buffers al st i (Suc k) = Some (Ref (m, so_fds st ! i), set_context i sc st)"
    using sc assms(2,3) by simp
  ultimately show ?thesis using sc(2,3) by (intro exI [of _ sc]) (simp add: k del: scan_buffers.simps)
qed

text \<open>A round of \<open>poll\<close> in which one connection is ready.\<close>

lemma poll_loop_quiet:
  "n \<le> length (so_fds st) \<Longrightarrow> length (so_fds st) \<le> length (so_contexts st) \<Longrightarrow> \<forall>j < n. pr_revents r j = Rev_none \<Longrightarrow>
   poll_loop al can_alloc r n st data sock = Some (Returned data sock st)"
  by (induction n) simp_all

lemma poll_loop_one:
  assumes "n \<le> length (so_fds st)" "length (so_fds st) \<le> length (so_contexts st)" "i < n" "0 < i"
    and "\<forall>j. j \<noteq> i \<longrightarrow> pr_revents r j = Rev_none" "pr_revents r i = Rev_ready"
    and "so_fds st ! i \<noteq> - 1" "so_fds st ! i \<noteq> so_fds st ! 0"
    and "lo_server_recv_raw_stream_socket al (pr_rx r (so_fds st ! i)) (so_contexts st ! i) = Some rv" "\<not> rv_closed rv"
  shows "poll_loop al can_alloc r n st NULL (- 1) =
    Some (Returned (rv_data rv) (so_fds st ! i) (set_context i (rv_sc rv) st))"
  using assms(1,3)
proof (induction n)
  case (Suc n)
  show ?case
  proof (cases "i = n")
    case True
    have "poll_loop al can_alloc r i (set_context i (rv_sc rv) st) (rv_data rv) (so_fds st ! i) =
        Some (Returned (rv_data rv) (so_fds st ! i) (set_context i (rv_sc rv) st))"
      using Suc.prems assms(2,5) True by (intro poll_loop_quiet) (simp_all add: set_context_def)
    then show ?thesis using Suc.prems assms(2,6-10) True by (simp add: Let_def)
  next
    case False
    then show ?thesis using Suc assms(2,5) by simp
  qed
qed simp

lemma got_data_packet:
  assumes "packet_ok p" "methods_ok (ls_core s)" "alloc_total (e_al env)"
  shows "got_data env s (wire_packet p) sock =
    map_option (\<lambda>core. (int (length (wire_packet p)), s\<lparr>ls_core := core\<rparr>)) (deliver env sock p (ls_core s))"
  using deliver_refined(1) [OF assms(3,1,2), of "[]" sock]
  by (cases "deliver env sock p (ls_core s)") (simp_all add: got_data_def del: deliver.simps)

lemma packet_size: "packet_ok p \<Longrightarrow> wire_packet p \<noteq> []"
  by (cases p) (auto simp: wire_message_def padstr_def wire_bundle simp del: wire_packet.simps(2))

section \<open>Properties\<close>

text \<open>
  C22: A datagram server that is woken for a datagram with a well-formed packet, and has no event due,
  reads it, reacts to it as \<open>deliver\<close> does, and returns its size.
\<close>

theorem recv_datagram:
  assumes "ls_protocol s \<noteq> LO_TCP" "1 / 100 < ls_delay (in_now inp) s"
    and "in_wakes inp = w # ws" "first_event (wk_revents w) 0 (sockets_len s) = Rev_ready"
    and "in_dgram inp = Some (wire_packet p)" "length (wire_packet p) \<le> LO_MAX_MSG_SIZE"
    and "packet_ok p" "methods_ok (ls_core s)" "alloc_total (e_al env)"
  shows "lo_server_recv env can_alloc inp s =
    map_option (\<lambda>core. (int (length (wire_packet p)), s\<lparr>ls_core := core\<rparr>)) (deliver env (- 1) p (ls_core s))"
proof -
  have "lo_server_recv_raw (e_al env) (in_dgram inp) = Some (Ref (wire_packet p))"
    using assms(5,6,9) packet_size [OF assms(7)] by (simp add: lo_server_recv_raw_def alloc_total_def Let_def)
  moreover have "\<exists>ts. recv_wait (e_al env) s (ls_delay (in_now inp) s) (in_wakes inp) = Some (W_ready, s, ts)"
    using assms(1-4) by (simp add: before_poll_def)
  ultimately show ?thesis
    using assms(1) got_data_packet [OF assms(7-9), of "- 1"] by (auto simp: lo_server_recv_def)
qed

text \<open>
  C21: Queued events are not forgotten: as long as no datagram comes, \<open>lo_server_recv\<close> keeps waiting,
  and as soon as the clock has reached the time of the first event, it dispatches the queue. Before
  that it never asks \<open>poll\<close> to wait beyond ten seconds, nor less than ten milliseconds, and in its
  first call not beyond the first event.
\<close>

theorem recv_dispatches_due_events:
  assumes "ls_protocol s \<noteq> LO_TCP" "sv_queued (ls_core s) = e # q"
    and "in_wakes inp = ws1 @ w # ws2" "\<forall>k \<in> set (ws1 @ [w]). \<forall>i. wk_revents k i = Rev_none" "q_ts e \<le> wk_now w"
  shows "lo_server_recv env can_alloc inp s =
      map_option (\<lambda>(r, core). (r, s\<lparr>ls_core := core\<rparr>)) (dispatch_queued env (ls_core s) False) \<and>
    (\<forall>x s' ts. recv_wait (e_al env) s (ls_delay (in_now inp) s) (in_wakes inp) = Some (x, s', ts) \<longrightarrow>
      (\<forall>t \<in> set ts. 10 \<le> t \<and> t \<le> 10000) \<and> (ts \<noteq> [] \<longrightarrow> of_int (hd ts) \<le> ls_delay (in_now inp) s * 1000))"
proof -
  obtain ts where "recv_wait (e_al env) s (ls_delay (in_now inp) s) (in_wakes inp) = Some (W_due, s, ts)"
    using recv_wait_due [OF assms(1,4,2,5)] assms(3) by metis
  moreover have "\<forall>x s' ts. recv_wait (e_al env) s (ls_delay (in_now inp) s) (in_wakes inp) = Some (x, s', ts) \<longrightarrow>
      (\<forall>t \<in> set ts. 10 \<le> t \<and> t \<le> 10000) \<and> (ts \<noteq> [] \<longrightarrow> of_int (hd ts) \<le> ls_delay (in_now inp) s * 1000)"
    using recv_wait_timeouts by blast
  ultimately show ?thesis by (simp add: lo_server_recv_def due_events_def)
qed

text \<open>
  A TCP server takes a packet that waits in the buffer of a connection without polling: that of
  the first connection that has one. The buffer keeps what came behind the packet, and the server
  reacts as \<open>deliver\<close> does, with that connection as the source.
\<close>

theorem recv_takes_buffered_packet:
  assumes "ls_protocol s = LO_TCP" "1 / 100 < ls_delay (in_now inp) s"
    and "i < sockets_len s" "sockets_len s \<le> length (so_contexts (ls_socks s))"
    and "\<forall>j < i. context_ok (so_contexts (ls_socks s) ! j) \<and> \<not> whole_message (content (so_contexts (ls_socks s) ! j))"
    and "context_ok (so_contexts (ls_socks s) ! i)" "content (so_contexts (ls_socks s) ! i) = frame (wire_packet p) @ rest"
    and "packet_ok p" "methods_ok (ls_core s)" "alloc_total (e_al env)"
  shows "\<exists>sc. context_ok sc \<and> content sc = rest \<and>
    lo_server_recv env can_alloc inp s =
      map_option (\<lambda>core. (int (length (wire_packet p)), s\<lparr>ls_socks := set_context i sc (ls_socks s), ls_core := core\<rparr>))
        (deliver env (so_fds (ls_socks s) ! i) p (ls_core s))"
proof -
  obtain sc where sc: "scan_buffers (e_al env) (ls_socks s) 0 (length (so_fds (ls_socks s))) =
      Some (Ref (wire_packet p, so_fds (ls_socks s) ! i), set_context i sc (ls_socks s))" "context_ok sc" "content sc = rest"
    using scan_buffers_found [OF assms(5) assms(3,4) [unfolded sockets_len_def] assms(10,6,7) packet_size [OF assms(8)]] by blast
  define s1 where "s1 = s\<lparr>ls_socks := set_context i sc (ls_socks s)\<rparr>"
  have "before_poll (e_al env) s (ls_delay (in_now inp) s) = Some (Ref (W_data (wire_packet p) (so_fds (ls_socks s) ! i)), s1)"
    using assms(1,2) sc(1) by (simp add: before_poll_def sockets_len_def s1_def)
  then have "recv_wait (e_al env) s (ls_delay (in_now inp) s) (in_wakes inp) =
      Some (W_data (wire_packet p) (so_fds (ls_socks s) ! i), s1, [])"
    by (cases "in_wakes inp") simp_all
  then show ?thesis
    using sc(2,3) got_data_packet [OF assms(8), of s1 env "so_fds (ls_socks s) ! i"] assms(9,10)
    by (intro exI [of _ sc]) (simp add: lo_server_recv_def s1_def)
qed

text \<open>
  C9: One call of \<open>lo_server_recv\<close> from \<open>poll\<close> to the handlers: when a connection becomes ready and what
  \<open>recv\<close> gives completes a packet, together with what its buffer already held, the server reacts to that
  packet as \<open>deliver\<close> does and keeps the rest in the buffer of that connection.
\<close>

theorem recv_completes_packet:
  assumes "ls_protocol s = LO_TCP" "1 / 100 < ls_delay (in_now inp) s"
    and "in_wakes inp = w # ws" "first_event (wk_revents w) 0 (sockets_len s) = Rev_ready"
    and "sockets_ok (ls_socks s)" "0 < i" "i < sockets_len s"
    and "\<forall>j < sockets_len s. context_ok (so_contexts (ls_socks s) ! j) \<and> \<not> whole_message (content (so_contexts (ls_socks s) ! j))"
    and "in_rounds inp = [r]" "\<forall>j. j \<noteq> i \<longrightarrow> pr_revents r j = Rev_none" "pr_revents r i = Rev_ready"
    and "pr_rx r (so_fds (ls_socks s) ! i) = [Rx_data bytes, Rx_again]"
    and "counted (so_contexts (ls_socks s) ! i)" "length bytes \<le> free_space (e_al env) (so_contexts (ls_socks s) ! i)"
    and "sc_read_offset (so_contexts (ls_socks s) ! i) \<le> LO_MAX_MSG_SIZE div 2"
    and "content (so_contexts (ls_socks s) ! i) @ bytes = frame (wire_packet p) @ rest" "sendable (wire_packet p)"
    and "packet_ok p" "methods_ok (ls_core s)" "alloc_total (e_al env)"
  shows "\<exists>sc. context_ok sc \<and> content sc = rest \<and>
    lo_server_recv env can_alloc inp s =
      map_option (\<lambda>core. (int (length (wire_packet p)), s\<lparr>ls_socks := set_context i sc (ls_socks s), ls_core := core\<rparr>))
        (deliver env (so_fds (ls_socks s) ! i) p (ls_core s))"
proof -
  let ?st = "ls_socks s" and ?sc = "so_contexts (ls_socks s) ! i" and ?fd = "so_fds (ls_socks s) ! i"
  have len: "length (so_fds ?st) \<le> length (so_contexts ?st)" using assms(5) by (simp add: sockets_ok_def)
  have i: "i < length (so_fds ?st)" using assms(7) by (simp add: sockets_len_def)
  have scan: "scan_buffers (e_al env) ?st 0 (length (so_fds ?st)) = Some (NULL, ?st)"
    using assms(8) len by (intro scan_buffers_none) (simp_all add: sockets_len_def)
  have fd: "?fd \<noteq> - 1" "?fd \<noteq> so_fds ?st ! 0"
  proof -
    have "0 \<le> ?fd" using assms(5) nth_mem [OF i] by (auto simp: sockets_ok_def)
    then show "?fd \<noteq> - 1" by simp
    have "distinct (so_fds ?st)" using assms(5) by (simp add: sockets_ok_def)
    then show "?fd \<noteq> so_fds ?st ! 0" using nth_eq_iff_index_eq [of "so_fds ?st" i 0] i assms(6) by (cases "so_fds ?st") auto
  qed
  have p: "wire_packet p \<noteq> []" "length (wire_packet p) < 2 ^ 32"
    using assms(17) by (simp_all add: sendable_def LO_MAX_MSG_SIZE_def)
  have first: "hd (content ?sc @ bytes) = NUL"
    using first_byte [of "frame (wire_packet p)" "[]" "[wire_packet p]"] assms(16,17) by (simp add: frame_def be32_def)
  have whole: "whole_message (content ?sc @ bytes)" using frame_whole [OF p] assms(16) by simp
  obtain rv where rv: "lo_server_recv_raw_stream_socket (e_al env) [Rx_data bytes, Rx_again] ?sc = Some rv" "\<not> rv_closed rv"
      "context_ok (rv_sc rv)" "\<exists>m. rv_data rv = Ref m \<and> m \<noteq> [] \<and> length m < 2 ^ 32 \<and> content ?sc @ bytes = frame m @ content (rv_sc rv)"
    using receive_up_to_space [of ?sc "e_al env" bytes] assms(7,8,13-15,20) whole first by auto
  then obtain m where "rv_data rv = Ref m" "length m < 2 ^ 32" "frame (wire_packet p) @ rest = frame m @ content (rv_sc rv)"
    using assms(16) by auto
  then have m: "rv_data rv = Ref (wire_packet p)" "content (rv_sc rv) = rest"
    using frame_prefix [of "wire_packet p" rest m] p(2) by auto
  have poll: "poll_loop (e_al env) can_alloc r (length (so_fds ?st)) ?st NULL (- 1) =
      Some (Returned (rv_data rv) ?fd (set_context i (rv_sc rv) ?st))"
    using rv(1,2) by (intro poll_loop_one [OF order_refl len i assms(6,10,11) fd]) (simp_all add: assms(12))
  define s1 where "s1 = s\<lparr>ls_socks := set_context i (rv_sc rv) ?st\<rparr>"
  have "lo_server_recv_raw_stream (e_al env) can_alloc (in_rounds inp) ?st =
      Some (Ref (wire_packet p), ?fd, set_context i (rv_sc rv) ?st)"
    using scan poll m(1) by (simp add: assms(9) del: scan_buffers.simps poll_loop.simps)
  moreover have "\<exists>ts. recv_wait (e_al env) s (ls_delay (in_now inp) s) (in_wakes inp) = Some (W_ready, s, ts)"
    using assms(1-4) scan by (simp add: before_poll_def sockets_len_def)
  ultimately show ?thesis
    using rv(3) m(2) got_data_packet [OF assms(18), of s1 env ?fd] assms(1,19,20)
    by (intro exI [of _ "rv_sc rv"]) (auto simp: lo_server_recv_def s1_def)
qed

section \<open>Witnesses\<close>

text \<open>A server with one connection.\<close>

definition sample_ls :: "proto \<Rightarrow> lo_server" where
  "sample_ls p = \<lparr>ls_core = sample_server\<lparr>sv_protocol := p\<rparr>,
     ls_socks = \<lparr>so_fds = [3, 5], so_alloc = 2, so_contexts = [zero_context, zero_context], so_sources = replicate 8 NULL\<rparr>,
     ls_port = 7770, ls_hostname = NULL, ls_path = NULL, ls_iface = \<lparr>in_addr = [], in_iface = NULL\<rparr>\<rparr>"

text \<open>The socket \<open>i\<close> is ready.\<close>

definition sample_input :: "nat \<Rightarrow> byte list \<Rightarrow> input" where
  "sample_input i bytes = \<lparr>in_now = Timetag 100 0,
     in_wakes = [\<lparr>wk_revents = (\<lambda>j. if j = i then Rev_ready else Rev_none), wk_now = Timetag 100 0\<rparr>],
     in_dgram = Some bytes,
     in_rounds = [\<lparr>pr_revents = (\<lambda>j. if j = i then Rev_ready else Rev_none), pr_accept = (7, zero_address),
       pr_rx = (\<lambda>_. [Rx_data bytes, Rx_again])\<rparr>]\<rparr>"

abbreviation sample_p :: packet where
  "sample_p \<equiv> PMessage ''/a'' [OInt32 7]"

lemma sample_ls_core [simp]:
  "ls_protocol (sample_ls p) = p" "methods_ok (ls_core (sample_ls p))" "sockets_len (sample_ls p) = 2"
  "sockets_ok (ls_socks (sample_ls p))" "ls_delay now (sample_ls p) = 100"
  using sample_setup(3)
  by (simp_all add: sample_ls_def methods_ok_def sockets_len_def sockets_ok_def lo_server_next_event_delay_def sample_server_def)

lemma sample_length: "length (wire_packet sample_p) = 12"
  by (simp add: sample_wire_len)

theorem recv_datagram_witness:
  "lo_server_recv sample_env (\<lambda>_. True) (sample_input 0 (wire_packet sample_p)) (sample_ls LO_UDP) =
     map_option (\<lambda>core. (12, sample_ls LO_UDP\<lparr>ls_core := core\<rparr>)) (deliver sample_env (- 1) sample_p (ls_core (sample_ls LO_UDP)))"
  using recv_datagram [of "sample_ls LO_UDP" "sample_input 0 (wire_packet sample_p)" _ _ sample_p sample_env "\<lambda>_. True"]
    sample_packet_ok sample_setup(2)
  by (simp add: sample_input_def sample_wire_len LO_MAX_MSG_SIZE_def numeral_2_eq_2 del: deliver.simps)

text \<open>An event for the time 101, which the clock reaches while the server waits.\<close>

theorem recv_dispatches_due_events_witness:
  "lo_server_recv sample_env (\<lambda>_. True)
     \<lparr>in_now = Timetag 100 0, in_wakes = [\<lparr>wk_revents = (\<lambda>_. Rev_none), wk_now = Timetag 101 0\<rparr>], in_dgram = None, in_rounds = []\<rparr>
     (sample_ls LO_UDP\<lparr>ls_core := sample_server\<lparr>sv_queued := [entry sample_env (- 1) (Timetag 101 0) ''/a'' [OInt32 7]]\<rparr>\<rparr>) =
   map_option (\<lambda>(r, core). (r, sample_ls LO_UDP\<lparr>ls_core := core\<rparr>))
     (dispatch_queued sample_env (sample_server\<lparr>sv_queued := [entry sample_env (- 1) (Timetag 101 0) ''/a'' [OInt32 7]]\<rparr>) False)"
  using recv_dispatches_due_events
    [of "sample_ls LO_UDP\<lparr>ls_core := sample_server\<lparr>sv_queued := [entry sample_env (- 1) (Timetag 101 0) ''/a'' [OInt32 7]]\<rparr>\<rparr>"
        "entry sample_env (- 1) (Timetag 101 0) ''/a'' [OInt32 7]" "[]"
        "\<lparr>in_now = Timetag 100 0, in_wakes = [\<lparr>wk_revents = (\<lambda>_. Rev_none), wk_now = Timetag 101 0\<rparr>], in_dgram = None, in_rounds = []\<rparr>"
        "[]" "\<lparr>wk_revents = (\<lambda>_. Rev_none), wk_now = Timetag 101 0\<rparr>" "[]" sample_env "\<lambda>_. True"]
  by (simp add: sample_server_def entry_def less_eq_lo_timetag_def)

text \<open>A buffer that holds a packet and the start of another.\<close>

definition sample_buffered :: socket_context where
  "sample_buffered = \<lparr>sc_buffer = Ref (frame (wire_packet sample_p) @ replicate 48 NUL), sc_size = 64, sc_msg_offset = 0,
     sc_read_offset = 18, sc_is_slip = 0, sc_slip_state = 0\<rparr>"

theorem recv_takes_buffered_packet_witness:
  "\<exists>sc. content sc = [NUL, NUL] \<and>
    lo_server_recv sample_env (\<lambda>_. True) (sample_input 0 []) (sample_ls LO_TCP\<lparr>ls_socks := set_context 1 sample_buffered (ls_socks (sample_ls LO_TCP))\<rparr>) =
      map_option (\<lambda>core. (12, sample_ls LO_TCP\<lparr>ls_socks := set_context 1 sc (set_context 1 sample_buffered (ls_socks (sample_ls LO_TCP))), ls_core := core\<rparr>))
        (deliver sample_env 5 sample_p (ls_core (sample_ls LO_TCP)))"
proof -
  let ?s = "sample_ls LO_TCP\<lparr>ls_socks := set_context 1 sample_buffered (ls_socks (sample_ls LO_TCP))\<rparr>"
  have z: "context_ok zero_context" "\<not> whole_message (content zero_context)"
    by (simp_all add: context_ok_def zero_context_def content_def whole_message_def)
  have c: "context_ok sample_buffered" "content sample_buffered = frame (wire_packet sample_p) @ [NUL, NUL]"
    by (simp_all add: context_ok_def content_def sample_buffered_def sample_wire_len LO_MAX_MSG_SIZE_def numeral_2_eq_2)
  let ?t = "set_context 1 sample_buffered (ls_socks (sample_ls LO_TCP))"
  have s: "so_contexts ?t ! 0 = zero_context" "so_contexts ?t ! 1 = sample_buffered"
      "so_fds ?t ! 1 = 5" "length (so_contexts ?t) = 2" "sockets_len ?s = 2"
    by (simp_all add: set_context_def sample_ls_def sockets_len_def lo_server_next_event_delay_def sample_server_def)
  have "1 / 100 < ls_delay (in_now (sample_input 0 [])) ?s" by (simp add: s)
  then show ?thesis
    using recv_takes_buffered_packet [of ?s "sample_input 0 []" 1 sample_p "[NUL, NUL]" sample_env "\<lambda>_. True"]
      sample_packet_ok sample_setup(2) z c
    by (auto simp: s sample_wire_len simp del: deliver.simps One_nat_def)
qed

theorem recv_completes_packet_witness:
  "\<exists>sc. content sc = [] \<and>
    lo_server_recv sample_env (\<lambda>_. True) (sample_input 1 (frame (wire_packet sample_p))) (sample_ls LO_TCP) =
      map_option (\<lambda>core. (12, sample_ls LO_TCP\<lparr>ls_socks := set_context 1 sc (ls_socks (sample_ls LO_TCP)), ls_core := core\<rparr>))
        (deliver sample_env 5 sample_p (ls_core (sample_ls LO_TCP)))"
proof -
  let ?s = "sample_ls LO_TCP" and ?i = "sample_input 1 (frame (wire_packet sample_p))"
  have z: "context_ok zero_context" "\<not> whole_message (content zero_context)" "counted zero_context" "content zero_context = []"
      "sc_read_offset zero_context = 0"
    by (simp_all add: context_ok_def zero_context_def content_def whole_message_def counted_def)
  have al: "alloc_total (e_al sample_env)" by (rule sample_setup(2))
  have s: "so_contexts (ls_socks ?s) ! j = zero_context" if "j < 2" for j
    using that by (cases j) (simp_all add: sample_ls_def)
  have fd: "so_fds (ls_socks ?s) ! 1 = 5" by (simp add: sample_ls_def)
  have room: "length (frame (wire_packet sample_p)) \<le> free_space (e_al sample_env) zero_context"
    using free_space_min [OF z(1) _ al] z(5) by (simp add: sample_wire_len)
  have send: "sendable (wire_packet sample_p)"
    using packet_size [OF sample_packet_ok] by (simp add: sendable_def sample_wire_len LO_MAX_MSG_SIZE_def)
  have ev: "first_event (\<lambda>j. if j = 1 then Rev_ready else Rev_none) 0 2 = Rev_ready" by (simp add: numeral_2_eq_2)
  show ?thesis
    using recv_completes_packet [of ?s ?i "\<lparr>wk_revents = (\<lambda>j. if j = 1 then Rev_ready else Rev_none), wk_now = Timetag 100 0\<rparr>" "[]" 1
        "\<lparr>pr_revents = (\<lambda>j. if j = 1 then Rev_ready else Rev_none), pr_accept = (7, zero_address),
          pr_rx = (\<lambda>_. [Rx_data (frame (wire_packet sample_p)), Rx_again])\<rparr>" "frame (wire_packet sample_p)" sample_env sample_p "[]" "\<lambda>_. True"]
      z room send sample_packet_ok al
    by (auto simp: s fd ev sample_input_def sample_length simp del: deliver.simps One_nat_def wire_packet.simps)
qed

end
