(* ===== verification/Printing.thy ===== *)
theory Printing
  imports Bundle Serving
begin

text \<open>
  What the library prints: \<open>lo_arg_pp\<close> and \<open>lo_message_pp\<close> of \<open>src/message.c\<close>, \<open>lo_bundle_pp\<close> of
  \<open>src/bundle.c\<close>, \<open>lo_method_pp\<close> of \<open>src/method.c\<close> and \<open>lo_server_pp\<close> of \<open>src/server.c\<close>. A function
  returns the bytes it writes to \<open>stdout\<close> and the warnings it gives on \<open>stderr\<close>; \<open>None\<close> is undefined
  behaviour, which a NULL for a \<open>%s\<close> is.
\<close>

section \<open>Formats\<close>

text \<open>\<open>%f\<close> and \<open>%p\<close> are the C library's.\<close>

record printf =
  pf_float :: "u32 \<Rightarrow> byte list"
  pf_double :: "u64 \<Rightarrow> byte list"
  pf_ptr :: "nat \<Rightarrow> byte list"

datatype warning = Unhandled_type byte | Off_by nat

type_synonym printed = "byte list \<times> warning list"

text \<open>The last \<open>k\<close> hexadecimal digits; \<open>%08x\<close> and \<open>%#02x\<close>, which drops the prefix of a zero.\<close>

fun hex_digits :: "nat \<Rightarrow> nat \<Rightarrow> byte list" where
  "hex_digits 0 n = []"
| "hex_digits (Suc k) n = hex_digits k (n div 16) @ [''0123456789abcdef'' ! (n mod 16)]"

definition hex32 :: "u32 \<Rightarrow> byte list" where
  "hex32 w = hex_digits 8 (unat w)"

definition blob_byte :: "byte \<Rightarrow> byte list" where
  "blob_byte b =
     (let n = of_char b in
      if n = (0 :: nat) then ''00'' else if n < 16 then ''0x'' @ hex_digits 1 n else ''0x'' @ hex_digits 2 n)"

definition spaced :: "byte list list \<Rightarrow> byte list" where
  "spaced ws = concat (case ws of [] \<Rightarrow> [] | w # ws' \<Rightarrow> w # map (\<lambda>x. CHR '' '' # x) ws')"

section \<open>Arguments and messages\<close>

text \<open>\<open>val32\<close>, \<open>valtt\<close> and \<open>val64\<close>, whichever is read.\<close>

datatype pp_value = Val32 u32 | Valtt u32 u32 | Val64 u64 | No_value

definition pp_read :: "bool \<Rightarrow> byte \<Rightarrow> byte list \<Rightarrow> bool \<Rightarrow> pp_value option" where
  "pp_read be t data bigendian = do {
     sz \<leftarrow> lo_arg_size be t data;
     if sz = 4 \<or> lo_type_of t = Some LO_BLOB then do {
       w \<leftarrow> rd_host32 be data;
       Some (Val32 (if bigendian then lo_otoh32 be w else w))
     }
     else if lo_type_of t = Some LO_TIMETAG then do {
       s \<leftarrow> rd_host32 be data;
       f \<leftarrow> rd_host32 be (drop 4 data);
       Some (Valtt (if bigendian then lo_otoh32 be s else s) (if bigendian then lo_otoh32 be f else f))
     }
     else if sz = 8 then do {
       w \<leftarrow> rd_host64 be data;
       Some (Val64 (if bigendian then lo_otoh64 be w else w))
     }
     else Some No_value
   }"

text \<open>A blob; the number of its bytes is signed.\<close>

definition pp_blob :: "u32 \<Rightarrow> byte list \<Rightarrow> byte list option" where
  "pp_blob v data =
     (let n = sint v in
      if n > 12 then Some (''['' @ dec_int n @ '' byte blob]'')
      else if length data < 4 + nat n then None
      else Some (''['' @ dec_int n @ ''b '' @ spaced (map blob_byte (take (nat n) (drop 4 data))) @ '']''))"

definition lo_arg_pp_internal :: "bool \<Rightarrow> printf \<Rightarrow> byte \<Rightarrow> byte list \<Rightarrow> bool \<Rightarrow> printed option" where
  "lo_arg_pp_internal be pf t data bigendian = do {
     v \<leftarrow> pp_read be t data bigendian;
     (case (lo_type_of t, v) of
        (Some LO_INT32, Val32 w) \<Rightarrow> Some (dec_int (sint w), [])
      | (Some LO_FLOAT, Val32 w) \<Rightarrow> Some (pf_float pf w, [])
      | (Some LO_STRING, _) \<Rightarrow> map_option (\<lambda>s. (CHR 0x22 # s @ [CHR 0x22], [])) (cstr data)
      | (Some LO_BLOB, Val32 w) \<Rightarrow> map_option (\<lambda>s. (s, [])) (pp_blob w data)
      | (Some LO_INT64, Val64 w) \<Rightarrow> Some (dec_int (sint w), [])
      | (Some LO_TIMETAG, Valtt s f) \<Rightarrow> Some (hex32 s @ ''.'' @ hex32 f, [])
      | (Some LO_DOUBLE, Val64 w) \<Rightarrow> Some (pf_double pf w, [])
      | (Some LO_SYMBOL, _) \<Rightarrow> map_option (\<lambda>s. (CHR 0x27 # s, [])) (cstr data)
      | (Some LO_CHAR, Val32 w) \<Rightarrow> Some ([CHR 0x27, hd (host32 be w), CHR 0x27], [])
      | (Some LO_MIDI, _) \<Rightarrow>
          if length data < 4 then None
          else Some (''MIDI ['' @ spaced (map (\<lambda>b. ''0x'' @ hex_digits 2 (of_char b)) (take 4 data)) @ '']'', [])
      | (Some LO_TRUE, _) \<Rightarrow> Some (''#T'', [])
      | (Some LO_FALSE, _) \<Rightarrow> Some (''#F'', [])
      | (Some LO_NIL, _) \<Rightarrow> Some (''Nil'', [])
      | (Some LO_INFINITUM, _) \<Rightarrow> Some (''Infinitum'', [])
      | (None, _) \<Rightarrow> Some ([], [Unhandled_type t])
      | _ \<Rightarrow> None)
   }"

definition lo_arg_pp :: "bool \<Rightarrow> printf \<Rightarrow> byte \<Rightarrow> byte list \<Rightarrow> printed option" where
  "lo_arg_pp be pf t data = lo_arg_pp_internal be pf t data False"

text \<open>The loop of \<open>lo_message_pp\<close>, from the memory at \<open>d\<close> on; it also gives how far \<open>d\<close> came.\<close>

fun pp_args :: "bool \<Rightarrow> printf \<Rightarrow> bool \<Rightarrow> byte list \<Rightarrow> byte list \<Rightarrow> (printed \<times> nat) option" where
  "pp_args be pf first [] d = Some (([], []), 0)"
| "pp_args be pf first (t # ts) d = do {
     (out, warn) \<leftarrow> lo_arg_pp_internal be pf t d False;
     n \<leftarrow> lo_arg_size be t d;
     ((out', warn'), n') \<leftarrow> pp_args be pf False ts (drop n d);
     Some (((if first then [] else '' '') @ out @ out', warn @ warn'), n + n')
   }"

definition lo_message_pp :: "bool \<Rightarrow> printf \<Rightarrow> lo_message \<Rightarrow> printed option" where
  "lo_message_pp be pf m = do {
     types \<leftarrow> cstr (m_types m);
     if types = [] then None
     else do {
       ((out, warn), n) \<leftarrow> pp_args be pf True (tl types) (m_data m);
       Some (types @ '' '' @ out @ [CHR 0x0A],
         warn @ (if n \<noteq> m_datalen m then [Off_by (nat \<bar>int n - int (m_datalen m)\<bar>)] else []))
     }
   }"

section \<open>Methods and servers\<close>

definition lo_method_pp_prefix :: "printf \<Rightarrow> lo_method \<Rightarrow> byte list \<Rightarrow> byte list option" where
  "lo_method_pp_prefix pf m p =
     (case (mt_path m, mt_typespec m) of
        (Ref path, Ref spec) \<Rightarrow>
          Some (p @ ''path:      '' @ path @ [CHR 0x0A] @ p @ ''typespec:  '' @ spec @ [CHR 0x0A] @
                p @ ''handler:   '' @ pf_ptr pf (mt_handler m) @ [CHR 0x0A] @
                p @ ''user-data: '' @ pf_ptr pf (mt_user_data m) @ [CHR 0x0A])
      | _ \<Rightarrow> None)"

definition lo_method_pp :: "printf \<Rightarrow> lo_method \<Rightarrow> byte list option" where
  "lo_method_pp pf m = lo_method_pp_prefix pf m []"

fun pp_methods :: "printf \<Rightarrow> lo_method list \<Rightarrow> byte list option" where
  "pp_methods pf [] = Some []"
| "pp_methods pf (m # ms) = do {
     out \<leftarrow> lo_method_pp_prefix pf m ''   '';
     rest \<leftarrow> pp_methods pf ms;
     Some (CHR 0x0A # out @ rest)
   }"

definition lo_server_pp :: "printf \<Rightarrow> lo_server \<Rightarrow> byte list option" where
  "lo_server_pp pf s = do {
     fd \<leftarrow> (case so_fds (ls_socks s) of [] \<Rightarrow> None | fd # _ \<Rightarrow> Some fd);
     ms \<leftarrow> pp_methods pf (sv_methods (ls_core s));
     Some (''socket: '' @ dec_int fd @ [CHR 0x0A, CHR 0x0A] @ ''Methods'' @ [CHR 0x0A] @ ms)
   }"

section \<open>Bundles\<close>

text \<open>The box-drawing characters, in UTF-8.\<close>

definition box :: "nat \<Rightarrow> byte list" where
  "box n = [CHR 0xE2, CHR 0x94, char_of n]"

definition vertical :: "byte list" where "vertical = box 0x82"
definition horizontal :: "byte list" where "horizontal = box 0x80"

text \<open>\<open>state\<close> says, for each level, whether the current element is the last one there.\<close>

definition offset_pp :: "nat \<Rightarrow> int list \<Rightarrow> byte list option" where
  "offset_pp offset state =
     (if length state \<le> offset then None
      else Some (concat (map (\<lambda>i. if state ! i = 0 then vertical @ replicate 8 (CHR '' '') else replicate 9 (CHR '' '')) [0..<offset]) @
        (if state ! offset = 0 then box 0x9C else box 0x94) @ horizontal))"

text \<open>Fresh memory for \<open>state\<close> may hold anything; so may the entries that \<open>realloc\<close> adds.\<close>

record pp_memory =
  pm_ok :: "nat \<Rightarrow> bool"
  pm_fresh :: "nat \<Rightarrow> int"

definition grow_state :: "pp_memory \<Rightarrow> nat \<Rightarrow> int list \<Rightarrow> nat \<Rightarrow> (int list \<times> nat) option" where
  "grow_state pm offset state len =
     (if offset + 2 > len
      then (if pm_ok pm (len * 2) then Some (state @ map (pm_fresh pm) [len..<len * 2], len * 2) else None)
      else Some (state, len))"

text \<open>The loop over the elements; \<open>pp_bundle\<close> prints a nested bundle one level further in.\<close>

type_synonym bundle_printed = "printed \<times> int list \<times> nat"

fun pp_elements ::
  "(nat \<Rightarrow> int list \<Rightarrow> nat \<Rightarrow> bundle_printed option) \<Rightarrow> (nat \<Rightarrow> printed option) \<Rightarrow> nat \<Rightarrow> lo_element list \<Rightarrow>
   int list \<Rightarrow> nat \<Rightarrow> bundle_printed option" where
  "pp_elements pp_bundle pp_message offset [] state len = Some (([], []), state, len)"
| "pp_elements pp_bundle pp_message offset (e # es) state len =
     (if length state \<le> offset + 1 then None
      else do {
        let state1 = state[offset + 1 := (if es = [] then 1 else 0)];
        ((out, warn), state2, len2) \<leftarrow>
          (case e of
             El_message m path \<Rightarrow> do {
               pre \<leftarrow> offset_pp (offset + 1) state1;
               (text, w) \<leftarrow> pp_message m;
               Some ((pre @ path @ '' '' @ text, w), state1, len)
             }
           | El_bundle c \<Rightarrow> pp_bundle c state1 len);
        ((out', warn'), state3, len3) \<leftarrow> pp_elements pp_bundle pp_message offset es state2 len2;
        Some ((out @ out', warn @ warn'), state3, len3)
      })"

definition pp_message_at :: "bool \<Rightarrow> printf \<Rightarrow> heap \<Rightarrow> nat \<Rightarrow> printed option" where
  "pp_message_at be pf h m = (case message_at h m of None \<Rightarrow> None | Some msg \<Rightarrow> lo_message_pp be pf msg)"

text \<open>The recursion has fuel: one unit for each level of nesting.\<close>

primrec lo_bundle_pp_internal ::
  "nat \<Rightarrow> bool \<Rightarrow> printf \<Rightarrow> pp_memory \<Rightarrow> heap \<Rightarrow> nat \<Rightarrow> nat \<Rightarrow> int list \<Rightarrow> nat \<Rightarrow> bundle_printed option" where
  "lo_bundle_pp_internal 0 be pf pm h a offset state len = None"
| "lo_bundle_pp_internal (Suc fuel) be pf pm h a offset state len = do {
     b \<leftarrow> bundle_at h a;
     es \<leftarrow> elements b;
     (state1, len1) \<leftarrow> grow_state pm offset state len;
     pre \<leftarrow> offset_pp offset state1;
     ((out, warn), state2, len2) \<leftarrow>
       pp_elements (\<lambda>c. lo_bundle_pp_internal fuel be pf pm h c (offset + 1)) (pp_message_at be pf h) offset es state1 len1;
     Some ((pre @ ''bundle'' @ horizontal @ box 0xAC @ horizontal @ ''('' @ hex32 (tt_sec (b_ts b)) @ ''.'' @
            hex32 (tt_frac (b_ts b)) @ '')'' @ [CHR 0x0A] @ out, warn), state2, len2)
   }"

definition lo_bundle_pp :: "nat \<Rightarrow> bool \<Rightarrow> printf \<Rightarrow> pp_memory \<Rightarrow> heap \<Rightarrow> nat ptr \<Rightarrow> printed option" where
  "lo_bundle_pp fuel be pf pm h bp =
     (case bp of
        NULL \<Rightarrow> Some ([], [])
      | Ref a \<Rightarrow>
          if \<not> pm_ok pm 4 then None
          else map_option fst (lo_bundle_pp_internal fuel be pf pm h a 0 [1, 0, 0, 0] 4))"

section \<open>What is printed of a message\<close>

fun show_arg :: "bool \<Rightarrow> printf \<Rightarrow> osc_arg \<Rightarrow> byte list" where
  "show_arg be pf (OInt32 w) = dec_int (sint w)"
| "show_arg be pf (OFloat w) = pf_float pf w"
| "show_arg be pf (OString s) = CHR 0x22 # s @ [CHR 0x22]"
| "show_arg be pf (OBlob d) =
     (if length d > 12 then ''['' @ dec (length d) @ '' byte blob]''
      else ''['' @ dec (length d) @ ''b '' @ spaced (map blob_byte d) @ '']'')"
| "show_arg be pf (OInt64 w) = dec_int (sint w)"
| "show_arg be pf (OTimetag t) = hex32 (tt_sec t) @ ''.'' @ hex32 (tt_frac t)"
| "show_arg be pf (ODouble w) = pf_double pf w"
| "show_arg be pf (OSymbol s) = CHR 0x27 # s"
| "show_arg be pf (OChar w) = [CHR 0x27, hd (host32 be w), CHR 0x27]"
| "show_arg be pf (OMidi a b c d) =
     ''MIDI ['' @ spaced (map (\<lambda>x. ''0x'' @ hex_digits 2 (of_char x)) [a, b, c, d]) @ '']''"
| "show_arg be pf OTrue = ''#T''"
| "show_arg be pf OFalse = ''#F''"
| "show_arg be pf ONil = ''Nil''"
| "show_arg be pf OInfinitum = ''Infinitum''"

definition show_message :: "bool \<Rightarrow> printf \<Rightarrow> osc_arg list \<Rightarrow> byte list" where
  "show_message be pf xs =
     CHR '','' # map arg_tag xs @ '' '' @ spaced (map (show_arg be pf) xs) @ [CHR 0x0A]"

lemma pp_read_string:
  assumes "lo_type_of t = Some LO_STRING \<or> lo_type_of t = Some LO_SYMBOL" "NUL \<notin> set s"
  shows "\<exists>v. pp_read be t (padstr s @ rest) False = Some v"
proof -
  have sz: "lo_arg_size be t (padstr s @ rest) = Some (lo_strsize s)" using assms by (auto simp: lo_arg_size_def)
  have len: "length (padstr s @ rest) = lo_strsize s + length rest" by simp
  have r32: "\<exists>w. rd_host32 be d = Some w" if "4 \<le> length d" for d using that rd_host32_None [of be d] by (cases "rd_host32 be d") auto
  show ?thesis
  proof (cases "lo_strsize s = 4")
    case True
    then obtain w where "rd_host32 be (padstr s @ rest) = Some w" using r32 [of "padstr s @ rest"] len by auto
    then show ?thesis using sz True by (simp add: pp_read_def)
  next
    case False
    show ?thesis
    proof (cases "lo_strsize s = 8")
      case True
      then obtain v w where "rd_host32 be (padstr s @ rest) = Some v" "rd_host32 be (drop 4 (padstr s @ rest)) = Some w"
        using r32 [of "padstr s @ rest"] r32 [of "drop 4 (padstr s @ rest)"] len by auto
      then show ?thesis using sz True assms(1) by (auto simp: pp_read_def rd_host64_def)
    next
      case False
      then show ?thesis using sz \<open>lo_strsize s \<noteq> 4\<close> assms(1) by (auto simp: pp_read_def)
    qed
  qed
qed

lemma pp_host_arg:
  assumes "arg_ok a"
  shows "lo_arg_pp_internal be pf (arg_tag a) (host_arg be a @ rest) False = Some (show_arg be pf a, [])"
proof (cases a)
  case (OString s)
  then obtain v where "pp_read be (arg_tag a) (host_arg be a @ rest) False = Some v"
    using pp_read_string [of "arg_tag a" s be rest] assms by auto
  then show ?thesis using OString assms by (simp add: lo_arg_pp_internal_def)
next
  case (OSymbol s)
  then obtain v where "pp_read be (arg_tag a) (host_arg be a @ rest) False = Some v"
    using pp_read_string [of "arg_tag a" s be rest] assms by auto
  then show ?thesis using OSymbol assms by (simp add: lo_arg_pp_internal_def)
next
  case (OBlob d)
  have n: "sint (word_of_nat (length d) :: u32) = int (length d)"
    using assms OBlob by (simp add: LO_MAX_MSG_SIZE_def signed_of_nat signed_take_bit_int_eq_self)
  have "lo_arg_size be (arg_tag a) (host_arg be a @ rest) = Some (blob_len (length d))"
    using lo_arg_size_host_arg [OF assms, of be rest] OBlob blob_len_bounds(1) [of "length d"] by (simp add: length_host_arg)
  then have "pp_read be (arg_tag a) (host_arg be a @ rest) False = Some (Val32 (word_of_nat (length d)))"
    using OBlob by (simp add: pp_read_def)
  moreover have "take (length d) (blob_pad d @ rest) = d" by (simp add: blob_pad_def)
  moreover have "length d \<le> length (blob_pad d)" by (simp add: blob_pad_def)
  ultimately show ?thesis using OBlob n
    by (auto simp: lo_arg_pp_internal_def pp_blob_def dec_int_def Let_def)
qed (simp_all add: lo_arg_pp_internal_def pp_read_def lo_arg_size_def dec_int_def)

lemma pp_args_host:
  "list_all arg_ok xs \<Longrightarrow>
   pp_args be pf first (map arg_tag xs) (concat (map (host_arg be) xs) @ rest) =
     Some ((if first then spaced (map (show_arg be pf) xs) else concat (map (\<lambda>a. CHR '' '' # show_arg be pf a) xs), []), args_len xs)"
proof (induction xs arbitrary: first)
  case (Cons a xs)
  have "lo_arg_size be (arg_tag a) (host_arg be a @ concat (map (host_arg be) xs) @ rest) = Some (length (host_arg be a))"
    using Cons.prems by (intro lo_arg_size_host_arg) simp
  then show ?case using Cons pp_host_arg [of a be pf "concat (map (host_arg be) xs) @ rest"]
    by (simp add: spaced_def length_host_arg comp_def)
qed (simp add: spaced_def)

lemma message_pp_repr:
  assumes "msg_repr be m xs"
  shows "lo_message_pp be pf m = Some (show_message be pf xs, [])"
proof -
  have m: "list_all arg_ok xs" "data_ok be m xs" using assms by (simp_all add: msg_repr_def)
  have "m_data m = concat (map (host_arg be) xs) @ drop (m_datalen m) (m_data m)"
    using m(2) append_take_drop_id [of "m_datalen m" "m_data m"] by (simp add: data_ok_def)
  then show ?thesis
    using pp_args_host [OF m(1), of be pf True "drop (m_datalen m) (m_data m)"] msg_repr_types(1) [OF assms] data_ok_datalen [OF m(2)]
    by (simp add: lo_message_pp_def show_message_def type_tags_def)
qed

section \<open>What is printed of a bundle\<close>

text \<open>The tree a bundle stands for; \<open>ls\<close> says which of the elements above are the last of theirs.\<close>

definition branch :: "bool list \<Rightarrow> byte list" where
  "branch ls = concat (map (\<lambda>l. if l then replicate 9 (CHR '' '') else vertical @ replicate 8 (CHR '' '')) (butlast ls)) @
     (if last ls then box 0x94 else box 0x9C) @ horizontal"

fun show_packet :: "bool \<Rightarrow> printf \<Rightarrow> bool list \<Rightarrow> packet \<Rightarrow> byte list"
  and show_packets :: "bool \<Rightarrow> printf \<Rightarrow> bool list \<Rightarrow> packet list \<Rightarrow> byte list" where
  "show_packet be pf ls (PMessage path xs) = branch ls @ path @ '' '' @ show_message be pf xs"
| "show_packet be pf ls (PBundle tt ps) =
     branch ls @ ''bundle'' @ horizontal @ box 0xAC @ horizontal @ ''('' @ hex32 (tt_sec tt) @ ''.'' @ hex32 (tt_frac tt) @
     '')'' @ [CHR 0x0A] @ show_packets be pf ls ps"
| "show_packets be pf ls [] = []"
| "show_packets be pf ls (p # ps) = show_packet be pf (ls @ [ps = []]) p @ show_packets be pf ls ps"

text \<open>The array \<open>state\<close> holds the flags \<open>ls\<close>, and has the length it should have.\<close>

definition state_ok :: "int list \<Rightarrow> nat \<Rightarrow> bool list \<Rightarrow> bool" where
  "state_ok state len ls \<longleftrightarrow> ls \<noteq> [] \<and> length state = len \<and> length ls \<le> len \<and>
     map (\<lambda>x. x \<noteq> 0) (take (length ls) state) = ls"

lemma state_ok_nth: "state_ok state len ls \<Longrightarrow> i < length ls \<Longrightarrow> (state ! i = 0) = (\<not> ls ! i)"
  by (auto simp: state_ok_def dest!: arg_cong [where f = "\<lambda>xs. xs ! i"])

lemma offset_pp_branch:
  assumes "state_ok state len ls" "length ls = Suc offset"
  shows "offset_pp offset state = Some (branch ls)"
proof -
  have "ls \<noteq> []" using assms(2) by auto
  then have ls: "butlast ls = map ((!) ls) [0..<offset]" "last ls = ls ! offset"
    using assms(2) by (auto simp: last_conv_nth nth_butlast intro!: nth_equalityI)
  have "offset < length state" using assms by (simp add: state_ok_def)
  moreover have "concat (map (\<lambda>i. if state ! i = 0 then vertical @ replicate 8 (CHR '' '') else replicate 9 (CHR '' '')) [0..<offset]) =
      concat (map (\<lambda>i. if ls ! i then replicate 9 (CHR '' '') else vertical @ replicate 8 (CHR '' '')) [0..<offset])"
    using state_ok_nth [OF assms(1)] assms(2) by (intro arg_cong [where f = concat] map_cong) auto
  ultimately show ?thesis
    using state_ok_nth [OF assms(1), of offset] assms(2) by (simp add: offset_pp_def branch_def ls comp_def)
qed

lemma state_ok_in: "state_ok state len ls \<Longrightarrow> length ls < len \<Longrightarrow>
    state_ok (state[length ls := (if l then 1 else 0)]) len (ls @ [l])"
  by (simp add: state_ok_def take_Suc_conv_app_nth)

lemma state_ok_out: "state_ok state len (ls @ [l]) \<Longrightarrow> ls \<noteq> [] \<Longrightarrow> state_ok state len ls"
  by (auto simp: state_ok_def take_Suc_conv_app_nth Suc_le_eq)

lemma grow_state_ok:
  assumes "state_ok state len ls" "length ls = Suc offset" "\<forall>k. pm_ok pm k"
  shows "\<exists>state' len'. grow_state pm offset state len = Some (state', len') \<and> state_ok state' len' ls \<and> offset + 2 \<le> len'"
  using assms by (auto simp: grow_state_def state_ok_def)

text \<open>The interface of the loop: what is called for a nested bundle prints it and leaves the flags alone.\<close>

locale bundle_printer =
  fixes pp_bundle :: "nat \<Rightarrow> nat \<Rightarrow> int list \<Rightarrow> nat \<Rightarrow> bundle_printed option"
    and pp_message :: "nat \<Rightarrow> printed option"
    and shown :: "bool list \<Rightarrow> packet \<Rightarrow> byte list"
    and all_shown :: "bool list \<Rightarrow> packet list \<Rightarrow> byte list"
    and rel :: "lo_element \<Rightarrow> packet \<Rightarrow> bool"
  assumes shown_none: "all_shown ls [] = []"
    and shown_more: "all_shown ls (p # ps) = shown (ls @ [ps = []]) p @ all_shown ls ps"
    and message: "rel (El_message m path) p \<Longrightarrow>
      \<exists>out. pp_message m = Some (out, []) \<and> shown ls p = branch ls @ path @ '' '' @ out"
    and nested: "rel (El_bundle c) p \<Longrightarrow> state_ok state len ls \<Longrightarrow> length ls = Suc offset \<Longrightarrow>
      \<exists>state' len'. pp_bundle offset c state len = Some ((shown ls p, []), state', len') \<and>
        state_ok state' len' ls \<and> offset + 2 \<le> len'"
begin

lemma elements_printed:
  "list_all2 rel es ps \<Longrightarrow> state_ok state len ls \<Longrightarrow> length ls = Suc offset \<Longrightarrow> offset + 2 \<le> len \<Longrightarrow>
   \<exists>state' len'. pp_elements (pp_bundle (Suc offset)) pp_message offset es state len =
       Some ((all_shown ls ps, []), state', len') \<and> state_ok state' len' ls \<and> offset + 2 \<le> len'"
proof (induction arbitrary: state len rule: list_all2_induct)
  case (Cons e es p ps)
  let ?l = "es = []"
  let ?s = "state[Suc offset := (if ?l then 1 else 0)]"
  have l: "?l \<longleftrightarrow> ps = []" using Cons.hyps(2) by auto
  have ne: "ls \<noteq> []" using Cons.prems(2) by auto
  have len: "length state = len" using Cons.prems(1) by (simp add: state_ok_def)
  have s: "state_ok ?s len (ls @ [?l])" using state_ok_in [OF Cons.prems(1), of ?l] Cons.prems(2,3) by simp
  obtain st2 len2 where e: "(case e of
        El_message m path \<Rightarrow> do {
          pre \<leftarrow> offset_pp (offset + 1) ?s;
          (text, w) \<leftarrow> pp_message m;
          Some ((pre @ path @ '' '' @ text, w), ?s, len)
        }
      | El_bundle c \<Rightarrow> pp_bundle (Suc offset) c ?s len) = Some ((shown (ls @ [?l]) p, []), st2, len2)"
    and st2: "state_ok st2 len2 (ls @ [?l])" "offset + 2 \<le> len2"
  proof (cases e)
    case (El_message m path)
    obtain out where "pp_message m = Some (out, [])" "shown (ls @ [?l]) p = branch (ls @ [?l]) @ path @ '' '' @ out"
      using message [of m path p "ls @ [?l]"] Cons.hyps(1) El_message by blast
    then show ?thesis using that [of ?s len] offset_pp_branch [OF s, of "Suc offset"] s Cons.prems(2,3) El_message by simp
  next
    case (El_bundle c)
    then obtain st2 len2 where "pp_bundle (Suc offset) c ?s len = Some ((shown (ls @ [?l]) p, []), st2, len2)"
        "state_ok st2 len2 (ls @ [?l])" "Suc offset + 2 \<le> len2"
      using nested [OF _ s, of c p "Suc offset"] Cons.hyps(1) Cons.prems(2) by auto
    then show ?thesis using that [of st2 len2] El_bundle by simp
  qed
  obtain st3 len3 where rest: "pp_elements (pp_bundle (Suc offset)) pp_message offset es st2 len2 =
       Some ((all_shown ls ps, []), st3, len3)"
    "state_ok st3 len3 ls" "offset + 2 \<le> len3"
    using Cons.IH [OF state_ok_out [OF st2(1) ne] Cons.prems(2) st2(2)] by blast
  then show ?case using e Cons.prems(2,3) len by (simp add: shown_more l [symmetric] Let_def split del: if_split)
qed (simp add: shown_none)

end

lemma bundle_pp_step:
  assumes "bundle_printer (\<lambda>offset c. lo_bundle_pp_internal fuel be pf pm h c offset) (pp_message_at be pf h)
      (show_packet be pf) (show_packets be pf) (\<lambda>e p. represents be h e p \<and> depth p \<le> fuel)"
    and "represents be h (El_bundle a) p" "depth p \<le> Suc fuel" "\<forall>k. pm_ok pm k"
    and "state_ok state len ls" "length ls = Suc offset"
  shows "\<exists>state' len'. lo_bundle_pp_internal (Suc fuel) be pf pm h a offset state len =
      Some ((show_packet be pf ls p, []), state', len') \<and> state_ok state' len' ls \<and> offset + 2 \<le> len'"
proof -
  obtain tt ps b es where p: "p = PBundle tt ps" "bundle_at h a = Some b" "b_ts b = tt" "elements b = Some es"
    and es: "list_all2 (represents be h) es ps"
    using assms(2) by (cases p) auto
  obtain st1 len1 where g: "grow_state pm offset state len = Some (st1, len1)" "state_ok st1 len1 ls" "offset + 2 \<le> len1"
    using grow_state_ok [OF assms(5,6,4)] by blast
  have "list_all2 (\<lambda>e p. represents be h e p \<and> depth p \<le> fuel) es ps"
    using es assms(3) unfolding p(1) depth_children by (auto simp: list_all2_conv_all_nth)
  from bundle_printer.elements_printed [OF assms(1) this g(2) assms(6) g(3)] obtain st2 len2 where
    "pp_elements (\<lambda>c. lo_bundle_pp_internal fuel be pf pm h c (Suc offset)) (pp_message_at be pf h) offset es st1 len1 =
       Some ((show_packets be pf ls ps, []), st2, len2)" "state_ok st2 len2 ls" "offset + 2 \<le> len2"
    by blast
  then show ?thesis using p g offset_pp_branch [OF g(2) assms(6)] by simp
qed

lemma packet_printer:
  assumes "\<forall>k. pm_ok pm k"
  shows "bundle_printer (\<lambda>offset c. lo_bundle_pp_internal fuel be pf pm h c offset) (pp_message_at be pf h)
      (show_packet be pf) (show_packets be pf) (\<lambda>e p. represents be h e p \<and> depth p \<le> fuel)"
proof (induction fuel)
  case 0
  show ?case
  proof
    fix c p state len ls offset
    assume "represents be h (El_bundle c) p \<and> depth p \<le> 0"
    then show "\<exists>state' len'. lo_bundle_pp_internal 0 be pf pm h c offset state len = Some ((show_packet be pf ls p, []), state', len') \<and>
        state_ok state' len' ls \<and> offset + 2 \<le> len'"
      by (cases p) auto
  next
    fix m path p ls
    assume "represents be h (El_message m path) p \<and> depth p \<le> 0"
    then show "\<exists>out. pp_message_at be pf h m = Some (out, []) \<and> show_packet be pf ls p = branch ls @ path @ '' '' @ out"
      by (cases p) (auto simp: pp_message_at_def message_pp_repr)
  qed simp_all
next
  case (Suc fuel)
  show ?case
  proof
    fix c p state len ls offset
    assume "represents be h (El_bundle c) p \<and> depth p \<le> Suc fuel" "state_ok state len ls" "length ls = Suc offset"
    then show "\<exists>state' len'. lo_bundle_pp_internal (Suc fuel) be pf pm h c offset state len =
        Some ((show_packet be pf ls p, []), state', len') \<and> state_ok state' len' ls \<and> offset + 2 \<le> len'"
      using bundle_pp_step [OF Suc.IH] assms by blast
  next
    fix m path p ls
    assume "represents be h (El_message m path) p \<and> depth p \<le> Suc fuel"
    then show "\<exists>out. pp_message_at be pf h m = Some (out, []) \<and> show_packet be pf ls p = branch ls @ path @ '' '' @ out"
      by (cases p) (auto simp: pp_message_at_def message_pp_repr)
  qed simp_all
qed

text \<open>Memory that can be had, as the interpretation needs it.\<close>

definition enough_memory :: pp_memory where
  "enough_memory = \<lparr>pm_ok = (\<lambda>_. True), pm_fresh = (\<lambda>_. - 1)\<rparr>"

interpretation pp: bundle_printer "\<lambda>offset c. lo_bundle_pp_internal fuel be pf enough_memory h c offset" "pp_message_at be pf h"
  "show_packet be pf" "show_packets be pf" "\<lambda>e p. represents be h e p \<and> depth p \<le> fuel"
  by (rule packet_printer) (simp add: enough_memory_def)

section \<open>Properties\<close>

text \<open>
  \<open>lo_message_pp\<close> prints the type string and then every argument, by its type, separated by single
  blanks, and gives no warning: for whatever list of arguments the message was built from, it
  never reads beyond its data.
\<close>

theorem message_printed:
  assumes "msg_repr be m xs"
  shows "lo_message_pp be pf m = Some (CHR '','' # map arg_tag xs @ '' '' @ spaced (map (show_arg be pf) xs) @ [CHR 0x0A], [])"
  using message_pp_repr [OF assms] by (simp add: show_message_def)

text \<open>
  C34: Printing a bundle ends in every store a client can build, with fuel for one more level than there are
  bundles: the lines are those of the tree of its elements, the array of flags is
  never read or written out of bounds, however deep the tree, and what fresh memory holds does not show.
\<close>

theorem bundle_printed_as_tree:
  assumes "built be h" "live h a \<noteq> None" "\<forall>k. pm_ok pm k"
  shows "\<exists>p. represents be h (El_bundle a) p \<and>
    lo_bundle_pp (Suc (length (bundles h))) be pf pm h (Ref a) = Some (show_packet be pf [True] p, [])"
proof -
  have ok: "heap_ok h" "\<And>m msg. message_at h m = Some msg \<Longrightarrow> \<exists>xs. msg_repr be msg xs"
    using built_ok [OF assms(1)] unfolding store_ok_def by blast+
  have "\<exists>tt ps. represents be h (El_bundle a) (PBundle tt ps) \<and> depth (PBundle tt ps) \<le> length (bundles h)"
    by (rule acyclic_packet [OF ok(1) assms(2)]) (rule ok(2))
  then obtain p where p: "represents be h (El_bundle a) p" "depth p \<le> Suc (length (bundles h))"
    using le_SucI by blast
  have "state_ok [1, 0, 0, 0] 4 [True]" by (simp add: state_ok_def)
  then obtain state' len' where "lo_bundle_pp_internal (Suc (length (bundles h))) be pf pm h a 0 [1, 0, 0, 0] 4 =
      Some ((show_packet be pf [True] p, []), state', len')"
    using bundle_pp_step [OF packet_printer [OF assms(3), where be = be and pf = pf] p assms(3), of "[1, 0, 0, 0]" 4 "[True]" 0] by auto
  then show ?thesis
    using p(1) assms(3) by (intro exI [of _ p]) (simp add: lo_bundle_pp_def del: lo_bundle_pp_internal.simps)
qed

text \<open>
  A method for every path, or one for every type string, has a NULL where the printing functions hand
  a string to \<open>%s\<close>: \<open>lo_server_pp\<close> is then undefined.
\<close>

theorem generic_method_unprintable:
  assumes "mt \<in> set (sv_methods (ls_core s))" "mt_path mt = NULL \<or> mt_typespec mt = NULL"
  shows "lo_server_pp pf s = None"
proof -
  have "lo_method_pp_prefix pf mt pre = None" for pre
    using assms(2) by (auto simp: lo_method_pp_prefix_def split: ptr.splits)
  then have "mt \<in> set ms \<Longrightarrow> pp_methods pf ms = None" for ms by (induction ms) (auto split: bind_splits)
  then show ?thesis using assms(1) by (auto simp: lo_server_pp_def split: bind_splits list.splits)
qed

section \<open>Witnesses\<close>

definition sample_printf :: printf where
  "sample_printf = \<lparr>pf_float = (\<lambda>_. ''0.000000''), pf_double = (\<lambda>_. ''0.000000''), pf_ptr = dec\<rparr>"

lemma dec_digit: "n < 10 \<Longrightarrow> dec n = [''0123456789'' ! n]"
  by (simp add: dec.simps)

theorem message_printed_witness:
  "lo_message_pp True sample_printf (lo_message_incref sample_message) = Some ('',i 7'' @ [CHR 0x0A], [])"
  using message_printed [OF sample_message_repr, of sample_printf]
  by (simp add: spaced_def dec_int_def dec_digit arg_tag_def typechar.simps)

theorem bundle_printed_as_tree_witness:
  "\<exists>h p. built True h \<and> represents True h (El_bundle 0) p \<and>
     lo_bundle_pp (Suc (length (bundles h))) True sample_printf enough_memory h (Ref 0) = Some (show_packet True sample_printf [True] p, [])"
proof -
  obtain h where h: "built True h" "live h 0 = Some [El_message 0 ''/a'']" using built_example by blast
  have "live h 0 \<noteq> None" "\<forall>k. pm_ok enough_memory k" using h(2) by (simp_all add: enough_memory_def)
  from bundle_printed_as_tree [OF h(1) this, of sample_printf] show ?thesis using h(1) by blast
qed

theorem generic_method_unprintable_witness:
  "lo_server_pp sample_printf (sample_ls LO_UDP\<lparr>ls_core := sample_server\<lparr>sv_methods := [sample_method\<lparr>mt_path := NULL\<rparr>]\<rparr>\<rparr>) = None"
  by (rule generic_method_unprintable [of "sample_method\<lparr>mt_path := NULL\<rparr>"]) simp_all

end
