(* ===== verification/Lifecycle.thy ===== *)
theory Lifecycle
  imports Serving
begin

text \<open>
  The life of a server (\<open>src/server.c\<close>): \<open>lo_server_new_with_proto_internal\<close> with its front ends, the
  multicast group and its interface, and \<open>lo_server_free\<close>. This is the build for POSIX hosts with
  \<open>getifaddrs\<close> and \<open>inet_pton\<close>, without IPv6. System calls are recorded, and what they return is an
  argument.
\<close>

section \<open>The system\<close>

datatype sockopt =
    Opt_broadcast
  | Opt_reuseaddr
  | Opt_reuseport
  | Opt_multicast_if "byte list"
  | Opt_membership "byte list" "byte list"

datatype sv_call =
    S_getaddrinfo "byte list"
  | S_socket family proto
  | S_setsockopt int sockopt
  | S_bind int "byte list"
  | S_listen int
  | S_close int
  | S_unlink "byte list"

text \<open>
  The value of the last call of a history and the error number after it; \<open>getaddrinfo\<close> for the
  last call; \<open>inet_pton\<close> for a group; \<open>inet_pton\<close> for an interface's address, with what it returns;
  the interfaces; the port in a socket address; a random number.
\<close>

record host =
  h_ret :: "sv_call list \<Rightarrow> int"
  h_errno :: "sv_call list \<Rightarrow> int"
  h_getaddrinfo :: "sv_call list \<Rightarrow> int + addrinfo list"
  h_pton :: "byte list \<Rightarrow> byte list ptr"
  h_pton_if :: "byte list ptr \<Rightarrow> (int \<times> byte list) ptr"
  h_ifas :: "ifaddr list option"
  h_addr_port :: "byte list \<Rightarrow> nat"
  h_random :: "sv_call list \<Rightarrow> nat"
  h_al :: alloc

text \<open>\<open>lo_client_sockets\<close>\<close>

record lo_cs =
  cs_udp :: int
  cs_tcp :: int

text \<open>
  What construction and release change beside the server: the calls made, the two global variables and the
  errors reported.
\<close>

record making =
  mk_calls :: "sv_call list"
  lo_client_sockets :: lo_cs
  reuseport_supported :: bool
  mk_errors :: "(int \<times> byte list option) list"

definition sys :: "host \<Rightarrow> sv_call \<Rightarrow> making \<Rightarrow> int \<times> making" where
  "sys h c m = (h_ret h (mk_calls m @ [c]), m\<lparr>mk_calls := mk_calls m @ [c]\<rparr>)"

definition call_only :: "sv_call \<Rightarrow> making \<Rightarrow> making" where
  "call_only c m = m\<lparr>mk_calls := mk_calls m @ [c]\<rparr>"

definition geterror :: "host \<Rightarrow> making \<Rightarrow> int" where
  "geterror h m = h_errno h (mk_calls m)"

text \<open>\<open>lo_throw\<close> on the server that is being made.\<close>

definition throw :: "lo_server \<Rightarrow> int \<Rightarrow> byte list option \<Rightarrow> making \<Rightarrow> making" where
  "throw s err path m = (if sv_err_h (ls_core s) then m\<lparr>mk_errors := mk_errors m @ [(err, path)]\<rparr> else m)"

section \<open>Release\<close>

text \<open>
  The loop over the sockets, last one first. The second loop of the code finds them all closed.
\<close>

fun free_sockets :: "proto \<Rightarrow> int list \<Rightarrow> making \<Rightarrow> making" where
  "free_sockets p [] m = m"
| "free_sockets p (fd # fds) m =
     (if fd = - 1 then free_sockets p fds m
      else
        let cs = lo_client_sockets m;
            cs' = (if p = LO_UDP \<and> fd = cs_udp cs then cs\<lparr>cs_udp := - 1\<rparr>
                   else if p = LO_TCP \<and> fd = cs_tcp cs then cs\<lparr>cs_tcp := - 1\<rparr>
                   else cs)
        in free_sockets p fds (call_only (S_close fd) (m\<lparr>lo_client_sockets := cs'\<rparr>)))"

text \<open>The messages of the queue lose a reference; the second component is what is left of them.\<close>

definition lo_server_free :: "lo_server ptr \<Rightarrow> making \<Rightarrow> making \<times> lo_message ptr list" where
  "lo_server_free sp m =
     (case sp of
        NULL \<Rightarrow> (m, [])
      | Ref s \<Rightarrow>
          let m1 = free_sockets (ls_protocol s) (rev (so_fds (ls_socks s))) m;
              m2 = (case ls_path s of
                      Ref p \<Rightarrow> if ls_protocol s = LO_UNIX then call_only (S_unlink p) m1 else m1
                    | NULL \<Rightarrow> m1)
          in (m2, map (\<lambda>q. lo_message_free (Ref (q_msg q))) (sv_queued (ls_core s))))"

text \<open>An error on the way: it is reported, and the server is freed.\<close>

definition give_up :: "lo_server \<Rightarrow> int \<Rightarrow> byte list option \<Rightarrow> making \<Rightarrow> making" where
  "give_up s err path m = fst (lo_server_free (Ref s) (throw s err path m))"

section \<open>Multicast groups\<close>

text \<open>
  \<open>Inl\<close> is an error return, with whether the server was freed: without a matching interface it is not.
  The error number after a failed call is not zero.
\<close>

definition lo_server_set_iface ::
  "host \<Rightarrow> lo_server \<Rightarrow> family \<Rightarrow> byte list ptr \<Rightarrow> byte list ptr \<Rightarrow> making \<Rightarrow> (bool + lo_server) \<times> making" where
  "lo_server_set_iface h s fam iface ip m =
     (let fd = hd (so_fds (ls_socks s)) in
      case lo_inaddr_find_iface False (h_ifas h) (ls_iface s) fam iface (case ip of NULL \<Rightarrow> NULL | Ref _ \<Rightarrow> h_pton_if h ip) of
        (err, inaddr) \<Rightarrow>
          let s1 = s\<lparr>ls_iface := inaddr\<rparr> in
          if err \<noteq> 0 then (Inl False, m)
          else if length (in_addr inaddr) = 4 then
            (case sys h (S_setsockopt fd (Opt_multicast_if (in_addr inaddr))) m of
               (r, m1) \<Rightarrow> if r < 0 then (Inl True, give_up s1 (geterror h m1) (Some ''setsockopt(IP_MULTICAST_IF)'') m1)
                         else (Inr s1, m1))
          else (Inr s1, m))"

definition lo_server_join_multicast_group ::
  "host \<Rightarrow> lo_server \<Rightarrow> byte list \<Rightarrow> family \<Rightarrow> byte list ptr \<Rightarrow> byte list ptr \<Rightarrow> making \<Rightarrow> (bool + lo_server) \<times> making" where
  "lo_server_join_multicast_group h s grp fam iface ip m =
     (let fd = hd (so_fds (ls_socks s)) in
      if fam = AF_INET \<and> h_pton h grp = NULL
      then (Inl True, give_up s (geterror h m) (Some ''inet_aton()'') m)
      else
        let multiaddr = (case (fam, h_pton h grp) of (AF_INET, Ref a) \<Rightarrow> a | _ \<Rightarrow> replicate 4 NUL) in
        (case (if iface \<noteq> NULL \<or> ip \<noteq> NULL then lo_server_set_iface h s fam iface ip m else (Inr s, m)) of
           (Inl freed, m1) \<Rightarrow> (Inl freed, m1)
         | (Inr s1, m1) \<Rightarrow>
             let interface = (if iface \<noteq> NULL \<or> ip \<noteq> NULL then in_addr (ls_iface s1) else replicate 4 NUL) in
             (case sys h (S_setsockopt fd (Opt_membership multiaddr interface)) m1 of
                (r, m2) \<Rightarrow>
                  if r < 0 then (Inl True, give_up s1 (geterror h m2) (Some ''setsockopt(IP_ADD_MEMBERSHIP)'') m2)
                  else (Inr s1, m2))))"

section \<open>Construction\<close>

text \<open>The object before it has a socket.\<close>

definition blank_server :: "proto \<Rightarrow> bool \<Rightarrow> lo_server" where
  "blank_server proto err_h =
     \<lparr>ls_core = \<lparr>sv_methods = [], sv_protocol = proto, sv_coerce = True, sv_enqueue = True, sv_queued = [],
        sv_bundle_start = False, sv_bundle_end = False, sv_err_h = err_h, sv_log = []\<rparr>,
      ls_socks = \<lparr>so_fds = [- 1], so_alloc = 2, so_contexts = replicate 2 zero_context, so_sources = replicate 2 NULL\<rparr>,
      ls_port = 0, ls_hostname = NULL, ls_path = NULL, ls_iface = \<lparr>in_addr = [], in_iface = NULL\<rparr>\<rparr>"

definition with_fd :: "int \<Rightarrow> lo_server \<Rightarrow> lo_server" where
  "with_fd fd s = s\<lparr>ls_socks := (ls_socks s)\<lparr>so_fds := [fd]\<rparr>\<rparr>"

text \<open>The first address of the list a socket can be made for, the last one tried otherwise.\<close>

fun try_sockets :: "host \<Rightarrow> proto \<Rightarrow> addrinfo list \<Rightarrow> addrinfo ptr \<Rightarrow> making \<Rightarrow> int \<times> addrinfo ptr \<times> making" where
  "try_sockets h p [] used m = (- 1, used, m)"
| "try_sockets h p (ai # ais) used m =
     (case sys h (S_socket (ai_family ai) p) m of
        (fd, m1) \<Rightarrow>
          if fd = - 1 then try_sockets h p ais (Ref ai) m1
          else (fd, Ref ai, if ai_family ai = AF_INET \<and> p = LO_UDP
                            then call_only (S_setsockopt fd Opt_broadcast) m1 else m1))"

definition EINVAL :: int where "EINVAL = 22"
definition EADDRINUSE :: int where "EADDRINUSE = 98"

text \<open>
  One round of the \<open>do\<close> loop: a failure (the server is gone), \<open>continue\<close>, or a bound socket.
\<close>

datatype attempt = Failed making | Retry lo_server making | Bound addrinfo lo_server making

definition reuseaddr_fails :: "host \<Rightarrow> lo_server \<Rightarrow> making \<Rightarrow> bool \<times> making" where
  "reuseaddr_fails h s m =
     (case sys h (S_setsockopt (hd (so_fds (ls_socks s))) Opt_reuseaddr) m of
        (r, m1) \<Rightarrow> if r < 0 then (geterror h m1 \<noteq> 0, throw s (geterror h m1) (Some ''setsockopt(SO_REUSEADDR)'') m1)
                  else (False, m1))"

definition set_reuseport :: "host \<Rightarrow> lo_server \<Rightarrow> making \<Rightarrow> making" where
  "set_reuseport h s m =
     (if reuseport_supported m then
        (case sys h (S_setsockopt (hd (so_fds (ls_socks s))) Opt_reuseport) m of
           (r, m1) \<Rightarrow> if r < 0 \<and> geterror h m1 \<noteq> 0 then m1\<lparr>reuseport_supported := False\<rparr> else m1)
      else m)"

definition bind_socket :: "host \<Rightarrow> lo_server \<Rightarrow> addrinfo \<Rightarrow> making \<Rightarrow> attempt" where
  "bind_socket h s used m =
     (case sys h (S_bind (hd (so_fds (ls_socks s))) (ai_addr used)) m of
        (r, m1) \<Rightarrow>
          if r < 0 then
            (if geterror h m1 = EINVAL \<or> geterror h m1 = EADDRINUSE then Retry s m1
             else Failed (give_up s (geterror h m1) (Some ''bind()'') m1))
          else Bound used s m1)"

text \<open>From the options of the socket to \<open>bind\<close>.\<close>

definition prepare_socket ::
  "host \<Rightarrow> byte list ptr \<Rightarrow> byte list ptr \<Rightarrow> byte list ptr \<Rightarrow> lo_server \<Rightarrow> addrinfo \<Rightarrow> making \<Rightarrow> attempt" where
  "prepare_socket h grp iface ip s used m =
     (case (if grp \<noteq> NULL \<or> ls_protocol s = LO_TCP then reuseaddr_fails h s m else (False, m)) of
        (err, m1) \<Rightarrow>
          if err then Failed (fst (lo_server_free (Ref s) m1))
          else (case grp of
              NULL \<Rightarrow> bind_socket h s used m1
            | Ref g \<Rightarrow>
                (case lo_server_join_multicast_group h s g (ai_family used) iface ip (set_reuseport h s m1) of
                   (Inl _, m2) \<Rightarrow> Failed m2
                 | (Inr s1, m2) \<Rightarrow> bind_socket h s1 used m2)))"

definition new_attempt ::
  "host \<Rightarrow> byte list ptr \<Rightarrow> byte list ptr \<Rightarrow> byte list ptr \<Rightarrow> byte list ptr \<Rightarrow> lo_server \<Rightarrow> making \<Rightarrow> attempt" where
  "new_attempt h grp port iface ip s m =
     (let service = (case port of Ref p \<Rightarrow> p | NULL \<Rightarrow> dec (10000 + h_random h (mk_calls m) mod 10000));
          m1 = call_only (S_getaddrinfo service) m;
          s1 = with_fd (- 1) s\<lparr>ls_port := 0\<rparr>
      in case h_getaddrinfo h (mk_calls m1) of
           Inl ret \<Rightarrow> Failed (give_up s1 ret None m1)
         | Inr ai \<Rightarrow>
             (case try_sockets h (ls_protocol s1) ai NULL m1 of
                (_, NULL, m2) \<Rightarrow> Failed (give_up s1 (geterror h m2) (Some ''socket()'') m2)
              | (fd, Ref used, m2) \<Rightarrow>
                  if fd = - 1 then Failed (give_up s1 (geterror h m2) (Some ''socket()'') m2)
                  else prepare_socket h grp iface ip (with_fd fd s1) used m2))"

text \<open>\<open>while (!used && tries++ < 16)\<close>, with the number of tries left.\<close>

fun new_loop ::
  "host \<Rightarrow> byte list ptr \<Rightarrow> byte list ptr \<Rightarrow> byte list ptr \<Rightarrow> byte list ptr \<Rightarrow> nat \<Rightarrow> lo_server \<Rightarrow> making \<Rightarrow> attempt" where
  "new_loop h grp port iface ip 0 s m = new_attempt h grp port iface ip s m"
| "new_loop h grp port iface ip (Suc tries) s m =
     (case new_attempt h grp port iface ip s m of
        Retry s1 m1 \<Rightarrow> new_loop h grp port iface ip tries s1 m1
      | a \<Rightarrow> a)"

text \<open>\<open>atoi\<close>\<close>

definition atoi :: "byte list \<Rightarrow> int" where
  "atoi s =
     (let t = dropWhile is_space s;
          (sg, u) = (case t of CHR ''-'' # u \<Rightarrow> (- 1, u) | CHR ''+'' # u \<Rightarrow> (1, u) | _ \<Rightarrow> (1, t))
      in sg * foldl (\<lambda>n c. n * 10 + (of_char c - 48)) 0 (takeWhile digit u))"

text \<open>After the loop: the socket listens, is known to senders, and its port is read off.\<close>

definition new_finish :: "host \<Rightarrow> byte list ptr \<Rightarrow> attempt \<Rightarrow> (lo_server ptr \<times> making) option" where
  "new_finish h port a =
     (case a of
        Failed m \<Rightarrow> Some (NULL, m)
      | Retry s m \<Rightarrow> Some (NULL, give_up s LO_NOPORT None m)
      | Bound used s m \<Rightarrow>
          let fd = hd (so_fds (ls_socks s));
              m1 = (if ls_protocol s = LO_TCP then call_only (S_listen fd) m else m);
              cs = lo_client_sockets m1;
              m2 = m1\<lparr>lo_client_sockets :=
                     (if ls_protocol s = LO_UDP then cs\<lparr>cs_udp := fd\<rparr> else if ls_protocol s = LO_TCP then cs\<lparr>cs_tcp := fd\<rparr> else cs)\<rparr>
          in if ai_family used = AF_OTHER then
               (case port of NULL \<Rightarrow> None
                | Ref p \<Rightarrow> Some (Ref (s\<lparr>ls_port := atoi p\<rparr>), throw s LO_UNKNOWNPROTO None m2))
             else Some (Ref (s\<lparr>ls_port := int (h_addr_port h (ai_addr used))\<rparr>), m2))"

text \<open>A UNIX socket; \<open>sun_path\<close> holds 107 characters of the path.\<close>

definition new_unix :: "host \<Rightarrow> byte list ptr \<Rightarrow> lo_server \<Rightarrow> making \<Rightarrow> (lo_server ptr \<times> making) option" where
  "new_unix h port s m =
     (case sys h (S_socket AF_OTHER LO_UNIX) m of
        (fd, m1) \<Rightarrow>
          let s1 = with_fd fd s in
          if fd = - 1 then Some (NULL, give_up s1 (geterror h m1) (Some ''socket()'') m1)
          else (case port of
              NULL \<Rightarrow> None
            | Ref p \<Rightarrow>
                (case sys h (S_bind fd (take 107 p)) m1 of
                   (r, m2) \<Rightarrow>
                     if r < 0 then Some (NULL, give_up s1 (geterror h m2) (Some ''bind()'') m2)
                     else Some (Ref (s1\<lparr>ls_path := strdup (h_al h) (Ref p)\<rparr>), m2))))"

text \<open>The protocol is a number: 0 is \<open>LO_DEFAULT\<close>.\<close>

definition real_proto :: "byte list ptr \<Rightarrow> int \<Rightarrow> proto option" where
  "real_proto port proto =
     (if proto = 0 then Some (case port of Ref (c # _) \<Rightarrow> if c = CHR ''/'' then LO_UNIX else LO_UDP | _ \<Rightarrow> LO_UDP)
      else proto_of proto)"

definition lo_server_new_with_proto_internal ::
  "host \<Rightarrow> byte list ptr \<Rightarrow> byte list ptr \<Rightarrow> byte list ptr \<Rightarrow> byte list ptr \<Rightarrow> int \<Rightarrow> bool \<Rightarrow> making \<Rightarrow>
   (lo_server ptr \<times> making) option" where
  "lo_server_new_with_proto_internal h grp port iface ip proto err_h m =
     (if h_al h At_struct 0 = None \<or> h_al h At_data 2 = None then Some (NULL, m)
      else (case real_proto port proto of
          None \<Rightarrow> Some (NULL, give_up (blank_server LO_UDP err_h) LO_UNKNOWNPROTO None m)
        | Some p \<Rightarrow>
            let s = blank_server p err_h in
            if p = LO_UNIX then new_unix h port s m
            else new_finish h port (new_loop h grp port iface ip 16 s m)))"

definition lo_server_new_with_proto ::
  "host \<Rightarrow> byte list ptr \<Rightarrow> int \<Rightarrow> bool \<Rightarrow> making \<Rightarrow> (lo_server ptr \<times> making) option" where
  "lo_server_new_with_proto h port proto err_h m =
     lo_server_new_with_proto_internal h NULL port NULL NULL proto err_h m"

definition lo_server_new :: "host \<Rightarrow> byte list ptr \<Rightarrow> bool \<Rightarrow> making \<Rightarrow> (lo_server ptr \<times> making) option" where
  "lo_server_new h port err_h m = lo_server_new_with_proto h port 0 err_h m"

definition lo_server_new_multicast ::
  "host \<Rightarrow> byte list ptr \<Rightarrow> byte list ptr \<Rightarrow> bool \<Rightarrow> making \<Rightarrow> (lo_server ptr \<times> making) option" where
  "lo_server_new_multicast h grp port err_h m =
     lo_server_new_with_proto_internal h grp port NULL NULL 1 err_h m"

definition lo_server_new_multicast_iface ::
  "host \<Rightarrow> byte list ptr \<Rightarrow> byte list ptr \<Rightarrow> byte list ptr \<Rightarrow> byte list ptr \<Rightarrow> bool \<Rightarrow> making \<Rightarrow>
   (lo_server ptr \<times> making) option" where
  "lo_server_new_multicast_iface h grp port iface ip err_h m =
     lo_server_new_with_proto_internal h grp port iface ip 1 err_h m"

definition lo_server_new_from_url ::
  "bool \<Rightarrow> host \<Rightarrow> byte list ptr \<Rightarrow> bool \<Rightarrow> making \<Rightarrow> (lo_server ptr \<times> making) option" where
  "lo_server_new_from_url strict h url err_h m =
     (case url of
        NULL \<Rightarrow> Some (NULL, m)
      | Ref u \<Rightarrow>
          if u = [] then Some (NULL, m)
          else
            let protocol = lo_url_get_protocol_id url in
            (case proto_of protocol of
               None \<Rightarrow> do { _ \<leftarrow> lo_url_get_protocol strict url; Some (NULL, m) }
             | Some LO_UNIX \<Rightarrow> do {
                 port \<leftarrow> lo_url_get_path strict u;
                 lo_server_new_with_proto_internal h NULL port NULL NULL protocol err_h m
               }
             | Some _ \<Rightarrow> do {
                 grp \<leftarrow> lo_url_get_hostname strict u;
                 port \<leftarrow> lo_url_get_port strict u;
                 lo_server_new_with_proto_internal h grp port NULL NULL protocol err_h m
               }))"

section \<open>What construction keeps\<close>

lemma sys_calls: "sys h c m = (r, m') \<Longrightarrow> r = h_ret h (mk_calls m') \<and> mk_calls m' = mk_calls m @ [c]"
  by (auto simp: sys_def)

text \<open>Calls were made, and none of them closed a socket.\<close>

definition only_calls :: "making \<Rightarrow> making \<Rightarrow> bool" where
  "only_calls m m' \<longleftrightarrow> (\<exists>cs. mk_calls m' = mk_calls m @ cs \<and> (\<forall>fd. S_close fd \<notin> set cs))"

lemma only_calls_same [simp]: "only_calls m m" "mk_calls m' = mk_calls m \<Longrightarrow> only_calls m m'"
  by (auto simp: only_calls_def)

lemma only_calls_trans: "only_calls m m1 \<Longrightarrow> only_calls m1 m2 \<Longrightarrow> only_calls m m2"
  by (auto simp: only_calls_def)

lemma only_calls_step: "\<forall>fd. c \<noteq> S_close fd \<Longrightarrow> sys h c m = (r, m') \<Longrightarrow> only_calls m m'"
  "\<forall>fd. c \<noteq> S_close fd \<Longrightarrow> only_calls m (call_only c m)"
  by (auto simp: only_calls_def call_only_def dest!: sys_calls)

lemma throw_calls [simp]: "mk_calls (throw s e p m) = mk_calls m" "lo_client_sockets (throw s e p m) = lo_client_sockets m"
  by (simp_all add: throw_def)

lemma reuseaddr_calls: "reuseaddr_fails h s m = (b, m') \<Longrightarrow> only_calls m m'"
  by (auto simp: reuseaddr_fails_def split: prod.splits if_splits
      intro: only_calls_step(1) [of _ h] only_calls_trans [OF only_calls_step(1) [of _ h]])

lemma set_reuseport_calls: "only_calls m (set_reuseport h s m)"
  by (auto simp: set_reuseport_def split: prod.splits intro: only_calls_step(1) [of _ h]
      only_calls_trans [OF only_calls_step(1) [of _ h]])

text \<open>The socket of the server was opened for its protocol and is open.\<close>

definition opened :: "host \<Rightarrow> proto \<Rightarrow> int \<Rightarrow> making \<Rightarrow> bool" where
  "opened h p fd m \<longleftrightarrow>
     (\<exists>cs fam cs'. mk_calls m = cs @ S_socket fam p # cs' \<and> fd = h_ret h (cs @ [S_socket fam p]) \<and>
        fd \<noteq> - 1 \<and> (\<forall>x. S_close x \<notin> set cs'))"

lemma opened_keeps: "opened h p fd m \<Longrightarrow> only_calls m m' \<Longrightarrow> opened h p fd m'"
  unfolding opened_def only_calls_def
  by clarsimp (metis Un_iff append.assoc append_Cons set_append)

text \<open>The server under construction is a blank one but for its socket and the interface.\<close>

definition made_from :: "proto \<Rightarrow> bool \<Rightarrow> int \<Rightarrow> lo_server \<Rightarrow> bool" where
  "made_from p err_h fd s \<longleftrightarrow> ls_core s = ls_core (blank_server p err_h) \<and>
     ls_socks s = ls_socks (with_fd fd (blank_server p err_h)) \<and> ls_path s = NULL"

lemma made_from_blank: "made_from p e (- 1) (blank_server p e)"
  by (simp add: made_from_def with_fd_def blank_server_def)

lemma made_from_fd: "made_from p e fd s \<Longrightarrow> hd (so_fds (ls_socks s)) = fd" "made_from p e fd s \<Longrightarrow> ls_protocol s = p"
  "made_from p e fd s \<Longrightarrow> made_from p e fd' (with_fd fd' s)" "made_from p e fd s \<Longrightarrow> made_from p e fd (s\<lparr>ls_port := n\<rparr>)"
  by (simp_all add: made_from_def with_fd_def blank_server_def)

lemma set_iface_made:
  "lo_server_set_iface h s fam iface ip m = (Inr s', m') \<Longrightarrow> made_from p e fd s \<Longrightarrow> made_from p e fd s' \<and> only_calls m m'"
  by (auto simp: lo_server_set_iface_def made_from_def Let_def split: prod.splits if_splits intro: only_calls_step(1) [of _ h])

lemma join_made:
  assumes "lo_server_join_multicast_group h s g fam iface ip m = (Inr s', m')" "made_from p e fd s"
  shows "made_from p e fd s' \<and> only_calls m m'"
proof -
  obtain x m1 where x: "(if iface \<noteq> NULL \<or> ip \<noteq> NULL then lo_server_set_iface h s fam iface ip m else (Inr s, m)) = (x, m1)"
    by (cases "if iface \<noteq> NULL \<or> ip \<noteq> NULL then lo_server_set_iface h s fam iface ip m else (Inr s, m)")
  from assms(1) x obtain s1 where s1: "x = Inr s1" by (cases x) (auto simp: lo_server_join_multicast_group_def Let_def split: if_splits)
  have a: "made_from p e fd s1 \<and> only_calls m m1" using x s1 assms(2) by (auto split: if_splits dest: set_iface_made)
  obtain c r m2 where "sys h c m1 = (r, m2)" "\<forall>fd. c \<noteq> S_close fd" "s' = s1" "m' = m2"
    using assms(1) x s1 by (auto simp: lo_server_join_multicast_group_def Let_def split: if_splits prod.splits)
  then show ?thesis using a only_calls_step(1) only_calls_trans by blast
qed

lemma try_sockets_fd:
  "try_sockets h p ais used m = (fd, u, m') \<Longrightarrow> fd \<noteq> - 1 \<Longrightarrow> opened h p fd m'"
proof (induction ais arbitrary: used m)
  case (Cons a ais)
  define c where "c = S_socket (ai_family a) p"
  obtain x m1 where x: "sys h c m = (x, m1)" by (cases "sys h c m")
  have m1: "opened h p x m1" if "x \<noteq> - 1" unfolding opened_def
    by (intro exI [of _ "mk_calls m"] exI [of _ "ai_family a"] exI [of _ "[]"]) (use that sys_calls [OF x] c_def in auto)
  show ?case using Cons x [unfolded c_def] m1
    by (auto split: if_splits intro: opened_keeps only_calls_step)
qed simp

lemma bind_socket_bound:
  assumes "bind_socket h s ai m = Bound used s' m'"
  shows "s' = s \<and> used = ai \<and> 0 \<le> h_ret h (mk_calls m') \<and> mk_calls m' = mk_calls m @ [S_bind (hd (so_fds (ls_socks s))) (ai_addr used)]"
  using assms by (auto simp: bind_socket_def split: prod.splits if_splits dest!: sys_calls)

lemma bind_socket_retry: "bind_socket h s ai m = Retry s' m' \<Longrightarrow> s' = s"
  by (auto simp: bind_socket_def split: prod.splits if_splits)

text \<open>A round ends with the socket the server had bound, or with one to be tried again.\<close>

definition bound_ok :: "host \<Rightarrow> proto \<Rightarrow> bool \<Rightarrow> attempt \<Rightarrow> bool" where
  "bound_ok h p e a \<longleftrightarrow>
     (case a of
        Failed m \<Rightarrow> True
      | Retry s m \<Rightarrow> \<exists>fd. made_from p e fd s
      | Bound used s m \<Rightarrow> \<exists>fd cs. opened h p fd m \<and> made_from p e fd s \<and>
          0 \<le> h_ret h (mk_calls m) \<and> mk_calls m = cs @ [S_bind fd (ai_addr used)])"

lemma bound_ok_failed [simp]: "bound_ok h p e (Failed m)"
  by (simp add: bound_ok_def)

lemma bind_socket_ok:
  assumes "made_from p e fd s" "opened h p fd m"
  shows "bound_ok h p e (bind_socket h s used m)"
proof (cases "bind_socket h s used m")
  case (Retry s1 m1)
  then show ?thesis using assms(1) bind_socket_retry [OF Retry] by (auto simp: bound_ok_def)
next
  case (Bound u s1 m1)
  have b: "s1 = s" "0 \<le> h_ret h (mk_calls m1)" "mk_calls m1 = mk_calls m @ [S_bind fd (ai_addr u)]"
    using bind_socket_bound [OF Bound] made_from_fd(1) [OF assms(1)] by auto
  have "only_calls m m1" using b(3) by (auto simp: only_calls_def)
  then show ?thesis unfolding bound_ok_def Bound attempt.case
    by (intro exI [of _ fd] exI [of _ "mk_calls m"] conjI) (use assms b opened_keeps in auto)
qed simp

lemma prepare_socket_ok:
  assumes "made_from p e fd s" "opened h p fd m"
  shows "bound_ok h p e (prepare_socket h grp iface ip s used m)"
proof -
  obtain err m1 where r: "(if grp \<noteq> NULL \<or> ls_protocol s = LO_TCP then reuseaddr_fails h s m else (False, m)) = (err, m1)"
    by (cases "if grp \<noteq> NULL \<or> ls_protocol s = LO_TCP then reuseaddr_fails h s m else (False, m)")
  have m1: "opened h p fd m1" using r assms(2) reuseaddr_calls opened_keeps by (metis prod.inject)
  show ?thesis
  proof (cases grp)
    case NULL
    then show ?thesis using r bind_socket_ok [OF assms(1) m1] by (auto simp: prepare_socket_def)
  next
    case (Ref g)
    obtain j m2 where j: "lo_server_join_multicast_group h s g (ai_family used) iface ip (set_reuseport h s m1) = (j, m2)"
      by (cases "lo_server_join_multicast_group h s g (ai_family used) iface ip (set_reuseport h s m1)")
    show ?thesis
    proof (cases j)
      case (Inr s1)
      have s1: "made_from p e fd s1 \<and> only_calls (set_reuseport h s m1) m2" using join_made j Inr assms(1) by blast
      then have "made_from p e fd s1" "opened h p fd m2"
        using opened_keeps [OF opened_keeps [OF m1 set_reuseport_calls [of m1 h s]]] by blast+
      from bind_socket_ok [OF this] show ?thesis using r j Ref Inr by (auto simp: prepare_socket_def)
    qed (use r j Ref in \<open>auto simp: prepare_socket_def\<close>)
  qed
qed

lemma new_attempt_ok:
  assumes "made_from p e fd0 s"
  shows "bound_ok h p e (new_attempt h grp port iface ip s m)"
proof -
  define s1 where "s1 = with_fd (- 1) s\<lparr>ls_port := 0\<rparr>"
  define m1 where "m1 = call_only (S_getaddrinfo (case port of Ref p \<Rightarrow> p | NULL \<Rightarrow> dec (10000 + h_random h (mk_calls m) mod 10000))) m"
  have s1: "made_from p e (- 1) s1" using made_from_fd(3,4) [OF assms] by (simp add: s1_def made_from_fd(4))
  show ?thesis
  proof (cases "h_getaddrinfo h (mk_calls m1)")
    case (Inr ai)
    obtain fd u m2 where t: "try_sockets h p ai NULL m1 = (fd, u, m2)" by (cases "try_sockets h p ai NULL m1")
    have eq: "new_attempt h grp port iface ip s m =
        (case u of NULL \<Rightarrow> Failed (give_up s1 (geterror h m2) (Some ''socket()'') m2)
         | Ref used \<Rightarrow> if fd = - 1 then Failed (give_up s1 (geterror h m2) (Some ''socket()'') m2)
                      else prepare_socket h grp iface ip (with_fd fd s1) used m2)"
      using Inr t made_from_fd(2) [OF s1] by (simp add: new_attempt_def s1_def [symmetric] m1_def [symmetric] Let_def)
    show ?thesis
    proof (cases "u = NULL \<or> fd = - 1")
      case False
      then obtain used where u: "u = Ref used" "fd \<noteq> - 1" by (cases u) auto
      from prepare_socket_ok [OF made_from_fd(3) [OF s1] try_sockets_fd [OF t u(2)]] show ?thesis using eq u by simp
    qed (use eq in \<open>auto split: ptr.splits\<close>)
  qed (simp add: new_attempt_def m1_def [symmetric] Let_def)
qed

lemma new_loop_ok:
  "made_from p e fd0 s \<Longrightarrow> bound_ok h p e (new_loop h grp port iface ip tries s m)"
proof (induction tries arbitrary: s m fd0)
  case 0
  then show ?case using new_attempt_ok by simp
next
  case (Suc tries)
  have ok: "bound_ok h p e (new_attempt h grp port iface ip s m)" by (rule new_attempt_ok [OF Suc.prems])
  show ?case
  proof (cases "new_attempt h grp port iface ip s m")
    case (Retry s1 m1)
    then obtain fd where "made_from p e fd s1" using ok by (auto simp: bound_ok_def)
    then show ?thesis using Suc.IH Retry by simp
  qed (use ok in auto)
qed

text \<open>
  C14: A successful construction of a UDP or TCP server gives one that is ready to receive: one socket, opened for its
  protocol, not closed since, and bound to the address whose port is the server's; a TCP server listens on
  it. Senders find it as the socket of that protocol. There are no methods and no queued messages,
  and coercion and queueing are on.
\<close>

theorem new_server_ready:
  assumes "lo_server_new_with_proto_internal h grp port iface ip proto err_h m = Some (Ref s, m')"
    and "real_proto port proto = Some p" "p \<noteq> LO_UNIX" "\<And>cs. - 1 \<le> h_ret h cs"
  shows "\<exists>fd (used :: addrinfo) cs. opened h p fd m' \<and>
    mk_calls m' = cs @ S_bind fd (ai_addr used) # (if p = LO_TCP then [S_listen fd] else []) \<and>
    0 \<le> h_ret h (cs @ [S_bind fd (ai_addr used)]) \<and>
    (if p = LO_TCP then cs_tcp (lo_client_sockets m') = fd else cs_udp (lo_client_sockets m') = fd) \<and>
    (ai_family used \<noteq> AF_OTHER \<longrightarrow> ls_port s = int (h_addr_port h (ai_addr used))) \<and>
    so_fds (ls_socks s) = [fd] \<and> sockets_ok (ls_socks s) \<and> sv_protocol (ls_core s) = p \<and>
    sv_methods (ls_core s) = [] \<and> sv_queued (ls_core s) = [] \<and> sv_coerce (ls_core s) \<and> sv_enqueue (ls_core s)"
proof -
  define a where "a = new_loop h grp port iface ip 16 (blank_server p err_h) m"
  have a: "new_finish h port a = Some (Ref s, m')" using assms(1-3)
    by (auto simp: a_def lo_server_new_with_proto_internal_def split: if_splits)
  have ok: "bound_ok h p err_h a" unfolding a_def by (rule new_loop_ok [OF made_from_blank])
  obtain used s0 m0 where b: "a = Bound used s0 m0" using a by (cases a) (auto simp: new_finish_def)
  then obtain fd cs where fd: "opened h p fd m0" "made_from p err_h fd s0" "0 \<le> h_ret h (mk_calls m0)"
    "mk_calls m0 = cs @ [S_bind fd (ai_addr used)]" using ok by (auto simp: bound_ok_def)
  have s0: "hd (so_fds (ls_socks s0)) = fd" "ls_protocol s0 = p" using made_from_fd(1,2) [OF fd(2)] by auto
  have s: "ls_core s = ls_core s0 \<and> ls_socks s = ls_socks s0 \<and> (ai_family used \<noteq> AF_OTHER \<longrightarrow> ls_port s = int (h_addr_port h (ai_addr used)))"
    using a b by (auto simp: new_finish_def Let_def split: if_splits ptr.splits)
  have m': "mk_calls m' = mk_calls m0 @ (if p = LO_TCP then [S_listen fd] else []) \<and>
      (if p = LO_TCP then cs_tcp (lo_client_sockets m') = fd else cs_udp (lo_client_sockets m') = fd)"
    using a b s0 assms(3) by (cases p) (auto simp: new_finish_def Let_def call_only_def split: if_splits ptr.splits)
  have "only_calls m0 m'" using m' by (auto simp: only_calls_def)
  then have o: "opened h p fd m'" using opened_keeps [OF fd(1)] by blast
  have "0 \<le> fd" using fd(1) assms(4) by (auto simp: opened_def) (metis add.commute zless_add1_eq order_le_imp_less_or_eq add.right_inverse zle_add1_eq_le add_0 zless_imp_add1_zle)
  then show ?thesis
    by (intro exI [of _ fd] exI [of _ used] exI [of _ cs])
      (use o s m' fd in \<open>auto simp: made_from_def with_fd_def blank_server_def sockets_ok_def\<close>)
qed

text \<open>A host where the first port is taken and the second call of \<open>bind\<close> succeeds.\<close>

definition binds :: "sv_call list \<Rightarrow> nat" where
  "binds cs = length (filter (\<lambda>c. case c of S_bind _ _ \<Rightarrow> True | _ \<Rightarrow> False) cs)"

definition sample_host :: "nat \<Rightarrow> host" where
  "sample_host taken =
     \<lparr>h_ret = (\<lambda>cs. case last cs of
          S_socket _ _ \<Rightarrow> int (length cs)
        | S_bind _ _ \<Rightarrow> if binds cs \<le> taken then - 1 else 0
        | _ \<Rightarrow> 0),
      h_errno = (\<lambda>_. EADDRINUSE), h_getaddrinfo = (\<lambda>_. Inr [\<lparr>ai_family = AF_INET, ai_addr = ''any''\<rparr>]),
      h_pton = (\<lambda>_. NULL), h_pton_if = (\<lambda>_. NULL), h_ifas = None, h_addr_port = (\<lambda>_. 7770), h_random = (\<lambda>_. 0),
      h_al = al_zero\<rparr>"

definition sample_making :: making where
  "sample_making = \<lparr>mk_calls = [], lo_client_sockets = \<lparr>cs_udp = - 1, cs_tcp = - 1\<rparr>, reuseport_supported = True, mk_errors = []\<rparr>"

lemmas construct_defs = lo_server_new_with_proto_def lo_server_new_with_proto_internal_def new_finish_def new_attempt_def
  prepare_socket_def reuseaddr_fails_def bind_socket_def lo_server_free_def give_up_def throw_def
  sys_def call_only_def geterror_def blank_server_def with_fd_def real_proto_def

lemma new_loop_numeral:
  "new_loop h grp port iface ip (numeral k) s m =
     (case new_attempt h grp port iface ip s m of
        Retry s1 m1 \<Rightarrow> new_loop h grp port iface ip (pred_numeral k) s1 m1
      | a \<Rightarrow> a)"
  by (simp add: numeral_eq_Suc)

lemma sample_ret: "- 1 \<le> h_ret (sample_host n) cs"
  by (auto simp: sample_host_def split: sv_call.splits)

lemma sample_tcp_server:
  obtains s m' where "lo_server_new_with_proto (sample_host 1) (Ref ''7770'') 4 True sample_making = Some (Ref s, m')"
    "mk_calls m' = [S_getaddrinfo ''7770'', S_socket AF_INET LO_TCP, S_setsockopt 2 Opt_reuseaddr, S_bind 2 ''any'',
       S_getaddrinfo ''7770'', S_socket AF_INET LO_TCP, S_setsockopt 6 Opt_reuseaddr, S_bind 6 ''any'', S_listen 6]"
  by (simp add: construct_defs new_loop_numeral sample_host_def sample_making_def binds_def al_zero_def proto_of_def EINVAL_def EADDRINUSE_def)

theorem new_server_ready_witness:
  "\<exists>s m'. lo_server_new_with_proto (sample_host 1) (Ref ''7770'') 4 True sample_making = Some (Ref s, m') \<and>
     so_fds (ls_socks s) = [6] \<and> opened (sample_host 1) LO_TCP 6 m' \<and> cs_tcp (lo_client_sockets m') = 6 \<and>
     sockets_ok (ls_socks s) \<and> sv_queued (ls_core s) = []"
proof -
  obtain s m' where s: "lo_server_new_with_proto (sample_host 1) (Ref ''7770'') 4 True sample_making = Some (Ref s, m')"
    and m': "mk_calls m' = [S_getaddrinfo ''7770'', S_socket AF_INET LO_TCP, S_setsockopt 2 Opt_reuseaddr, S_bind 2 ''any'',
       S_getaddrinfo ''7770'', S_socket AF_INET LO_TCP, S_setsockopt 6 Opt_reuseaddr, S_bind 6 ''any'', S_listen 6]"
    by (rule sample_tcp_server)
  have "real_proto (Ref ''7770'') 4 = Some LO_TCP" by (simp add: real_proto_def proto_of_def)
  from new_server_ready [OF s [unfolded lo_server_new_with_proto_def] this _ sample_ret] obtain fd used cs where
    "opened (sample_host 1) LO_TCP fd m'" "mk_calls m' = cs @ [S_bind fd (ai_addr (used :: addrinfo)), S_listen fd]"
    "cs_tcp (lo_client_sockets m') = fd" "ai_family used \<noteq> AF_OTHER \<longrightarrow> ls_port s = int (h_addr_port (sample_host 1) (ai_addr used))"
    "so_fds (ls_socks s) = [fd]" "sockets_ok (ls_socks s)" "sv_queued (ls_core s) = []"
    by auto
  then show ?thesis using s m' by auto
qed

section \<open>What is left open\<close>

text \<open>The sockets opened, and those closed, in a history.\<close>

definition sockets_made :: "sv_call list \<Rightarrow> nat" where
  "sockets_made cs = length (filter (\<lambda>c. case c of S_socket _ _ \<Rightarrow> True | _ \<Rightarrow> False) cs)"

definition sockets_closed :: "sv_call list \<Rightarrow> nat" where
  "sockets_closed cs = length (filter (\<lambda>c. case c of S_close _ \<Rightarrow> True | _ \<Rightarrow> False) cs)"

lemma sockets_counted [simp]:
  "sockets_made [] = 0" "sockets_closed [] = 0"
  "sockets_made (cs @ cs') = sockets_made cs + sockets_made cs'" "sockets_closed (cs @ cs') = sockets_closed cs + sockets_closed cs'"
  "sockets_made (c # cs) = (case c of S_socket _ _ \<Rightarrow> 1 | _ \<Rightarrow> 0) + sockets_made cs"
  "sockets_closed (c # cs) = (case c of S_close _ \<Rightarrow> 1 | _ \<Rightarrow> 0) + sockets_closed cs"
  by (simp_all add: sockets_made_def sockets_closed_def split: sv_call.splits)

text \<open>A host that has one address for the service, and on which that address is always in use.\<close>

definition port_taken :: "host \<Rightarrow> bool" where
  "port_taken h \<longleftrightarrow> (\<forall>cs. \<exists>a. h_getaddrinfo h cs = Inr [a]) \<and>
     (\<forall>cs fam p. 0 \<le> h_ret h (cs @ [S_socket fam p])) \<and>
     (\<forall>cs fd a. h_ret h (cs @ [S_bind fd a]) < 0 \<and> h_errno h (cs @ [S_bind fd a]) = EADDRINUSE)"

lemma new_attempt_taken:
  assumes "port_taken h" "made_from LO_UDP e fd0 s"
  shows "\<exists>s' m' fd. new_attempt h NULL port iface ip s m = Retry s' m' \<and> made_from LO_UDP e fd s' \<and> 0 \<le> fd \<and>
    sockets_made (mk_calls m') = sockets_made (mk_calls m) + 1 \<and> sockets_closed (mk_calls m') = sockets_closed (mk_calls m) \<and>
    mk_errors m' = mk_errors m"
proof -
  define m1 where "m1 = call_only (S_getaddrinfo (case port of Ref p \<Rightarrow> p | NULL \<Rightarrow> dec (10000 + h_random h (mk_calls m) mod 10000))) m"
  obtain a where a: "h_getaddrinfo h (mk_calls m1) = Inr [a]" using assms(1) unfolding port_taken_def by blast
  have h: "\<And>cs fam p. 0 \<le> h_ret h (cs @ [S_socket fam p])" "\<And>cs fam p. h_ret h (cs @ [S_socket fam p]) \<noteq> - 1"
    "\<And>cs fd a. h_ret h (cs @ [S_bind fd a]) < 0" "\<And>cs fd a. h_errno h (cs @ [S_bind fd a]) = EADDRINUSE"
    using assms(1) unfolding port_taken_def by auto (smt (verit))
  define s1 where "s1 = with_fd (- 1) s\<lparr>ls_port := 0\<rparr>"
  have s1: "made_from LO_UDP e (- 1) s1" using made_from_fd(3,4) [OF assms(2)] made_from_fd(4) by (simp add: s1_def)
  define fd where "fd = h_ret h (mk_calls m1 @ [S_socket (ai_family a) LO_UDP])"
  have m1: "mk_errors m1 = mk_errors m" "sockets_made (mk_calls m1) = sockets_made (mk_calls m)"
    "sockets_closed (mk_calls m1) = sockets_closed (mk_calls m)" by (simp_all add: m1_def call_only_def)
  obtain m2 where t: "try_sockets h LO_UDP [a] NULL m1 = (fd, Ref a, m2)" and m2: "mk_errors m2 = mk_errors m"
    "sockets_made (mk_calls m2) = sockets_made (mk_calls m) + 1" "sockets_closed (mk_calls m2) = sockets_closed (mk_calls m)"
    using h(2) m1 by (auto simp: sys_def fd_def call_only_def)
  have fd: "made_from LO_UDP e fd (with_fd fd s1)" "0 \<le> fd" using made_from_fd(3) [OF s1] h(1) by (auto simp: fd_def)
  have "new_attempt h NULL port iface ip s m = bind_socket h (with_fd fd s1) a m2"
    using a t fd(2) made_from_fd(2) [OF s1] made_from_fd(2) [OF fd(1)]
    by (simp add: new_attempt_def m1_def [symmetric] s1_def [symmetric] Let_def prepare_socket_def)
  moreover have "bind_socket h (with_fd fd s1) a m2 = Retry (with_fd fd s1) (m2\<lparr>mk_calls := mk_calls m2 @ [S_bind fd (ai_addr a)]\<rparr>)"
    using h(3,4) made_from_fd(1) [OF fd(1)] by (simp add: bind_socket_def sys_def geterror_def)
  ultimately show ?thesis using fd m2 by auto
qed

lemma new_loop_taken:
  assumes "port_taken h" "made_from LO_UDP e fd0 s"
  shows "\<exists>s' m' fd. new_loop h NULL port iface ip tries s m = Retry s' m' \<and> made_from LO_UDP e fd s' \<and> 0 \<le> fd \<and>
    sockets_made (mk_calls m') = sockets_made (mk_calls m) + tries + 1 \<and>
    sockets_closed (mk_calls m') = sockets_closed (mk_calls m) \<and> mk_errors m' = mk_errors m"
  using assms(2)
proof (induction tries arbitrary: s m fd0)
  case 0
  then show ?case using new_attempt_taken [OF assms(1) 0] by simp
next
  case (Suc tries)
  obtain s1 m1 fd where a: "new_attempt h NULL port iface ip s m = Retry s1 m1" "made_from LO_UDP e fd s1"
    "sockets_made (mk_calls m1) = sockets_made (mk_calls m) + 1" "sockets_closed (mk_calls m1) = sockets_closed (mk_calls m)"
    "mk_errors m1 = mk_errors m"
    using new_attempt_taken [OF assms(1) Suc.prems] by blast
  then show ?case using Suc.IH [OF a(2), of m1] by simp
qed

lemma give_up_closes:
  assumes "made_from p e fd s" "fd \<noteq> - 1"
  shows "mk_calls (give_up s err path m) = mk_calls m @ [S_close fd]"
    "mk_errors (give_up s err path m) = mk_errors m @ (if e then [(err, path)] else [])"
  using assms by (auto simp: give_up_def lo_server_free_def made_from_def with_fd_def blank_server_def throw_def call_only_def Let_def)

text \<open>
  C36: When the port of a UDP server stays taken, on a host with one address to bind to (\<open>port_taken\<close>),
  construction ends after seventeen rounds with the error \<open>LO_NOPORT\<close>. Each round has opened a socket, but only that of the last one is closed: the other sixteen stay open.
\<close>

theorem taken_port_leaks_sockets:
  assumes "port_taken h" "h_al h At_struct 0 \<noteq> None" "h_al h At_data 2 \<noteq> None"
  shows "\<exists>m'. lo_server_new_with_proto h port 1 True m = Some (NULL, m') \<and>
    sockets_made (mk_calls m') = sockets_made (mk_calls m) + 17 \<and>
    sockets_closed (mk_calls m') = sockets_closed (mk_calls m) + 1 \<and>
    mk_errors m' = mk_errors m @ [(LO_NOPORT, None)]"
proof -
  obtain s' m' fd where l: "new_loop h NULL port NULL NULL 16 (blank_server LO_UDP True) m = Retry s' m'"
    "made_from LO_UDP True fd s'" "0 \<le> fd" "sockets_made (mk_calls m') = sockets_made (mk_calls m) + 17"
    "sockets_closed (mk_calls m') = sockets_closed (mk_calls m)" "mk_errors m' = mk_errors m"
    using new_loop_taken [OF assms(1) made_from_blank, of port NULL NULL 16 True m] by auto
  have "real_proto port 1 = Some LO_UDP" by (simp add: real_proto_def proto_of_def)
  then show ?thesis using assms(2,3) l give_up_closes [OF l(2), of LO_NOPORT None m']
    by (simp add: lo_server_new_with_proto_def lo_server_new_with_proto_internal_def new_finish_def)
qed

theorem taken_port_leaks_sockets_witness:
  "\<exists>m'. lo_server_new_with_proto (sample_host 0\<lparr>h_ret := \<lambda>cs. case last cs of S_bind _ _ \<Rightarrow> - 1 | _ \<Rightarrow> int (length cs)\<rparr>)
     (Ref ''7770'') 1 True sample_making = Some (NULL, m') \<and>
     sockets_made (mk_calls m') = 17 \<and> sockets_closed (mk_calls m') = 1 \<and> mk_errors m' = [(LO_NOPORT, None)]"
  using taken_port_leaks_sockets [of "sample_host 0\<lparr>h_ret := \<lambda>cs. case last cs of S_bind _ _ \<Rightarrow> - 1 | _ \<Rightarrow> int (length cs)\<rparr>" "Ref ''7770''" sample_making]
  by (simp add: port_taken_def sample_host_def sample_making_def al_zero_def)

section \<open>Release closes everything\<close>

lemma free_sockets_calls: "mk_calls (free_sockets p fds m) = mk_calls m @ map S_close (filter (\<lambda>fd. fd \<noteq> - 1) fds)"
  by (induction p fds m rule: free_sockets.induct) (simp_all add: call_only_def Let_def)

lemma free_sockets_clients:
  "lo_client_sockets (free_sockets p fds m) =
     (let cs = lo_client_sockets m in
      \<lparr>cs_udp = (if p = LO_UDP \<and> cs_udp cs \<in> set fds then - 1 else cs_udp cs),
       cs_tcp = (if p = LO_TCP \<and> cs_tcp cs \<in> set fds then - 1 else cs_tcp cs)\<rparr>)"
  by (induction p fds m rule: free_sockets.induct) (auto simp: call_only_def Let_def)

lemma free_sockets_rest: "mk_errors (free_sockets p fds m) = mk_errors m" "reuseport_supported (free_sockets p fds m) = reuseport_supported m"
  by (induction p fds m rule: free_sockets.induct) (simp_all add: call_only_def Let_def)

text \<open>
  \<open>lo_server_free\<close> closes every open socket of the server, the newest first, and removes the socket file of
  a UNIX server; the global client socket of its protocol is forgotten exactly when it was one of them, so no
  sender uses a closed descriptor. Each queued message loses one reference.
\<close>

theorem server_free_closes_all:
  "lo_server_free (Ref s) m =
     (m\<lparr>mk_calls := mk_calls m @ map S_close (filter (\<lambda>fd. fd \<noteq> - 1) (rev (so_fds (ls_socks s)))) @
          (case ls_path s of Ref p \<Rightarrow> if ls_protocol s = LO_UNIX then [S_unlink p] else [] | NULL \<Rightarrow> []),
        lo_client_sockets :=
          \<lparr>cs_udp = (if ls_protocol s = LO_UDP \<and> cs_udp (lo_client_sockets m) \<in> set (so_fds (ls_socks s)) then - 1
                     else cs_udp (lo_client_sockets m)),
           cs_tcp = (if ls_protocol s = LO_TCP \<and> cs_tcp (lo_client_sockets m) \<in> set (so_fds (ls_socks s)) then - 1
                     else cs_tcp (lo_client_sockets m))\<rparr>\<rparr>,
      map (\<lambda>q. lo_message_free (Ref (q_msg q))) (sv_queued (ls_core s)))"
proof -
  define m1 where "m1 = free_sockets (ls_protocol s) (rev (so_fds (ls_socks s))) m"
  note f = free_sockets_calls [of "ls_protocol s" "rev (so_fds (ls_socks s))" m, folded m1_def]
    free_sockets_clients [of "ls_protocol s" "rev (so_fds (ls_socks s))" m, folded m1_def]
    free_sockets_rest [of "ls_protocol s" "rev (so_fds (ls_socks s))" m, folded m1_def]
  show ?thesis
    by (cases "ls_path s")
      (auto simp: lo_server_free_def m1_def [symmetric] call_only_def f Let_def intro!: making.equality)
qed

end
