(* ===== verification/SendFrom.thy ===== *)
theory SendFrom
  imports Send
begin

text \<open>
  Sending from a server (\<open>lo_send_message_from\<close>, \<open>lo_send_bundle_from\<close> and \<open>lo_send_from\<close> of \<open>src/send.c\<close> with
  a server): what this does to the socket table of the server. A new TCP connection is added to it, whatever
  the server's own protocol, and one that fails is removed.
\<close>

section \<open>Steps of a socket table\<close>

lemma add_socket_result:
  assumes "sockets_ok st" "lo_server_add_socket can_alloc st socket a = Some (i, st')" "0 \<le> i" "socket \<notin> set (so_fds st)"
  shows "sockets_ok st' \<and> so_fds st' = so_fds st @ [socket] \<and> 0 \<le> socket"
proof -
  have p: "0 \<le> socket" using assms(2,3) by (auto simp: lo_server_add_socket_def Let_def split: if_splits)
  have total: "lo_server_add_socket (\<lambda>_. True) st socket a = Some (i, st')"
    using assms(2,3) by (auto simp: lo_server_add_socket_def Let_def split: if_splits)
  then show ?thesis
    using total add_socket_ok [OF assms(1) p assms(4) _ total] add_socket_eq [OF assms(1) p, of "\<lambda>_. True" a] p by auto
qed

lemma add_socket_refused: "lo_server_add_socket can_alloc st socket a = Some (i, st') \<Longrightarrow> \<not> 0 \<le> i \<Longrightarrow> st' = st"
  by (auto simp: lo_server_add_socket_def Let_def split: if_splits)

text \<open>The first socket, which listens or gets the datagrams, stays the first; others come and go.\<close>

definition sockets_step :: "'a sockets \<Rightarrow> 'a sockets \<Rightarrow> bool" where
  "sockets_step st st' \<longleftrightarrow> sockets_ok st' \<and> hd (so_fds st') = hd (so_fds st)"

lemma sockets_step_trans: "sockets_step st t \<Longrightarrow> sockets_step t u \<Longrightarrow> sockets_step st u"
  by (simp add: sockets_step_def)

lemma del_socket_step:
  assumes "sockets_ok st" "0 < i" "i < length (so_fds st)" "lo_server_del_socket st (int i) fd = Some st'"
  shows "sockets_step st st' \<and> i \<le> length (so_fds st')"
proof -
  have "st' = st\<lparr>so_fds := take i (so_fds st) @ drop (Suc i) (so_fds st),
             so_sources := (so_sources st)[nat (so_fds st ! i) := NULL],
             so_contexts := (so_contexts st)[i := zero_context]\<rparr>"
    using del_socket_eq [OF assms(1-3), of "int i" fd] assms(4) by simp
  then show ?thesis using del_socket_ok [OF assms(1-3)] assms(2,3) by (cases "so_fds st"; cases i) (auto simp: sockets_step_def)
qed

lemma find_fd_absent: "fd \<notin> set fds \<Longrightarrow> find_fd fds fd = length fds"
  by (induction fds) auto

text \<open>Removing a socket by its descriptor.\<close>

lemma del_socket_fd:
  assumes "sockets_ok st" "fd \<noteq> hd (so_fds st)" "lo_server_del_socket st (- 1) fd = Some st'"
  shows "sockets_step st st' \<and> set (so_fds st') = set (so_fds st) - {fd}"
proof (cases "fd \<in> set (so_fds st)")
  case False
  then have "st' = st" using assms(3) find_fd_absent [of fd "so_fds st"]
    by (cases "fd = - 1") (simp_all add: lo_server_del_socket_def)
  then show ?thesis using False assms(1) by (simp add: sockets_step_def)
next
  case True
  then obtain i where i: "i < length (so_fds st)" "so_fds st ! i = fd" by (auto simp: in_set_conv_nth)
  then have pos: "0 < i" using assms(2) by (cases i) (auto simp: hd_conv_nth)
  have st': "st' = st\<lparr>so_fds := take i (so_fds st) @ drop (Suc i) (so_fds st),
             so_sources := (so_sources st)[nat (so_fds st ! i) := NULL],
             so_contexts := (so_contexts st)[i := zero_context]\<rparr>"
    using del_socket_eq [OF assms(1) pos i(1), of "- 1" fd] i(2) assms(3) by simp
  then have ok: "sockets_ok st'" using del_socket_ok [OF assms(1) pos i(1)] by simp
  have d: "distinct (take i (so_fds st) @ fd # drop (Suc i) (so_fds st))"
    using assms(1) id_take_nth_drop [OF i(1)] i(2) by (simp add: sockets_ok_def)
  have "set (so_fds st) = insert fd (set (take i (so_fds st)) \<union> set (drop (Suc i) (so_fds st)))"
    using arg_cong [OF id_take_nth_drop [OF i(1)], of set] i(2) by auto
  then have "set (so_fds st') = set (so_fds st) - {fd}" using d unfolding st' by auto
  moreover have "hd (so_fds st') = hd (so_fds st)" using pos i(1) unfolding st' by (cases "so_fds st"; cases i) auto
  ultimately show ?thesis using ok by (simp add: sockets_step_def)
qed

section \<open>The table while something is sent\<close>

text \<open>
  \<open>l\<close> is the first socket of the server. The descriptors of its table, the destination's own one apart,
  are in \<open>F\<close>, and the system gives none of these to a new socket (\<open>fresh_sockets\<close>). The destination is not the
  server's first socket.
\<close>

definition fresh_sockets :: "os \<Rightarrow> int set \<Rightarrow> bool" where
  "fresh_sockets os F \<longleftrightarrow> (\<forall>calls p fam. os_ret os (calls @ [C_socket p fam]) \<notin> F)"

definition from_inv :: "int \<Rightarrow> int set \<Rightarrow> sending \<Rightarrow> bool" where
  "from_inv l F s \<longleftrightarrow> (\<exists>st. sd_from s = Ref st \<and> sockets_ok st \<and> hd (so_fds st) = l \<and>
     a_socket (sd_addr s) \<noteq> l \<and> set (so_fds st) - {a_socket (sd_addr s)} \<subseteq> F)"

lemma from_inv_cong:
  "sd_from s' = sd_from s \<Longrightarrow> a_socket (sd_addr s') = a_socket (sd_addr s) \<Longrightarrow> from_inv l F s' = from_inv l F s"
  by (simp add: from_inv_def)

lemma os_do_from: "os_do os c s = (r, s') \<Longrightarrow> sd_from s' = sd_from s \<and> sd_addr s' = sd_addr s"
  by (auto simp: os_do_def)

lemma os_set_from [simp]: "sd_from (os_set os c s) = sd_from s"
  by (simp add: os_set_def os_do_def)

lemma set_addr_from [simp]: "sd_from (set_addr f s) = sd_from s"
  by (simp add: set_addr_def)

lemma set_errno_from [simp]: "sd_from (set_errno os s) = sd_from s" "a_socket (sd_addr (set_errno os s)) = a_socket (sd_addr s)"
  by (simp_all add: set_errno_def)

lemma set_nodelay_from [simp]: "sd_from (set_nodelay os s) = sd_from s" "sd_addr (set_nodelay os s) = sd_addr s"
  by (simp_all add: set_nodelay_def)

lemma resolve_socket: "a_socket (snd (lo_address_resolve res a)) = a_socket a"
  by (simp add: lo_address_resolve_def resolved_def lo_address_resolve_source_def Let_def
      split: option.splits sum.splits ptr.splits prod.splits bool.splits)

text \<open>A socket is made only when the destination has none: then the table is in \<open>F\<close>.\<close>

lemma create_socket_from:
  assumes "create_socket os s = Some (r, s')"
  shows "sd_from s' = sd_from s \<and>
    (a_socket (sd_addr s') = - 1 \<or> a_socket (sd_addr s') = a_socket (sd_addr s) \<or>
     (\<exists>calls p fam. a_socket (sd_addr s') = os_ret os (calls @ [C_socket p fam])))"
proof -
  have new: "sd_from s1 = sd_from s \<and> sd_addr s1 = sd_addr s \<and> (\<exists>calls p fam. fd = os_ret os (calls @ [C_socket p fam]))"
    if "os_do os (C_socket p fam) s = (fd, s1)" for p fam fd s1
    using that by (auto simp: os_do_def)
  have connect: "sd_from s1 = sd_from t \<and> sd_addr s1 = sd_addr t" if "os_do os (C_connect fd) t = (r, s1)" for fd t r s1
    by (rule os_do_from [OF that])
  show ?thesis
    using assms
    by (auto simp: create_socket_def fail_socket_def Let_def split: option.splits prod.splits proto.splits list.splits if_splits
        dest!: new connect) blast+
qed

lemma fds_nonneg: "sockets_ok st \<Longrightarrow> - 1 \<notin> set (so_fds st) \<and> hd (so_fds st) \<in> set (so_fds st) \<and> 0 \<le> hd (so_fds st)"
  by (cases "so_fds st") (auto simp: sockets_ok_def)

lemma created_inv:
  assumes "from_inv l F s" "create_socket os s = Some (r, s')" "a_socket (sd_addr s) = - 1" "fresh_sockets os F" "0 \<le> l"
  shows "from_inv l F s'"
proof -
  obtain st where st: "sd_from s = Ref st" "sockets_ok st" "hd (so_fds st) = l" "set (so_fds st) - {- 1} \<subseteq> F"
    using assms(1,3) by (auto simp: from_inv_def)
  have all: "set (so_fds st) \<subseteq> F" "l \<in> F" using st fds_nonneg [OF st(2)] by auto
  have "a_socket (sd_addr s') \<noteq> l"
    using create_socket_from [OF assms(2)] assms(3-5) all(2) by (auto simp: fresh_sockets_def)
  then show ?thesis using create_socket_from [OF assms(2)] st all by (auto simp: from_inv_def)
qed

lemma adopted_inv:
  assumes "from_inv l F s" "adopt_socket os s = Some s'" "\<forall>st. sd_from s = Ref st \<longrightarrow> a_socket (sd_addr s) \<notin> set (so_fds st)"
  shows "from_inv l F s'"
proof -
  obtain st where st: "sd_from s = Ref st" "sockets_ok st" "hd (so_fds st) = l" "a_socket (sd_addr s) \<noteq> l"
      "set (so_fds st) - {a_socket (sd_addr s)} \<subseteq> F"
    using assms(1) by (auto simp: from_inv_def)
  show ?thesis
  proof (cases "s' = s")
    case False
    then obtain i st' where add: "lo_server_add_socket (os_can_alloc os) st (a_socket (sd_addr s)) (lo_address_copy (os_al os) (sd_addr s)) = Some (i, st')"
        "s' = s\<lparr>sd_from := Ref st', sd_addr := (sd_addr s)\<lparr>a_ownsocket := False\<rparr>\<rparr>"
      using assms(2) st(1) by (auto simp: adopt_socket_def split: if_splits bind_splits)
    have "sockets_ok st' \<and> hd (so_fds st') = l \<and> set (so_fds st') - {a_socket (sd_addr s)} \<subseteq> F"
    proof (cases "0 \<le> i")
      case True
      have "a_socket (sd_addr s) \<notin> set (so_fds st)" using assms(3) st(1) by simp
      from add_socket_result [OF st(2) add(1) True this] show ?thesis
        using st(2,3,5) by (auto simp: hd_append sockets_ok_def)
    next
      case False
      then show ?thesis using add_socket_refused [OF add(1)] st by simp
    qed
    then show ?thesis using add(2) st(4) by (simp add: from_inv_def)
  qed (use assms(1) in simp)
qed

lemma pick_socket_inv:
  assumes "from_inv l F s" "pick_socket os s = Some (p, s')" "fresh_sockets os F" "0 \<le> l"
  shows "from_inv l F s'"
proof -
  obtain st where st: "sd_from s = Ref st" "sockets_ok st" using assms(1) by (auto simp: from_inv_def)
  show ?thesis
  proof (cases "s' = s")
    case False
    then have minus: "a_socket (sd_addr s) = - 1" using assms(2) st(1)
      by (auto simp: pick_socket_def Let_def split: list.splits bool.splits if_splits bind_splits)
    obtain r s1 where s1: "create_socket os s = Some (r, s1)" "s' = s1 \<or> adopt_socket os s1 = Some s'"
      using assms(2) st(1) False minus by (auto simp: pick_socket_def Let_def split: list.splits bool.splits if_splits bind_splits)
    have inv: "from_inv l F s1" by (rule created_inv [OF assms(1) s1(1) minus assms(3,4)])
    have "\<forall>st'. sd_from s1 = Ref st' \<longrightarrow> a_socket (sd_addr s1) \<notin> set (so_fds st')"
    proof -
      have "- 1 \<notin> set (so_fds st)" using fds_nonneg [OF st(2)] by blast
      moreover from this have "set (so_fds st) \<subseteq> F" using assms(1) st minus by (auto simp: from_inv_def)
      ultimately show ?thesis
        using create_socket_from [OF s1(1)] minus st(1) assms(3) by (auto simp: fresh_sockets_def)
    qed
    then show ?thesis using s1(2) adopted_inv [OF inv] inv by blast
  qed (use assms(1) in simp)
qed

lemma send_loops_from:
  "sendto_loop os sock data ais s = Some (r, s') \<Longrightarrow> sd_from s' = sd_from s \<and> sd_addr s' = sd_addr s"
  "send_loop os sock data ais s = Some (r, s') \<Longrightarrow> sd_from s' = sd_from s \<and> sd_addr s' = sd_addr s"
  by (induction ais arbitrary: s) (auto split: prod.splits if_splits dest!: os_do_from)

lemma transmit_from:
  "send_udp os sock data s = Some (r, s') \<Longrightarrow> sd_from s' = sd_from s \<and> sd_addr s' = sd_addr s"
  "send_stream os sock data s = Some (r, s') \<Longrightarrow> sd_from s' = sd_from s \<and> sd_addr s' = sd_addr s"
  by (auto simp: send_udp_def send_stream_def Let_def dest!: send_loops_from os_do_from split: if_splits bind_splits)

lemma finish_send_inv:
  assumes "from_inv l F s" "finish_send os r s = Some s'" "0 \<le> l"
  shows "from_inv l F s'"
proof (cases "r = - 1 \<and> a_protocol (sd_addr s) = Some LO_TCP")
  case False
  then have "sd_from s' = sd_from s" "a_socket (sd_addr s') = a_socket (sd_addr s)"
    using assms(2) by (auto simp: finish_send_def split: if_splits)
  then show ?thesis using assms(1) from_inv_cong by blast
next
  case True
  obtain st where st: "sd_from s = Ref st" "sockets_ok st" "hd (so_fds st) = l" "a_socket (sd_addr s) \<noteq> l"
      "set (so_fds st) - {a_socket (sd_addr s)} \<subseteq> F"
    using assms(1) by (auto simp: from_inv_def)
  then obtain st' where d: "lo_server_del_socket st (- 1) (a_socket (sd_addr s)) = Some st'"
      "sd_from s' = Ref st'" "a_socket (sd_addr s') = - 1"
    using assms(2) True by (auto simp: finish_send_def split: bind_splits)
  from del_socket_fd [OF st(2) _ d(1)] show ?thesis
    using st d(2,3) assms(3) by (auto simp: from_inv_def sockets_step_def)
qed

lemma send_data_inv:
  assumes "from_inv l F s" "send_data os data s = Some (r, s')" "fresh_sockets os F" "0 \<le> l"
  shows "from_inv l F s'"
proof (cases "length data > LO_MAX_MSG_SIZE")
  case True
  then have "sd_from s' = sd_from s" "a_socket (sd_addr s') = a_socket (sd_addr s)"
    using assms(2) by (auto simp: send_data_def)
  then show ?thesis using assms(1) from_inv_cong by blast
next
  case False
  define x where "x = (if a_ai (sd_addr s) = [] then lo_address_resolve (os_resolve os) (sd_addr s) else (0, sd_addr s))"
  obtain r0 a where x: "x = (r0, a)" by (cases x)
  define s1 where "s1 = s\<lparr>sd_addr := a\<rparr>"
  have "a_socket (snd x) = a_socket (sd_addr s)" by (simp add: x_def resolve_socket)
  then have "a_socket a = a_socket (sd_addr s)" by (simp add: x)
  then have s1: "from_inv l F s1" using assms(1) from_inv_cong [of s1 s] by (simp add: s1_def)
  have D: "(if r0 \<noteq> 0 then Some (r0, s1)
      else do {
        (picked, s2) \<leftarrow> pick_socket os s1;
        (case picked of
           Inl ret \<Rightarrow> Some (ret, s2)
         | Inr sock \<Rightarrow>
             let tcp = (a_protocol (sd_addr s2) = Some LO_TCP);
                 (ret0, s3) = (if tcp \<and> a_flags (sd_addr s2) AND LO_SLIP = 0
                   then os_do os (C_send sock (be32 (word_of_nat (length data)))) s2 else (0, s2))
             in do {
               (ret, s4) \<leftarrow> (if ret0 = - 1 then Some (ret0, s3)
                              else if a_protocol (sd_addr s3) = Some LO_UDP then send_udp os sock data s3
                              else send_stream os sock data s3);
               s5 \<leftarrow> finish_send os ret s4;
               Some (ret, s5)
             })
      }) = Some (r, s')"
    using assms(2) False unfolding send_data_def x_def [symmetric] x s1_def [symmetric]
    by (simp add: s1_def [symmetric] cong: if_cong)
  show ?thesis
  proof (cases "r0 = 0")
    case True
    then obtain picked s2 where p: "pick_socket os s1 = Some (picked, s2)" using D by (auto split: bind_splits)
    have s2: "from_inv l F s2" by (rule pick_socket_inv [OF s1 p assms(3,4)])
    show ?thesis
    proof (cases picked)
      case (Inr sock)
      obtain ret s3 s4 where "sd_from s3 = sd_from s2" "sd_addr s3 = sd_addr s2"
          "s4 = s3 \<or> send_udp os sock data s3 = Some (ret, s4) \<or> send_stream os sock data s3 = Some (ret, s4)"
          "finish_send os ret s4 = Some s'"
        using D True p Inr by (auto simp: Let_def split: bind_splits if_splits prod.splits dest: os_do_from)
      then have "sd_from s4 = sd_from s2" "sd_addr s4 = sd_addr s2" "finish_send os ret s4 = Some s'"
        by (auto dest!: transmit_from)
      then show ?thesis using s2 from_inv_cong [of s4 s2] finish_send_inv [OF _ _ assms(4)] by metis
    qed (use D True p s2 in auto)
  qed (use D s1 in auto)
qed

section \<open>The operations\<close>

text \<open>The effect of sending from a server, by any of the three operations.\<close>

definition sends_from :: "bool \<Rightarrow> os \<Rightarrow> sending \<Rightarrow> sending \<Rightarrow> bool" where
  "sends_from be os s s' \<longleftrightarrow>
     (\<exists>r path msg. lo_send_message_from be os path msg s = Some (r, s')) \<or>
     (\<exists>r fuel h b. lo_send_bundle_from fuel be os h b s = Some (r, s')) \<or>
     (\<exists>r al to_float ts path types ap. lo_send_from_varargs_internal al be to_float os ts path types ap s = Some (r, s'))"

lemma sends_from_inv:
  assumes "sends_from be os s s'" "from_inv l F s" "fresh_sockets os F" "0 \<le> l"
  shows "from_inv l F s'"
proof -
  have data: "from_inv l F t \<longrightarrow> from_inv l F t'" if "send_data os d t = Some (r, t')" for d t r t'
    using send_data_inv [OF _ that assms(3,4)] by blast
  have m: "from_inv l F t'" if "lo_send_message_from be os path msg t = Some (r, t')" "from_inv l F t" for path msg t r t'
    using that by (auto simp: lo_send_message_from_def split: bind_splits if_splits dest!: data)
  have b: "from_inv l F t'" if "lo_send_bundle_from fuel be os h b t = Some (r, t')" "from_inv l F t" for fuel h b t r t'
    using that by (auto simp: lo_send_bundle_from_def split: bind_splits if_splits dest!: data)
  have c: "from_inv l F (clear_error s)" using assms(2) from_inv_cong [of "clear_error s" s] by (simp add: clear_error_def)
  have v: "from_inv l F s'" if V: "lo_send_from_varargs_internal al be to_float os ts path types ap s = Some (r, s')"
    for al to_float ts path types ap r
  proof -
    obtain ret msg where n: "new_varargs_message al be to_float types ap = Some (ret, msg)"
      using V by (auto simp: lo_send_from_varargs_internal_def split: bind_splits)
    consider "s' = clear_error s" | "lo_send_message_from be os path msg (clear_error s) = Some (r, s')"
      | h x where "lo_send_bundle_from 2 be os h x (clear_error s) = Some (r, s')"
      using V n by (auto simp: lo_send_from_varargs_internal_def Let_def split: bind_splits if_splits)
    then show ?thesis using c m [OF _ c] b [OF _ c] by cases auto
  qed
  show ?thesis using assms(1) m [OF _ assms(2)] b [OF _ assms(2)] v unfolding sends_from_def by blast
qed

text \<open>From the table before to the table after.\<close>

lemma sends_from_step:
  assumes "sends_from be os s s'" "sd_from s = Ref st" "sockets_ok st" "a_socket (sd_addr s) \<noteq> hd (so_fds st)"
    and "fresh_sockets os (set (so_fds st) - {a_socket (sd_addr s)})"
  shows "\<exists>st'. sd_from s' = Ref st' \<and> sockets_step st st'"
proof -
  have "0 \<le> hd (so_fds st)" using assms(3) by (cases "so_fds st") (auto simp: sockets_ok_def)
  from sends_from_inv [OF assms(1) _ assms(5) this] show ?thesis
    using assms(2-4) by (fastforce simp: from_inv_def sockets_step_def)
qed

section \<open>Adopting a connection\<close>

text \<open>
  A connection made for a TCP destination becomes one more socket of the server the message is sent from. No
  condition on the server's protocol: a UDP server gets a stream socket too, and its \<open>lo_server_recv\<close> then reads
  a datagram from its first socket whichever of them is ready.
\<close>

lemma sending_adopts_connection:
  assumes "sd_from s = Ref st" "a_protocol (sd_addr s) = Some LO_TCP" "a_socket (sd_addr s) = - 1" "sockets_ok st"
    and "create_socket os s = Some (0, s1)" "a_protocol (sd_addr s1) = Some LO_TCP" "0 \<le> a_socket (sd_addr s1)"
    and "unknown_source st (a_socket (sd_addr s1)) = Some True" "\<forall>n. os_can_alloc os n"
  shows "\<exists>s' st'. pick_socket os s = Some (Inr (a_socket (sd_addr s1)), s') \<and> sd_from s' = Ref st' \<and>
    so_fds st' = so_fds st @ [a_socket (sd_addr s1)] \<and> \<not> a_ownsocket (sd_addr s')"
proof -
  have can: "os_can_alloc os = (\<lambda>_. True)" using assms(9) by auto
  obtain st' where st': "lo_server_add_socket (\<lambda>_. True) st (a_socket (sd_addr s1)) (lo_address_copy (os_al os) (sd_addr s1)) =
      Some (int (length (so_fds st)), st')" "so_fds st' = so_fds st @ [a_socket (sd_addr s1)]"
    using add_socket_eq [OF assms(4,7), of "\<lambda>_. True"] by blast
  have "sd_from s1 = Ref st" using create_socket_from [OF assms(5)] assms(1) by simp
  then show ?thesis using assms(1-3,5-8) st' by (simp add: pick_socket_def adopt_socket_def can)
qed

end
