(* ===== verification/Lifetime.thy ===== *)
theory Lifetime
  imports Lifecycle SendFrom
begin

text \<open>
  A server from its construction to its release. \<open>lives\<close> is the set of the states a server can reach by
  the operations of \<open>src/server.c\<close> and by sending from it, in any order and with any input; every one of them satisfies
  \<open>server_inv\<close>, on which the other properties rest.
\<close>

section \<open>The queue\<close>

text \<open>
  The entries are in the order of their times, with the timetag of the bundle each came in, and
  hold the only reference to their messages.
\<close>

definition entry_ok :: "queued_msg \<Rightarrow> bool" where
  "entry_ok e \<longleftrightarrow> m_ts (q_msg e) = q_ts e \<and> m_refcount (q_msg e) = 1 \<and> NUL \<notin> set (q_path e)"

definition queue_ok :: "queued_msg list \<Rightarrow> bool" where
  "queue_ok q \<longleftrightarrow> sorted (map q_ts q) \<and> list_all entry_ok q"

lemma queue_ok_insert: "queue_ok q \<Longrightarrow> entry_ok e \<Longrightarrow> queue_ok (queue_insert e q)"
  by (simp add: queue_ok_def list_all_iff queue_insert_sorted)

lemma queue_ok_tail: "queue_ok (e # q) \<Longrightarrow> queue_ok q"
  by (simp add: queue_ok_def)

lemma deserialised_fresh: "lo_message_deserialise al be data n = Some (Ref m, r) \<Longrightarrow> m_refcount m = 0"
  by (auto simp: lo_message_deserialise_def Let_def split: bind_splits if_splits sum.splits)

text \<open>What dispatching does to a server beside its log: it may queue messages.\<close>

definition only_queues :: "server \<Rightarrow> server \<Rightarrow> bool" where
  "only_queues s s' \<longleftrightarrow> same_setup s s' \<and> mset (sv_queued s) \<subseteq># mset (sv_queued s') \<and>
     (queue_ok (sv_queued s) \<longrightarrow> queue_ok (sv_queued s'))"

lemma only_queues_refl [simp]: "only_queues s s"
  by (simp add: only_queues_def)

lemma only_queues_trans: "only_queues s t \<Longrightarrow> only_queues t u \<Longrightarrow> only_queues s u"
  by (auto simp: only_queues_def intro: same_setup_trans subset_mset.order_trans)

lemma only_queues_logged: "logged s s' \<Longrightarrow> only_queues s s'"
  by (simp add: only_queues_def logged_same_setup logged_fields)

lemma dispatch_method_queues: "dispatch_method env s mem msg sock = Some s' \<Longrightarrow> only_queues s s'"
  by (rule only_queues_logged [OF dispatch_method_logged])

lemma only_queues_emit [simp]: "only_queues s (emit e s') = only_queues s s'" "only_queues (emit e s) s' = only_queues s s'"
  by (simp_all add: only_queues_def) (simp_all add: emit_def)

lemma only_queues_throw [simp]: "only_queues s (lo_throw s' n p) = only_queues s s'"
  by (simp add: lo_throw_def)

lemma bundle_message_queues:
  assumes "bundle_message env s ts now mem m sock = Some s'" "m_refcount m = 0"
  shows "only_queues s s'"
proof (cases "immediate env s ts now")
  case True
  then show ?thesis using assms(1) by (auto simp: bundle_message_def dest: dispatch_method_queues)
next
  case False
  then obtain path where p: "cstr mem = Some path"
    and s': "s' = s\<lparr>sv_queued := queue_data (sv_queued s) ts path (lo_message_incref (m\<lparr>m_ts := ts\<rparr>)) sock\<rparr>"
    using assms(1) by (auto simp: bundle_message_def split: bind_splits)
  have "entry_ok \<lparr>q_ts = ts, q_path = path, q_msg = lo_message_incref (m\<lparr>m_ts := ts\<rparr>), q_sock = sock\<rparr>"
    using cstr_Some [OF p] assms(2) by (simp add: entry_ok_def lo_message_incref_def)
  then show ?thesis unfolding s' only_queues_def by (simp add: queue_data_def queue_insert_mset queue_ok_insert)
qed

lemma dispatch_queues_step:
  assumes elements: "\<And>bs s rem ts now mem c s'. length bs < length data \<Longrightarrow>
      dispatch_elements env s bs rem ts now mem sock = Some (c, s') \<Longrightarrow> only_queues s s'"
    and "dispatch_data env s data sz sock = Some (r, s')"
  shows "only_queues s s'"
proof -
  have el: "only_queues s s2" if "dispatch_elements env s (drop (k + 8) data) rem ts now mem sock = Some (c, s2)"
    "rd_host32 be (drop k data) = Some w" for k rem ts now mem c s2 be w
    using elements [OF _ that(1)] rd_host32_length [OF that(2)] by auto
  have el_started: "only_queues s s2" if "dispatch_elements env (emit e s) (drop (k + 8) data) rem ts now mem sock = Some (c, s2)"
    "rd_host32 be (drop k data) = Some w" for k rem ts now mem c s2 be w e
    using elements [OF _ that(1)] rd_host32_length [OF that(2)] by auto
  show ?thesis
  proof (cases "str_eq data ''#bundle'' = Some True")
    case False
    then show ?thesis using assms(2) unfolding dispatch_data.simps [of env s]
      by (auto split: option.splits if_splits bool.splits ptr.splits dest: dispatch_method_queues)
  next
    case True
    then show ?thesis using assms(2) unfolding dispatch_data.simps [of env s]
      by (auto simp: Let_def split: option.splits if_splits) (drule (1) el el_started, simp)+
  qed
qed

lemma dispatch_queues:
  "(\<forall>data s sz r s'. length data = n \<longrightarrow> dispatch_data env s data sz sock = Some (r, s') \<longrightarrow> only_queues s s') \<and>
   (\<forall>bs s rem ts now mem c s'. length bs = n \<longrightarrow>
      dispatch_elements env s bs rem ts now mem sock = Some (c, s') \<longrightarrow> only_queues s s')"
proof (induction n rule: less_induct)
  case (less n)
  have elements: "only_queues s s'" if "length bs < n" "dispatch_elements env s bs rem ts now mem sock = Some (c, s')"
    for bs s rem ts now mem c s' using less [OF that(1)] that(2) by simp
  have data: "only_queues s s'" if "length data \<le> n" "dispatch_data env s data sz sock = Some (r, s')" for data s sz r s'
    by (rule dispatch_queues_step [OF _ that(2)], rule elements) (use that(1) in simp_all)
  have "only_queues s s'" if l: "length bs = n" and d: "dispatch_elements env s bs rem ts now mem sock = Some (c, s')"
    for bs s rem ts now mem c s'
  proof (cases "rd_host32 (e_be env) bs")
    case (Some w)
    then have short: "length (drop (nat (uint (lo_otoh32 (e_be env) w))) (drop 4 bs)) < n" "length (drop 4 bs) \<le> n"
      using rd_host32_length [OF Some] l by auto
    define pos where "pos = drop 4 bs"
    define len where "len = uint (lo_otoh32 (e_be env) w)"
    note short = short [folded pos_def len_def]
    have d: "(if rem < 4 then Some (None, s) else
        case str_eq pos ''#bundle'' of
          None \<Rightarrow> None
        | Some True \<Rightarrow> (case dispatch_data env s pos len sock of None \<Rightarrow> None
            | Some (_, s1) \<Rightarrow> dispatch_elements env s1 (drop (nat len) pos) (rem - 4 - len) ts now mem sock)
        | Some False \<Rightarrow> (case lo_message_deserialise (e_al env) (e_be env) pos (nat len) of
              None \<Rightarrow> None
            | Some (NULL, result) \<Rightarrow> Some (Some (- result), lo_throw s result (cstr mem))
            | Some (Ref m, _) \<Rightarrow> (case bundle_message env s ts now pos m sock of None \<Rightarrow> None
                | Some s1 \<Rightarrow> dispatch_elements env s1 (drop (nat len) pos) (rem - 4 - len) ts now mem sock))) = Some (c, s')"
      unfolding pos_def len_def by (rule d [unfolded dispatch_elements.simps [of env s bs] Some option.case Let_def])
    have rest: "only_queues s s1 \<Longrightarrow> dispatch_elements env s1 (drop (nat len) pos) (rem - 4 - len) ts now mem sock = Some (c, s') \<Longrightarrow>
        only_queues s s'" for s1
      using elements [OF short(1)] only_queues_trans by blast
    show ?thesis
    proof (cases "str_eq pos ''#bundle''")
      case (Some b)
      show ?thesis
      proof (cases b)
        case True
        then show ?thesis using d \<open>str_eq pos _ = Some b\<close> True
          by (auto split: if_splits option.splits intro: rest [OF data [OF short(2)]])
      next
        case False
        then show ?thesis using d \<open>str_eq pos _ = Some b\<close>
          by (auto split: if_splits option.splits ptr.splits intro: rest [OF bundle_message_queues [OF _ deserialised_fresh]])
      qed
    qed (use d in \<open>auto split: if_splits\<close>)
  qed (use d in \<open>auto simp: dispatch_elements.simps [of env s] split: if_splits\<close>)
  then show ?case using data [OF eq_imp_le] by blast
qed

lemma dispatch_data_queues: "dispatch_data env s data sz sock = Some (r, s') \<Longrightarrow> only_queues s s'"
  using dispatch_queues [of "length data" env sock] by blast

lemma dispatch_due_setup:
  "dispatch_due env t all q s = Some s' \<Longrightarrow> same_setup s s' \<and> (q \<noteq> [] \<longrightarrow> (\<exists>k. sv_queued s' = drop k q))"
proof (induction env t all q s rule: dispatch_due.induct)
  case (2 env t all it q s)
  obtain s1 where s1: "dispatch_method env s (q_path it @ [NUL]) (q_msg it) (q_sock it) = Some s1"
    using "2.prems" by (auto split: bind_splits)
  let ?s2 = "s1\<lparr>sv_queued := q\<rparr>"
  have s2: "same_setup s ?s2" using dispatch_method_logged [OF s1] by (simp add: logged_same_setup)
  show ?case
  proof (cases "q \<noteq> [] \<and> (lo_timetag_diff (q_ts (hd q)) t < FLT_EPSILON \<or> all)")
    case True
    then have "dispatch_due env t all q ?s2 = Some s'" using "2.prems" s1 by (simp add: Let_def)
    then have "same_setup ?s2 s' \<and> (\<exists>k. sv_queued s' = drop k q)" using "2.IH" [OF s1 refl True] True by simp
    then show ?thesis using same_setup_trans [OF s2] by (metis drop_Suc_Cons)
  next
    case False
    then have "s' = ?s2" using "2.prems" s1 by (auto simp: Let_def)
    then show ?thesis using s2 by (auto intro: exI [of _ 1])
  qed
qed simp

lemma queue_ok_drop: "queue_ok q \<Longrightarrow> queue_ok (drop k q)"
  by (auto simp: queue_ok_def list_all_iff drop_map [symmetric] sorted_wrt_drop dest: in_set_dropD)

lemma dispatch_queued_setup:
  assumes "dispatch_queued env s all = Some (r, s')"
  shows "same_setup s s' \<and> (queue_ok (sv_queued s) \<longrightarrow> queue_ok (sv_queued s'))"
proof (cases "sv_queued s")
  case Nil
  then have "only_queues s s'" using assms by (auto simp: dispatch_queued_def)
  then show ?thesis by (simp add: only_queues_def)
next
  case (Cons e q)
  then have "dispatch_due env (q_ts e) all (e # q) s = Some s'" using assms by (simp add: dispatch_queued_def)
  from dispatch_due_setup [OF this] show ?thesis using Cons queue_ok_drop [of "e # q"] by auto
qed

section \<open>The sockets\<close>

lemma set_context_ok [simp]:
  "sockets_ok (set_context i sc st) = sockets_ok st" "so_fds (set_context i sc st) = so_fds st"
  by (simp_all add: set_context_def sockets_ok_def)

lemma sockets_ok_first: "sockets_ok st \<Longrightarrow> so_fds st \<noteq> []"
  by (simp add: sockets_ok_def)

lemma scan_buffers_keeps:
  "scan_buffers al st i n = Some (d, st') \<Longrightarrow> sockets_ok st' = sockets_ok st \<and> so_fds st' = so_fds st"
  by (induction al st i n rule: scan_buffers.induct) (auto split: bind_splits if_splits prod.splits ptr.splits)

text \<open>The descriptor that \<open>accept\<close> gives is none of those in the table it is added to.\<close>

definition accept_fresh :: "'a poll_round \<Rightarrow> 'a outcome option \<Rightarrow> bool" where
  "accept_fresh r out = (case out of Some (Again st) \<Rightarrow> fst (pr_accept r) \<notin> set (butlast (so_fds st)) | _ \<Rightarrow> True)"

lemma poll_loop_step:
  assumes "sockets_ok st" "n \<le> length (so_fds st)" "poll_loop al can_alloc r n st data sock = Some out" "accept_fresh r (Some out)"
  shows "case out of Again st' \<Rightarrow> sockets_step st st' | Returned _ _ st' \<Rightarrow> sockets_step st st'"
  using assms
proof (induction n arbitrary: st data sock)
  case 0
  then show ?case by (auto simp: sockets_step_def)
next
  case (Suc i)
  have self: "sockets_step st st" using Suc.prems(1) by (simp add: sockets_step_def)
  have later: ?case if "poll_loop al can_alloc r i st1 d f = Some out" "sockets_step st st1" "i \<le> length (so_fds st1)" for st1 d f
    using Suc.IH [OF _ that(3,1) Suc.prems(4)] that(2) by (auto simp: sockets_step_def split: outcome.splits)
  have i: "i < length (so_fds st)" using Suc.prems(2) by simp
  show ?case
  proof (cases "pr_revents r i")
    case Rev_none
    then show ?thesis using Suc.prems(2,3) later [OF _ self] by (auto split: if_splits)
  next
    case Rev_err
    then show ?thesis using Suc.prems(3) self del_socket_step [OF Suc.prems(1) _ i] later
      by (auto split: if_splits bind_splits)
  next
    case Rev_ready
    show ?thesis
    proof (cases "i = 0")
      case True
      obtain j st1 where j: "lo_server_add_socket can_alloc st (fst (pr_accept r)) (snd (pr_accept r)) = Some (j, st1)" "0 \<le> j"
          "out = Again (set_context (nat j) (init_context (so_contexts st1 ! nat j)) st1)" if "so_fds st ! 0 \<noteq> - 1"
        using Suc.prems(3) Rev_ready True by (auto simp: Let_def split: if_splits bind_splits)
      have "so_fds st ! 0 \<in> set (so_fds st)" using i True by simp
      then have nn: "so_fds st ! 0 \<noteq> - 1" using Suc.prems(1) unfolding sockets_ok_def by fastforce
      have "so_fds st1 = so_fds st @ [fst (pr_accept r)]" using j(1,2) [OF nn] Suc.prems(1)
        by (auto simp: lo_server_add_socket_def Let_def split: if_splits)
      then have "fst (pr_accept r) \<notin> set (so_fds st)" using Suc.prems(4) j(3) [OF nn] by (simp add: accept_fresh_def)
      from add_socket_result [OF Suc.prems(1) j(1,2) [OF nn] this] show ?thesis
        using j(3) [OF nn] i by (auto simp: sockets_step_def hd_append)
    next
      case False
      then have "so_fds st ! i \<noteq> so_fds st ! 0" "0 \<le> so_fds st ! i"
        using Suc.prems(1) i sockets_ok_nth(1) [OF Suc.prems(1) _ i] by (simp add: sockets_ok_def nth_eq_iff_index_eq, simp)
      then show ?thesis using Suc.prems(3) Rev_ready i del_socket_step [OF Suc.prems(1) _ i] False later self
        by (auto simp: Let_def sockets_step_def split: if_splits bind_splits)
    qed
  qed
qed

text \<open>In every round of \<open>lo_server_recv_raw_stream\<close>.\<close>

fun accepts_fresh :: "alloc \<Rightarrow> (nat \<Rightarrow> bool) \<Rightarrow> 'a poll_round list \<Rightarrow> 'a sockets \<Rightarrow> bool" where
  "accepts_fresh al can_alloc [] st \<longleftrightarrow> True"
| "accepts_fresh al can_alloc (r # rs) st \<longleftrightarrow>
     (case scan_buffers al st 0 (length (so_fds st)) of
        Some (NULL, st1) \<Rightarrow>
          let out = poll_loop al can_alloc r (length (so_fds st1)) st1 NULL (- 1) in
          accept_fresh r out \<and> (case out of Some (Again st2) \<Rightarrow> accepts_fresh al can_alloc rs st2 | _ \<Rightarrow> True)
      | _ \<Rightarrow> True)"

lemma recv_raw_stream_step:
  "sockets_ok st \<Longrightarrow> accepts_fresh al can_alloc rounds st \<Longrightarrow>
   lo_server_recv_raw_stream al can_alloc rounds st = Some (data, sock, st') \<Longrightarrow> sockets_step st st'"
proof (induction rounds arbitrary: st)
  case Nil
  then obtain w where w: "scan_buffers al st 0 (length (so_fds st)) = Some (w, st')"
    by (auto split: bind_splits ptr.splits)
  show ?case using scan_buffers_keeps [OF w] Nil.prems(1) by (simp add: sockets_step_def)
next
  case (Cons r rs)
  obtain w st1 where w: "scan_buffers al st 0 (length (so_fds st)) = Some (w, st1)"
    using Cons.prems(3) by (auto split: bind_splits)
  have st1: "sockets_ok st1" "so_fds st1 = so_fds st" using scan_buffers_keeps [OF w] Cons.prems(1) by auto
  show ?case
  proof (cases w)
    case (Ref d)
    then show ?thesis using Cons.prems(3) w st1 by (cases d) (auto simp: sockets_step_def)
  next
    case NULL
    obtain out where out: "poll_loop al can_alloc r (length (so_fds st1)) st1 NULL (- 1) = Some out"
      using Cons.prems(3) w NULL by (cases "poll_loop al can_alloc r (length (so_fds st1)) st1 NULL (- 1)") auto
    have step: "case out of Again st2 \<Rightarrow> sockets_step st1 st2 | Returned _ _ st2 \<Rightarrow> sockets_step st1 st2"
      using poll_loop_step [OF st1(1) order_refl out] Cons.prems(2) w NULL out by (simp add: Let_def)
    show ?thesis
    proof (cases out)
      case (Again st2)
      then have s2: "sockets_step st st2" using step st1 by (simp add: sockets_step_def)
      have "lo_server_recv_raw_stream al can_alloc rs st2 = Some (data, sock, st')" "accepts_fresh al can_alloc rs st2"
        using Cons.prems(2,3) w NULL out Again by (simp_all add: Let_def)
      then show ?thesis using Cons.IH s2 sockets_step_trans by (auto simp: sockets_step_def)
    next
      case (Returned d f st2)
      then show ?thesis using Cons.prems(3) w NULL out step st1 by (simp add: sockets_step_def)
    qed
  qed
qed

section \<open>Receiving and waiting\<close>

lemma before_poll_keeps:
  "before_poll al s t = Some (w, s') \<Longrightarrow>
   sockets_ok (ls_socks s') = sockets_ok (ls_socks s) \<and> so_fds (ls_socks s') = so_fds (ls_socks s) \<and> ls_core s' = ls_core s"
  by (auto simp: before_poll_def dest!: scan_buffers_keeps split: if_splits bind_splits)

lemma recv_wait_keeps:
  "recv_wait al s t wakes = Some (w, s', ts) \<Longrightarrow>
   sockets_ok (ls_socks s') = sockets_ok (ls_socks s) \<and> so_fds (ls_socks s') = so_fds (ls_socks s) \<and> ls_core s' = ls_core s"
proof (induction wakes arbitrary: s t ts)
  case (Cons k ks)
  obtain d s1 where b: "before_poll al s t = Some (d, s1)" using Cons.prems by (auto split: bind_splits)
  note s1 = before_poll_keeps [OF b]
  consider "s' = s1" | ts' where "recv_wait al s1 (ls_delay (wk_now k) s1) ks = Some (w, s', ts')"
    using Cons.prems b by (auto simp: Let_def split: ptr.splits revents.splits)
  then show ?case using Cons.IH s1 by cases auto
qed (auto split: bind_splits ptr.splits dest: before_poll_keeps)

text \<open>
  What a living server always satisfies. \<open>l\<close> is its first socket, which listens or gets the datagrams.
\<close>

definition server_inv :: "proto \<Rightarrow> int \<Rightarrow> lo_server \<Rightarrow> bool" where
  "server_inv p l s \<longleftrightarrow> ls_protocol s = p \<and> sockets_ok (ls_socks s) \<and> hd (so_fds (ls_socks s)) = l \<and>
     queue_ok (sv_queued (ls_core s)) \<and>
     table_ok (sv_methods (ls_core s)) \<and> methods_ok (ls_core s)"

lemma server_inv_core:
  "server_inv p l s \<Longrightarrow> same_setup (ls_core s) c \<Longrightarrow> queue_ok (sv_queued c) \<Longrightarrow> server_inv p l (s\<lparr>ls_core := c\<rparr>)"
  by (simp add: server_inv_def same_setup_def methods_ok_def)

lemma server_inv_sockets:
  "server_inv p l s \<Longrightarrow> sockets_step (ls_socks s) st \<Longrightarrow> server_inv p l (s\<lparr>ls_socks := st\<rparr>)"
  by (simp add: server_inv_def sockets_step_def)

lemma got_data_inv:
  assumes "server_inv p l s" "got_data env s data sock = Some (r, s')"
  shows "server_inv p l s'"
proof -
  obtain x c where c: "dispatch_data env (ls_core s) data (int (length data)) sock = Some (x, c)" "s' = s\<lparr>ls_core := c\<rparr>"
    using assms(2) by (auto simp: got_data_def split: bind_splits)
  have "queue_ok (sv_queued (ls_core s))" using assms(1) by (simp add: server_inv_def)
  then show ?thesis using dispatch_data_queues [OF c(1)] server_inv_core [OF assms(1)] c(2) by (simp add: only_queues_def)
qed

definition recv_fresh :: "env \<Rightarrow> (nat \<Rightarrow> bool) \<Rightarrow> input \<Rightarrow> lo_server \<Rightarrow> bool" where
  "recv_fresh env can_alloc inp s \<longleftrightarrow>
     (case recv_wait (e_al env) s (ls_delay (in_now inp) s) (in_wakes inp) of
        Some (W_ready, s1, _) \<Rightarrow> accepts_fresh (e_al env) can_alloc (in_rounds inp) (ls_socks s1)
      | _ \<Rightarrow> True)"

lemma recv_inv:
  assumes "server_inv p l s" "ls_protocol s = LO_TCP \<longrightarrow> recv_fresh env can_alloc inp s" "lo_server_recv env can_alloc inp s = Some (r, s')"
  shows "server_inv p l s'"
proof -
  obtain w s1 ts where w: "recv_wait (e_al env) s (ls_delay (in_now inp) s) (in_wakes inp) = Some (w, s1, ts)"
    using assms(3) by (auto simp: lo_server_recv_def split: bind_splits)
  have s1: "server_inv p l s1" using recv_wait_keeps [OF w] assms(1) by (simp add: server_inv_def)
  show ?thesis
  proof (cases w)
    case W_due
    then obtain c where c: "dispatch_queued env (ls_core s1) False = Some (r, c)" "s' = s1\<lparr>ls_core := c\<rparr>"
      using assms(3) w by (auto simp: lo_server_recv_def due_events_def)
    then show ?thesis using server_inv_core [OF s1] dispatch_queued_setup [OF c(1)] s1 by (simp add: server_inv_def)
  next
    case W_error
    then show ?thesis using assms(3) w s1 by (simp add: lo_server_recv_def)
  next
    case (W_data d f)
    then show ?thesis using assms(3) w got_data_inv [OF s1] by (simp add: lo_server_recv_def)
  next
    case W_ready
    show ?thesis
    proof (cases "ls_protocol s1 = LO_TCP")
      case True
      obtain d f st where d: "lo_server_recv_raw_stream (e_al env) can_alloc (in_rounds inp) (ls_socks s1) = Some (d, f, st)"
        using assms(3) w W_ready True by (auto simp: lo_server_recv_def simp del: lo_server_recv_raw_stream.simps split: bind_splits)
      have "sockets_step (ls_socks s1) st"
        using recv_raw_stream_step [OF _ _ d] s1 assms(2) w W_ready True recv_wait_keeps [OF w] by (simp add: server_inv_def recv_fresh_def)
      then have "server_inv p l (s1\<lparr>ls_socks := st\<rparr>)" by (rule server_inv_sockets [OF s1])
      then show ?thesis using assms(3) w W_ready True d got_data_inv
        by (auto simp: lo_server_recv_def simp del: lo_server_recv_raw_stream.simps split: ptr.splits)
    next
      case False
      then show ?thesis using assms(3) w W_ready s1 got_data_inv [OF s1]
        by (auto simp: lo_server_recv_def split: bind_splits ptr.splits)
    qed
  qed
qed

text \<open>Nothing is closed in \<open>lo_server_wait\<close>, so all descriptors it accepts are different.\<close>

definition arrivals_fresh :: "arrival list \<Rightarrow> lo_server \<Rightarrow> bool" where
  "arrivals_fresh as s \<longleftrightarrow> distinct (so_fds (ls_socks s) @ map (\<lambda>a. fst (ar_accept a)) as)"

lemma wait_loop_inv:
  "server_inv p l s \<Longrightarrow> ls_protocol s = LO_TCP \<longrightarrow> arrivals_fresh as s \<Longrightarrow> wait_loop can_alloc s timeout sched as = Some (r, s', ts) \<Longrightarrow> server_inv p l s'"
proof (induction as arbitrary: s timeout sched ts)
  case Nil
  then show ?case by (auto split: option.splits bool.splits)
next
  case (Cons a as)
  show ?case
  proof (cases "s' = s")
    case False
    obtain i st where tcp: "ls_protocol s = LO_TCP"
      and i: "lo_server_add_socket can_alloc (ls_socks s) (fst (ar_accept a)) (snd (ar_accept a)) = Some (i, st)" "0 \<le> i"
      and rest: "\<exists>t1 t2 ts'. wait_loop can_alloc (s\<lparr>ls_socks := set_context (nat i) (init_context (so_contexts st ! nat i)) st\<rparr>) t1 t2 as
          = Some (r, s', ts')"
      using Cons.prems(3) False by (auto simp: Let_def split: option.splits bool.splits revents.splits if_splits) blast+
    have fresh: "fst (ar_accept a) \<notin> set (so_fds (ls_socks s))" using Cons.prems(2) tcp by (simp add: arrivals_fresh_def)
    have st: "sockets_ok st \<and> so_fds st = so_fds (ls_socks s) @ [fst (ar_accept a)]"
      using add_socket_result [OF _ i fresh] Cons.prems(1) by (simp add: server_inv_def)
    let ?s = "s\<lparr>ls_socks := set_context (nat i) (init_context (so_contexts st ! nat i)) st\<rparr>"
    have "sockets_step (ls_socks s) (set_context (nat i) (init_context (so_contexts st ! nat i)) st)"
      using st Cons.prems(1) sockets_ok_first by (auto simp: sockets_step_def server_inv_def hd_append)
    then have "server_inv p l ?s" by (rule server_inv_sockets [OF Cons.prems(1)])
    moreover have "arrivals_fresh as ?s" using Cons.prems(2) tcp st by (simp add: arrivals_fresh_def)
    ultimately show ?thesis using Cons.IH rest by blast
  qed (use Cons.prems in simp)
qed

section \<open>Reachable states\<close>

abbreviation with_core :: "server \<Rightarrow> lo_server \<Rightarrow> lo_server" where
  "with_core c s \<equiv> s\<lparr>ls_core := c\<rparr>"

text \<open>
  What can become of the server \<open>s0\<close>: every operation, with any arguments a client can give (its strings
  are C strings), any input, any answers of the system and any handlers. The system hands out no descriptor
  that is in the server's table. Messages and bundles may be sent from the server, to an address \<open>sd_addr sd\<close>
  that is not bound to its own first socket; a connection made for a TCP address is added to the table of the
  server, of whatever protocol, and one that fails is taken out of it. \<open>lo_server_recv_noblock\<close> is \<open>wait\<close> and \<open>recv\<close>
  one after the other; \<open>lo_server_set_error_context\<close> changes nothing of this state (theory \<open>Errors\<close>).
\<close>

inductive lives :: "lo_server \<Rightarrow> lo_server \<Rightarrow> bool" for s0 :: lo_server where
  born: "lives s0 s0"
| add_method: "lives s0 s \<Longrightarrow> (\<forall>p. path = Ref p \<longrightarrow> NUL \<notin> set p) \<Longrightarrow>
    lo_server_add_method al (sv_methods (ls_core s)) path spec h u = Some (r, ms) \<Longrightarrow>
    lives s0 (with_core ((ls_core s)\<lparr>sv_methods := ms\<rparr>) s)"
| del_method: "lives s0 s \<Longrightarrow> lo_server_del_method v (sv_methods (ls_core s)) path spec = Some ms \<Longrightarrow>
    lives s0 (with_core ((ls_core s)\<lparr>sv_methods := ms\<rparr>) s)"
| bundle_handlers: "lives s0 s \<Longrightarrow> lives s0 (with_core (snd (lo_server_add_bundle_handlers (ls_core s) sh eh)) s)"
| coercion: "lives s0 s \<Longrightarrow> lives s0 (with_core (snd (lo_server_enable_coercion (ls_core s) on)) s)"
| queueing: "lives s0 s \<Longrightarrow> lo_server_enable_queue env (ls_core s) on rest = Some (r, c) \<Longrightarrow> lives s0 (with_core c s)"
| data: "lives s0 s \<Longrightarrow> lo_server_dispatch_data env (ls_core s) bytes n = Some (r, c) \<Longrightarrow> lives s0 (with_core c s)"
| url: "lives s0 s \<Longrightarrow> lo_server_get_url al name resolve (Ref s) = Some (u, Ref s') \<Longrightarrow> lives s0 s'"
| recv: "lives s0 s \<Longrightarrow> ls_protocol s = LO_TCP \<longrightarrow> recv_fresh env can_alloc inp s \<Longrightarrow> lo_server_recv env can_alloc inp s = Some (r, s') \<Longrightarrow> lives s0 s'"
| wait: "lives s0 s \<Longrightarrow> ls_protocol s = LO_TCP \<longrightarrow> arrivals_fresh as s \<Longrightarrow>
    lo_server_wait can_alloc now as s timeout = Some (r, s', ts) \<Longrightarrow> lives s0 s'"
| send: "lives s0 s \<Longrightarrow> sd_from sd = Ref (ls_socks s) \<Longrightarrow> a_socket (sd_addr sd) \<noteq> hd (so_fds (ls_socks s)) \<Longrightarrow>
    fresh_sockets os (set (so_fds (ls_socks s)) - {a_socket (sd_addr sd)}) \<Longrightarrow>
    sends_from be os sd sd' \<Longrightarrow> sd_from sd' = Ref st \<Longrightarrow> lives s0 (s\<lparr>ls_socks := st\<rparr>)"

lemma lives_trans: "lives s t \<Longrightarrow> lives t u \<Longrightarrow> lives s u"
  by (rotate_tac 1, induction rule: lives.induct) (auto intro: lives.intros)

lemma get_url_keeps: "lo_server_get_url al name resolve (Ref s) = Some (u, Ref s') \<Longrightarrow> \<exists>hn. s' = s\<lparr>ls_hostname := hn\<rparr>"
  by (auto simp: lo_server_get_url_def lo_server_resolve_hostname_def Let_def split: if_splits bind_splits ptr.splits)
    (metis lo_server.surjective lo_server.update_convs(4))+

lemma enable_queue_setup:
  assumes "lo_server_enable_queue env c on rest = Some (r, c')"
  shows "sv_methods c' = sv_methods c \<and> sv_protocol c' = sv_protocol c \<and> (queue_ok (sv_queued c) \<longrightarrow> queue_ok (sv_queued c'))"
proof (cases "on = 0 \<and> rest \<noteq> 0 \<and> sv_queued c \<noteq> []")
  case True
  then obtain x where "dispatch_queued env (c\<lparr>sv_enqueue := False\<rparr>) True = Some (x, c')"
    using assms by (auto simp: lo_server_enable_queue_def Let_def)
  from dispatch_queued_setup [OF this] show ?thesis by (simp add: same_setup_def)
qed (use assms in \<open>auto simp: lo_server_enable_queue_def Let_def split: if_splits\<close>)

lemma lives_inv:
  assumes "lives s0 s" "server_inv p l s0"
  shows "server_inv p l s"
  using assms
proof (induction rule: lives.induct)
  case (add_method s path al spec h u r ms)
  have "methods_ok (ls_core s) \<Longrightarrow> list_all path_terminable ms"
    using add_method.hyps(2,3)
    by (auto simp: lo_server_add_method_def methods_ok_def path_terminable_def strdup_def Let_def split: if_splits ptr.splits)
  then show ?case using add_method by (auto simp: server_inv_def methods_ok_def intro: add_method_table_ok)
next
  case (del_method s v path spec ms)
  have "methods_ok (ls_core s) \<Longrightarrow> list_all path_terminable ms"
    using del_method_filter [OF del_method.hyps(2)] by (auto simp: methods_ok_def list_all_iff)
  then show ?case using del_method by (auto simp: server_inv_def methods_ok_def intro: del_method_table_ok)
next
  case (queueing s env on rest r c)
  then show ?case using enable_queue_setup [OF queueing.hyps(2)] by (simp add: server_inv_def methods_ok_def)
next
  case (data s env bytes n r c)
  then show ?case using dispatch_data_queues [of env "ls_core s" bytes n "- 1" r c] server_inv_core [of p l s c]
    by (auto simp: lo_server_dispatch_data_def only_queues_def server_inv_def)
next
  case (url s al name resolve u s')
  then show ?case using get_url_keeps [OF url.hyps(2)] by (auto simp: server_inv_def)
next
  case (recv s env can_alloc inp r s')
  then show ?case using recv_inv by blast
next
  case (wait s as can_alloc now timeout r s' ts)
  then show ?case using wait_loop_inv by (auto simp: lo_server_wait_def)
next
  case (send s sd os be sd' st)
  then have inv: "server_inv p l s" by simp
  then have "sockets_ok (ls_socks s)" by (simp add: server_inv_def)
  then have "sockets_step (ls_socks s) st" using sends_from_step [OF send.hyps(5,2) _ send.hyps(3,4)] send.hyps(6) by auto
  then show ?case by (rule server_inv_sockets [OF inv])
qed (auto simp: server_inv_def methods_ok_def lo_server_add_bundle_handlers_def lo_server_enable_coercion_def)

section \<open>From birth to release\<close>

lemma newborn_made:
  assumes "lo_server_new_with_proto_internal h grp port iface ip proto err_h m = Some (Ref s, m')" "\<And>cs. - 1 \<le> h_ret h cs"
  shows "\<exists>p fd. 0 \<le> fd \<and> ls_core s = ls_core (blank_server p err_h) \<and> ls_socks s = ls_socks (with_fd fd (blank_server p err_h))"
proof -
  obtain p where p: "real_proto port proto = Some p" using assms(1)
    by (auto simp: lo_server_new_with_proto_internal_def split: if_splits option.splits)
  have "\<exists>fd. 0 \<le> fd \<and> ls_core s = ls_core (blank_server p err_h) \<and> ls_socks s = ls_socks (with_fd fd (blank_server p err_h))"
  proof (cases "p = LO_UNIX")
    case True
    then have "new_unix h port (blank_server p err_h) m = Some (Ref s, m')" using assms(1) p
      by (auto simp: lo_server_new_with_proto_internal_def split: if_splits)
    then have "\<exists>cs. let fd = h_ret h cs in fd \<noteq> - 1 \<and> ls_core s = ls_core (blank_server p err_h) \<and>
        ls_socks s = ls_socks (with_fd fd (blank_server p err_h))"
      by (auto simp: new_unix_def Let_def sys_def with_fd_def split: if_splits ptr.splits prod.splits)
    then obtain cs where cs: "h_ret h cs \<noteq> - 1" "ls_core s = ls_core (blank_server p err_h)"
        "ls_socks s = ls_socks (with_fd (h_ret h cs) (blank_server p err_h))" by (auto simp: Let_def)
    have "0 \<le> h_ret h cs" using cs(1) assms(2) [of cs] by linarith
    then show ?thesis using cs by blast
  next
    case False
    define a where "a = new_loop h grp port iface ip 16 (blank_server p err_h) m"
    have a: "new_finish h port a = Some (Ref s, m')" using assms(1) p False
      by (auto simp: a_def lo_server_new_with_proto_internal_def split: if_splits)
    have ok: "bound_ok h p err_h a" unfolding a_def by (rule new_loop_ok [OF made_from_blank])
    obtain used s1 m1 where b: "a = Bound used s1 m1" using a by (cases a) (auto simp: new_finish_def)
    then obtain fd where fd: "opened h p fd m1" "made_from p err_h fd s1" using ok by (auto simp: bound_ok_def)
    have "ls_core s = ls_core s1 \<and> ls_socks s = ls_socks s1" using a b
      by (auto simp: new_finish_def Let_def split: if_splits ptr.splits)
    moreover obtain cs where "fd = h_ret h cs" "fd \<noteq> - 1" using fd(1) by (auto simp: opened_def)
    then have "0 \<le> fd" using assms(2) [of cs] by linarith
    ultimately show ?thesis using fd(2) by (auto simp: made_from_def)
  qed
  then show ?thesis by blast
qed

lemma newborn_inv:
  assumes "lo_server_new_with_proto_internal h grp port iface ip proto err_h m = Some (Ref s, m')" "\<And>cs. - 1 \<le> h_ret h cs"
  shows "server_inv (ls_protocol s) (hd (so_fds (ls_socks s))) s"
  using newborn_made [OF assms]
  by (auto simp: server_inv_def with_fd_def blank_server_def sockets_ok_def queue_ok_def table_ok_def methods_ok_def)

lemma living_inv:
  assumes "lo_server_new_with_proto_internal h grp port iface ip proto err_h m = Some (Ref s0, m')" "\<And>cs. - 1 \<le> h_ret h cs"
    and "lives s0 s"
  shows "server_inv (ls_protocol s0) (hd (so_fds (ls_socks s0))) s"
  using lives_inv [OF assms(3) newborn_inv [OF assms(1,2)]] .

text \<open>
  C11: Whatever is done with a server after its construction, sending from it included, it keeps its protocol
  and its first socket, which listens or gets the datagrams; its socket table is well formed (distinct
  descriptors, with a context and room in the table of sources for each), no method has a pattern for a path,
  and its queue is in the order of time; each entry of it has the timetag of its message and holds the only
  reference to it. The conditions on the system and on the destinations are those of \<open>lives\<close>.
\<close>

theorem living_server_sound:
  assumes "lo_server_new_with_proto_internal h grp port iface ip proto err_h m = Some (Ref s0, m')" "\<And>cs. - 1 \<le> h_ret h cs"
    and "lives s0 s"
  shows "ls_protocol s = ls_protocol s0 \<and> sockets_ok (ls_socks s) \<and>
    hd (so_fds (ls_socks s)) = hd (so_fds (ls_socks s0)) \<and>
    (\<forall>mt q. mt \<in> set (sv_methods (ls_core s)) \<and> mt_path mt = Ref q \<longrightarrow> \<not> is_pattern q) \<and>
    sorted (map q_ts (sv_queued (ls_core s))) \<and>
    (\<forall>e \<in> set (sv_queued (ls_core s)). m_ts (q_msg e) = q_ts e \<and> m_refcount (q_msg e) = 1)"
proof -
  note i = living_inv [OF assms] newborn_inv [OF assms(1,2)]
  then have "\<forall>mt q. mt \<in> set (sv_methods (ls_core s)) \<and> mt_path mt = Ref q \<longrightarrow> \<not> is_pattern q"
    by (auto simp: server_inv_def table_ok_def list_all_iff)
  moreover have "\<forall>e \<in> set (sv_queued (ls_core s)). m_ts (q_msg e) = q_ts e \<and> m_refcount (q_msg e) = 1"
    using i(1) by (auto simp: server_inv_def queue_ok_def list_all_iff entry_ok_def)
  ultimately show ?thesis using i by (simp add: server_inv_def queue_ok_def)
qed

lemma released:
  assumes "lo_server_new_with_proto_internal h grp port iface ip proto err_h m0 = Some (Ref s0, m')" "\<And>cs. - 1 \<le> h_ret h cs"
    and "lives s0 s" "lo_server_free (Ref s) m = (m1, left)"
  shows "\<exists>cs. mk_calls m1 = mk_calls m @ map S_close cs @
      (case ls_path s of Ref p \<Rightarrow> if ls_protocol s = LO_UNIX then [S_unlink p] else [] | NULL \<Rightarrow> []) \<and>
    distinct cs \<and> set cs = set (so_fds (ls_socks s)) \<and>
    (\<forall>fd \<in> set cs. 0 \<le> fd \<and> (ls_protocol s = LO_UDP \<longrightarrow> cs_udp (lo_client_sockets m1) \<noteq> fd) \<and>
      (ls_protocol s = LO_TCP \<longrightarrow> cs_tcp (lo_client_sockets m1) \<noteq> fd)) \<and>
    left = map (\<lambda>_. NULL) (sv_queued (ls_core s))"
proof -
  have i: "server_inv (ls_protocol s0) (hd (so_fds (ls_socks s0))) s" by (rule living_inv [OF assms(1-3)])
  define fds where "fds = so_fds (ls_socks s)"
  have fds: "distinct fds" "\<forall>fd \<in> set fds. 0 \<le> fd" using i by (simp_all add: server_inv_def sockets_ok_def fds_def)
  then have open_fds: "filter (\<lambda>fd. fd \<noteq> - 1) (rev fds) = rev fds" by (auto simp: filter_id_conv)
  note f = server_free_closes_all [of s m, unfolded assms(4), folded fds_def, unfolded open_fds]
  have "\<forall>e \<in> set (sv_queued (ls_core s)). lo_message_free (Ref (q_msg e)) = NULL"
    using i by (auto simp: server_inv_def queue_ok_def list_all_iff entry_ok_def lo_message_free_def Let_def)
  then have "left = map (\<lambda>_. NULL) (sv_queued (ls_core s))" using f by simp
  moreover have "mk_calls m1 = mk_calls m @ map S_close (rev fds) @
      (case ls_path s of Ref p \<Rightarrow> if ls_protocol s = LO_UNIX then [S_unlink p] else [] | NULL \<Rightarrow> [])"
    using f by simp
  moreover have "\<forall>fd \<in> set fds. 0 \<le> fd \<and> (ls_protocol s = LO_UDP \<longrightarrow> cs_udp (lo_client_sockets m1) \<noteq> fd) \<and>
      (ls_protocol s = LO_TCP \<longrightarrow> cs_tcp (lo_client_sockets m1) \<noteq> fd)"
    using f fds(2) by (auto split: if_splits)
  ultimately show ?thesis using fds(1)
    by (intro exI [of _ "rev fds"]) (simp add: fds_def [symmetric])
qed


text \<open>
  C13: A living server misses no event: when the time of any queued message has come, \<open>lo_server_recv\<close>
  dispatches at once, without waiting for its sockets, and what it dispatches first is the earliest message
  of the queue.
\<close>

theorem due_event_not_missed:
  assumes "lo_server_new_with_proto_internal h grp port iface ip proto err_h m = Some (Ref s0, m')" "\<And>cs. - 1 \<le> h_ret h cs"
    and "lives s0 s" "e \<in> set (sv_queued (ls_core s))" "q_ts e \<le> in_now inp"
  shows "lo_server_recv env can_alloc inp s =
      map_option (\<lambda>(r, c). (r, s\<lparr>ls_core := c\<rparr>)) (dispatch_queued env (ls_core s) False) \<and>
    (\<forall>e' \<in> set (sv_queued (ls_core s)). q_ts (hd (sv_queued (ls_core s))) \<le> q_ts e')"
proof -
  have srt: "sorted (map q_ts (sv_queued (ls_core s)))"
    using living_inv [OF assms(1-3)] by (simp add: server_inv_def queue_ok_def)
  obtain e0 q where q: "sv_queued (ls_core s) = e0 # q" using assms(4) by (cases "sv_queued (ls_core s)") auto
  have first: "\<forall>e' \<in> set (sv_queued (ls_core s)). q_ts e0 \<le> q_ts e'" using srt q by auto
  then have "q_ts e0 \<le> in_now inp" using assms(4,5) by (meson order_trans)
  then have "ls_delay (in_now inp) s = 0"
    using lo_timetag_diff_pos [of "q_ts e0" "in_now inp"] by (auto simp: q lo_server_next_event_delay_def Let_def)
  then have "recv_wait (e_al env) s (ls_delay (in_now inp) s) (in_wakes inp) = Some (W_due, s, [])"
    by (cases "in_wakes inp") (simp_all add: before_poll_def)
  then show ?thesis using first q by (simp add: lo_server_recv_def due_events_def)
qed

section \<open>Witnesses\<close>

text \<open>A UDP server that has got a bundle for the time 200.\<close>

lemma sample_udp_server:
  obtains s m' where "lo_server_new_with_proto_internal (sample_host 0) NULL (Ref ''7770'') NULL NULL 1 True sample_making = Some (Ref s, m')"
    "ls_core s = ls_core (blank_server LO_UDP True)" "so_fds (ls_socks s) = [2]" "so_sources (ls_socks s) = replicate 2 NULL"
  by (simp add: construct_defs new_loop_numeral sample_host_def sample_making_def binds_def al_zero_def proto_of_def EINVAL_def EADDRINUSE_def)

abbreviation "sample_entry \<equiv> entry sample_env (- 1) (Timetag 200 0) ''/a'' [OInt32 7]"

lemma sample_queued:
  "\<exists>c. lo_server_dispatch_data sample_env (ls_core (blank_server LO_UDP True))
      (wire_packet (PBundle (Timetag 200 0) (messages_of [(''/a'', [OInt32 7])])))
      (int (length (wire_packet (PBundle (Timetag 200 0) (messages_of [(''/a'', [OInt32 7])]))))) =
    Some (int (length (wire_packet (PBundle (Timetag 200 0) (messages_of [(''/a'', [OInt32 7])])))), c) \<and>
    sv_queued c = [sample_entry]"
proof -
  let ?c = "ls_core (blank_server LO_UDP True)"
  have "e_now sample_env (sv_log ?c) < Timetag 200 0" "Timetag 200 0 \<noteq> LO_TT_IMMEDIATE"
    by (simp_all add: sample_setup less_lo_timetag_def tt_key_def LO_TT_IMMEDIATE_def)
  then have "\<not> immediate sample_env ?c (Timetag 200 0) (e_now sample_env (sv_log ?c))"
    by (auto simp: immediate_def lo_timetag_diff_le_0 blank_server_def intro: lo_timetag.expand)
  from deliver_all_waiting [OF this, of "- 1" "[(''/a'', [OInt32 7])]"]
  have "deliver sample_env (- 1) (PBundle (Timetag 200 0) (messages_of [(''/a'', [OInt32 7])])) ?c = Some (?c\<lparr>sv_queued := [sample_entry]\<rparr>)"
    by (simp add: blank_server_def)
  moreover have "methods_ok ?c" by (simp add: methods_ok_def blank_server_def)
  ultimately show ?thesis
    using deliver_refined(1) [OF sample_setup(2) sample_bundle_ok [of "Timetag 200 0"], where s = ?c and rest = "[]" and sock = "- 1"]
    by (simp add: lo_server_dispatch_data_def del: wire_packet.simps deliver.simps)
qed

lemma sample_living:
  obtains s0 m' s where "lo_server_new_with_proto_internal (sample_host 0) NULL (Ref ''7770'') NULL NULL 1 True sample_making = Some (Ref s0, m')"
    "lives s0 s" "sv_queued (ls_core s) = [sample_entry]" "so_fds (ls_socks s) = [2]" "ls_protocol s0 = LO_UDP"
    "so_sources (ls_socks s) = replicate 2 NULL"
proof -
  obtain s0 m' where s0: "lo_server_new_with_proto_internal (sample_host 0) NULL (Ref ''7770'') NULL NULL 1 True sample_making = Some (Ref s0, m')"
    "ls_core s0 = ls_core (blank_server LO_UDP True)" "so_fds (ls_socks s0) = [2]" "so_sources (ls_socks s0) = replicate 2 NULL"
    by (rule sample_udp_server)
  obtain n bytes c where "lo_server_dispatch_data sample_env (ls_core s0) bytes n = Some (n, c)" "sv_queued c = [sample_entry]"
    using sample_queued s0(2) by auto
  then have "lives s0 (with_core c s0)" "sv_queued c = [sample_entry]" by (auto intro: lives.data [OF lives.born])
  then show ?thesis using s0 that [of s0 m' "with_core c s0"] by (simp add: blank_server_def)
qed

text \<open>A system that connects to the address with the descriptor 7.\<close>

definition sample_link :: os where
  "sample_link = \<lparr>os_ret = (\<lambda>cs. case last cs of C_socket p fam \<Rightarrow> 7 | _ \<Rightarrow> 0), os_errno = (\<lambda>_. 0), os_resolve = (\<lambda>_ _ _. Inl (- 2, ''unknown'')),
     os_al = al_zero, os_can_alloc = (\<lambda>_. True), os_ipv6 = False\<rparr>"

definition sample_sends :: "lo_address sockets \<Rightarrow> sending" where
  "sample_sends st = \<lparr>sd_calls = [], sd_client_udp = - 1,
     sd_addr = sample_address\<lparr>a_socket := - 1, a_ai := [\<lparr>ai_family = AF_INET, ai_addr = ''four''\<rparr>]\<rparr>,
     sd_from = Ref st\<rparr>"

lemma sample_sends_adopts:
  assumes "sockets_ok st" "length (so_sources st) \<le> 7"
  shows "\<exists>sd' st'. sends_from True sample_link (sample_sends st) sd' \<and> sd_from sd' = Ref st' \<and> so_fds st' = so_fds st @ [7]"
proof -
  let ?data = "wire_packet (PMessage ''/a'' [OInt32 7])"
  obtain st' where st': "lo_server_add_socket (\<lambda>_. True) st 7 (lo_address_copy al_zero ((sd_addr (sample_sends st))\<lparr>a_socket := 7\<rparr>)) =
      Some (int (length (so_fds st)), st')" "so_fds st' = so_fds st @ [7]"
    using add_socket_eq [OF assms(1), of 7 "\<lambda>_. True"] by force
  have "unknown_source st 7 = Some True" using assms(2) by (simp add: unknown_source_def)
  then have "\<exists>sd'. send_data sample_link ?data (sample_sends st) = Some (0, sd') \<and> sd_from sd' = Ref st'"
    using st'(1)
    by (simp add: send_data_def sample_length LO_MAX_MSG_SIZE_def sample_sends_def sample_address_def zero_address_def pick_socket_def
        create_socket_def adopt_socket_def os_do_def os_set_def set_addr_def set_nodelay_def send_stream_def finish_send_def
        sample_link_def Let_def del: wire_packet.simps)
  then obtain sd' where sd': "send_data sample_link ?data (sample_sends st) = Some (0, sd')" "sd_from sd' = Ref st'" by blast
  have "lo_send_message_from True sample_link ''/a'' sample_message (sample_sends st) = Some (0, sd')"
    using lo_message_serialise_new [OF sample_repr, of "os_al sample_link" "''/a''"] sd'(1)
    by (simp add: lo_send_message_from_def sample_link_def)
  then show ?thesis using sd'(2) st'(2) unfolding sends_from_def by blast
qed

text \<open>That server sends to a TCP address, and so gets a second socket.\<close>

theorem living_server_sound_witness:
  "\<exists>s0 m' s. lo_server_new_with_proto_internal (sample_host 0) NULL (Ref ''7770'') NULL NULL 1 True sample_making = Some (Ref s0, m') \<and>
     lives s0 s \<and> ls_protocol s = LO_UDP \<and> hd (so_fds (ls_socks s)) = hd (so_fds (ls_socks s0)) \<and> so_fds (ls_socks s) = [2, 7] \<and>
     sv_queued (ls_core s) = [sample_entry] \<and> m_ts (q_msg sample_entry) = Timetag 200 0"
proof -
  obtain s0 m' s where s: "lo_server_new_with_proto_internal (sample_host 0) NULL (Ref ''7770'') NULL NULL 1 True sample_making = Some (Ref s0, m')"
    "lives s0 s" "sv_queued (ls_core s) = [sample_entry]" "so_fds (ls_socks s) = [2]" "ls_protocol s0 = LO_UDP"
    "so_sources (ls_socks s) = replicate 2 NULL"
    by (rule sample_living)
  have ok: "sockets_ok (ls_socks s)" using living_inv [OF s(1) sample_ret s(2)] by (simp add: server_inv_def)
  obtain sd' st where sd': "sends_from True sample_link (sample_sends (ls_socks s)) sd'" "sd_from sd' = Ref st" "so_fds st = [2, 7]"
    using sample_sends_adopts [OF ok] s(4,6) by auto
  have fresh: "fresh_sockets sample_link (set (so_fds (ls_socks s)) - {a_socket (sd_addr (sample_sends (ls_socks s)))})"
    by (simp add: fresh_sockets_def sample_link_def s(4))
  have "sd_from (sample_sends (ls_socks s)) = Ref (ls_socks s)" "a_socket (sd_addr (sample_sends (ls_socks s))) \<noteq> hd (so_fds (ls_socks s))"
    by (simp_all add: sample_sends_def s(4))
  from lives.send [OF s(2) this fresh sd'(1,2)] have l: "lives s0 (s\<lparr>ls_socks := st\<rparr>)" .
  have "ls_protocol s = ls_protocol s0 \<and> hd (so_fds st) = hd (so_fds (ls_socks s0)) \<and>
      (\<forall>e \<in> set (sv_queued (ls_core s)). m_ts (q_msg e) = q_ts e \<and> m_refcount (q_msg e) = 1)"
    using living_server_sound [OF s(1) sample_ret l] by simp
  then show ?thesis using s l sd'(3)
    by (intro exI [of _ s0] exI [of _ m'] exI [of _ "s\<lparr>ls_socks := st\<rparr>"]) (auto simp: entry_def)
qed


theorem due_event_not_missed_witness:
  "\<exists>s can_alloc. lo_server_recv sample_env can_alloc \<lparr>in_now = Timetag 300 0, in_wakes = [], in_dgram = None, in_rounds = []\<rparr> s =
     map_option (\<lambda>(r, c). (r, s\<lparr>ls_core := c\<rparr>)) (dispatch_queued sample_env (ls_core s) False) \<and>
     sv_queued (ls_core s) = [sample_entry]"
proof -
  obtain s0 m' s where s: "lo_server_new_with_proto_internal (sample_host 0) NULL (Ref ''7770'') NULL NULL 1 True sample_making = Some (Ref s0, m')"
    "lives s0 s" "sv_queued (ls_core s) = [sample_entry]" "so_fds (ls_socks s) = [2]" "ls_protocol s0 = LO_UDP"
    by (rule sample_living)
  have e: "sample_entry \<in> set (sv_queued (ls_core s))" using s(3) by simp
  have "q_ts sample_entry \<le> in_now \<lparr>in_now = Timetag 300 0, in_wakes = [], in_dgram = None, in_rounds = []\<rparr>"
    by (simp add: entry_def less_eq_lo_timetag_def tt_key_def)
  from due_event_not_missed [OF s(1) sample_ret s(2) e this, of sample_env "\<lambda>_. True"] show ?thesis using s(3) by blast
qed

end
