(* ===== verification/Tools.thy ===== *)
theory Tools
  imports Send Printing Lifetime
begin

text \<open>
  The command-line tools: \<open>src/tools/oscsend.c\<close>, which makes a message of its arguments and sends it, and
  \<open>src/tools/oscdump.c\<close>, which prints what it receives. \<open>strtol\<close>, \<open>strtoll\<close> and the \<open>sscanf\<close> of a MIDI
  packet are modelled, \<open>strtof\<close> and \<open>strtod\<close> are parameters. What the tools write to \<open>stderr\<close> is an error
  value.
\<close>

section \<open>Numbers\<close>

text \<open>
  The digits of a \<open>long\<close> may be 32 or 64 bits; \<open>strtof\<close> and \<open>strtod\<close> give the value, what is left of the
  string and whether they set \<open>errno\<close> to \<open>ERANGE\<close>.
\<close>

record numerals =
  nm_long :: nat
  nm_strtof :: "byte list \<Rightarrow> u32 \<times> byte list \<times> bool"
  nm_strtod :: "byte list \<Rightarrow> u64 \<times> byte list \<times> bool"

definition long_max :: "nat \<Rightarrow> int" where "long_max bits = 2 ^ (bits - 1) - 1"
definition long_min :: "nat \<Rightarrow> int" where "long_min bits = - (2 ^ (bits - 1))"

definition is_digit :: "byte \<Rightarrow> bool" where
  "is_digit c \<longleftrightarrow> 48 \<le> (of_char c :: nat) \<and> (of_char c :: nat) \<le> 57"

text \<open>A sign before the digits: its value and the rest.\<close>

definition sign :: "byte list \<Rightarrow> int \<times> byte list" where
  "sign s =
     (if s \<noteq> [] \<and> hd s = CHR ''-'' then (- 1, tl s)
      else if s \<noteq> [] \<and> hd s = CHR ''+'' then (1, tl s)
      else (1, s))"

definition digits_value :: "byte list \<Rightarrow> int" where
  "digits_value ds = foldl (\<lambda>n c. n * 10 + (of_char c - 48)) 0 ds"

text \<open>
  \<open>strtol(s, &endp, 10)\<close> for a type of \<open>bits\<close> bits: the value, the string at \<open>endp\<close> and whether \<open>errno\<close>
  was set. Without digits \<open>endp\<close> is the start of the string.
\<close>

definition strtol :: "nat \<Rightarrow> byte list \<Rightarrow> int \<times> byte list \<times> bool" where
  "strtol bits s =
     (let (sg, u) = sign (dropWhile is_space s);
          v = sg * digits_value (takeWhile is_digit u);
          endp = dropWhile is_digit u
      in if takeWhile is_digit u = [] then (0, s, False)
         else if v > long_max bits then (long_max bits, endp, True)
         else if v < long_min bits then (long_min bits, endp, True)
         else (v, endp, False))"

text \<open>\<open>sscanf(s, "%08x", &midi)\<close>: at most eight characters, with sign and prefix; \<open>None\<close> unless it returns 1.\<close>

definition hex_digit :: "byte \<Rightarrow> nat option" where
  "hex_digit c =
     (let n = of_char c in
      if 48 \<le> n \<and> n \<le> 57 then Some (n - 48)
      else if 65 \<le> n \<and> n \<le> 70 then Some (n - 55)
      else if 97 \<le> n \<and> n \<le> 102 then Some (n - 87)
      else None)"

definition hex_value :: "byte list \<Rightarrow> nat" where
  "hex_value ds = foldl (\<lambda>n c. n * 16 + (case hex_digit c of Some d \<Rightarrow> d | None \<Rightarrow> 0)) 0 ds"

definition scan_hex :: "byte list \<Rightarrow> u32 option" where
  "scan_hex s =
     (let (sg, u) = sign (take 8 (dropWhile is_space s));
          v = (if take 2 u = ''0x'' \<or> take 2 u = ''0X'' then drop 2 u else u);
          ds = takeWhile (\<lambda>c. hex_digit c \<noteq> None) v
      in if ds = [] then None else Some (word_of_int (sg * int (hex_value ds))))"

section \<open>The message of \<open>oscsend\<close>\<close>

datatype tool_error =
    Not_given nat
  | Invalid_value "byte list"
  | Out_of_range "byte list"
  | Invalid_hex "byte list"
  | Unsupported byte

text \<open>The types for which a value is taken from the command line.\<close>

definition takes_value :: "byte \<Rightarrow> bool" where
  "takes_value t \<longleftrightarrow> (case lo_type_of t of None \<Rightarrow> False | Some ty \<Rightarrow> ty \<notin> {LO_TRUE, LO_FALSE, LO_NIL, LO_INFINITUM})"

text \<open>
  The second \<open>switch\<close>: an error, or the function that adds the argument. \<open>erange\<close> says whether \<open>errno\<close> is
  \<open>ERANGE\<close>; it is never cleared.
\<close>

definition create_value ::
  "alloc \<Rightarrow> bool \<Rightarrow> numerals \<Rightarrow> bool \<Rightarrow> byte \<Rightarrow> byte list \<Rightarrow> (tool_error + (lo_message \<Rightarrow> int \<times> lo_message)) \<times> bool" where
  "create_value al be nm erange t arg =
     (let LONG_MAX = long_max (nm_long nm); LONG_MIN = long_min (nm_long nm) in
      case lo_type_of t of
        Some LO_INT32 \<Rightarrow>
          (case strtol (nm_long nm) arg of (v, endp, rng) \<Rightarrow>
             (if endp \<noteq> [] then Inl (Invalid_value arg)
              else if (v = LONG_MAX \<or> v = LONG_MIN) \<and> (erange \<or> rng) then Inl (Out_of_range arg)
              else if v > 2 ^ 31 - 1 \<or> v < - (2 ^ 31) then Inl (Out_of_range arg)
              else Inr (\<lambda>m. lo_message_add_int32 al be m (word_of_int v)),
              erange \<or> rng))
      | Some LO_INT64 \<Rightarrow>
          (case strtol 64 arg of (v, endp, rng) \<Rightarrow>
             (if endp \<noteq> [] then Inl (Invalid_value arg)
              else if (v = LONG_MAX \<or> v = LONG_MIN) \<and> (erange \<or> rng) then Inl (Out_of_range arg)
              else Inr (\<lambda>m. lo_message_add_int64 al be m (word_of_int v)),
              erange \<or> rng))
      | Some LO_FLOAT \<Rightarrow>
          (case nm_strtof nm arg of (v, endp, rng) \<Rightarrow>
             (if endp \<noteq> [] then Inl (Invalid_value arg) else Inr (\<lambda>m. lo_message_add_float al be m v),
              erange \<or> rng))
      | Some LO_DOUBLE \<Rightarrow>
          (case nm_strtod nm arg of (v, endp, rng) \<Rightarrow>
             (if endp \<noteq> [] then Inl (Invalid_value arg) else Inr (\<lambda>m. lo_message_add_double al be m v),
              erange \<or> rng))
      | Some LO_STRING \<Rightarrow> (Inr (\<lambda>m. lo_message_add_string al m arg), erange)
      | Some LO_SYMBOL \<Rightarrow> (Inr (\<lambda>m. lo_message_add_symbol al m arg), erange)
      | Some LO_CHAR \<Rightarrow> (Inr (\<lambda>m. lo_message_add_char al m (hd (arg @ [NUL]))), erange)
      | Some LO_MIDI \<Rightarrow>
          (case scan_hex arg of
             None \<Rightarrow> (Inl (Invalid_hex arg), erange)
           | Some midi \<Rightarrow>
               (Inr (\<lambda>m. lo_message_add_midi al m
                  (byte_of (drop_bit 24 midi), byte_of (drop_bit 16 midi), byte_of (drop_bit 8 midi), byte_of midi)), erange))
      | Some LO_TRUE \<Rightarrow> (Inr (\<lambda>m. lo_message_add_true al m), erange)
      | Some LO_FALSE \<Rightarrow> (Inr (\<lambda>m. lo_message_add_false al m), erange)
      | Some LO_NIL \<Rightarrow> (Inr (\<lambda>m. lo_message_add_nil al m), erange)
      | Some LO_INFINITUM \<Rightarrow> (Inr (\<lambda>m. lo_message_add_infinitum al m), erange)
      | _ \<Rightarrow> (Inl (Unsupported t), erange))"

text \<open>
  The loop over the types: \<open>args\<close> are the values from \<open>argv[argi]\<close> on. The results of the functions that
  add are ignored; a failed allocation leaves another value in \<open>errno\<close>. Adding to a message that could
  not be had is undefined.
\<close>

fun create_loop ::
  "(nat \<Rightarrow> alloc) \<Rightarrow> bool \<Rightarrow> numerals \<Rightarrow> nat \<Rightarrow> byte list \<Rightarrow> byte list list \<Rightarrow> bool \<Rightarrow> lo_message ptr \<Rightarrow>
   (tool_error + lo_message ptr) option" where
  "create_loop al be nm i [] args erange message = Some (Inr message)"
| "create_loop al be nm i (t # types) args erange message =
     (if takes_value t \<and> args = [] then Some (Inl (Not_given (i + 1)))
      else
        case create_value (al (Suc i)) be nm erange t (if takes_value t then hd args else []) of
          (Inl e, _) \<Rightarrow> Some (Inl e)
        | (Inr add, erange1) \<Rightarrow>
            (case message of
               NULL \<Rightarrow> None
             | Ref m \<Rightarrow>
                 (case add m of (r, m1) \<Rightarrow>
                    create_loop al be nm (i + 1) types (if takes_value t then tl args else args) (erange1 \<and> r = 0) (Ref m1))))"

text \<open>
  \<open>argv\<close> holds the types, if there are any, and the values. \<open>Inl\<close> stands for the return of NULL at
  \<open>EXIT\<close>, after the message was freed.
\<close>

definition create_message ::
  "(nat \<Rightarrow> alloc) \<Rightarrow> bool \<Rightarrow> numerals \<Rightarrow> byte list list \<Rightarrow> (tool_error + lo_message ptr) option" where
  "create_message al be nm argv = do {
     message \<leftarrow> lo_message_new (al 0);
     (case argv of
        [] \<Rightarrow> Some (Inr message)
      | types # args \<Rightarrow> create_loop al be nm 0 types args False message)
   }"

section \<open>\<open>oscsend\<close>\<close>

text \<open>\<open>strstr(s, p) != 0\<close>\<close>

fun contains :: "byte list \<Rightarrow> byte list \<Rightarrow> bool" where
  "contains p [] = (p = [])"
| "contains p (c # s) = (starts_with (c # s) p \<or> contains p s)"

text \<open>The target, from \<open>argv[1]\<close> on, and what follows it; NULL: the program exits.\<close>

definition oscsend_target :: "bool \<Rightarrow> alloc \<Rightarrow> byte list list \<Rightarrow> (lo_address ptr \<times> byte list list) option" where
  "oscsend_target strict al args =
     (case args of
        [] \<Rightarrow> Some (NULL, [])
      | a # rest \<Rightarrow>
          if contains ''://'' a then map_option (\<lambda>t. (t, rest)) (lo_address_new_from_url strict al (Ref a))
          else (case rest of
                  [] \<Rightarrow> Some (NULL, [])
                | p # rest1 \<Rightarrow> Some (lo_address_new al (Ref a) (Ref p), rest1)))"

text \<open>
  \<open>main\<close>, with the arguments behind the name of the program: the exit status and the system calls made. At
  the start there is no socket for UDP.
\<close>

definition oscsend_main ::
  "bool \<Rightarrow> (nat \<Rightarrow> alloc) \<Rightarrow> bool \<Rightarrow> numerals \<Rightarrow> os \<Rightarrow> byte list list \<Rightarrow> (int \<times> os_call list) option" where
  "oscsend_main strict al be nm os args =
     (if length args < 2 then Some (1, [])
      else do {
        (target, rest) \<leftarrow> oscsend_target strict (al 0) args;
        (case (target, rest) of
           (Ref a, path # values) \<Rightarrow> do {
             message \<leftarrow> create_message (\<lambda>n. al (Suc n)) be nm values;
             (case message of
                Inr (Ref m) \<Rightarrow> do {
                  (ret, s) \<leftarrow> lo_send_message be os path m
                    \<lparr>sd_calls = [], sd_client_udp = - 1, sd_addr = lo_address_set_ttl a 1, sd_from = NULL\<rparr>;
                  Some (if ret = - 1 then 1 else 0, sd_calls s)
                }
              | _ \<Rightarrow> Some (1, []))
           }
         | _ \<Rightarrow> Some (1, []))
      })"

section \<open>\<open>oscdump\<close>\<close>

text \<open>\<open>where\<close> may be NULL, which \<open>%s\<close> does not take.\<close>

definition error_handler :: "int \<Rightarrow> byte list \<Rightarrow> byte list ptr \<Rightarrow> byte list option" where
  "error_handler num msg path =
     (case path of
        NULL \<Rightarrow> None
      | Ref p \<Rightarrow> Some (''liblo server error '' @ dec_int num @ '' in path '' @ p @ '': '' @ msg @ [CHR 0x0A]))"

text \<open>The loop of \<open>messageHandler\<close> over the \<open>argc\<close> arguments.\<close>

fun dump_args :: "bool \<Rightarrow> printf \<Rightarrow> byte list \<Rightarrow> nat \<Rightarrow> byte list \<Rightarrow> nat ptr list \<Rightarrow> printed option" where
  "dump_args be pf data 0 types argv = Some ([], [])"
| "dump_args be pf data (Suc n) (t # types) (p # argv) = do {
     (out, warn) \<leftarrow> lo_arg_pp be pf t (case p of NULL \<Rightarrow> [] | Ref off \<Rightarrow> drop off data);
     (out1, warn1) \<leftarrow> dump_args be pf data n types argv;
     Some (CHR '' '' # out @ out1, warn @ warn1)
   }"
| "dump_args be pf data (Suc n) _ _ = None"

definition message_handler :: "bool \<Rightarrow> printf \<Rightarrow> call \<Rightarrow> printed option" where
  "message_handler be pf c = do {
     (out, warn) \<leftarrow> dump_args be pf (c_data c) (c_argc c) (c_types c) (case c_argv c of NULL \<Rightarrow> [] | Ref argv \<Rightarrow> argv);
     Some (c_path c @ '' '' @ c_types c @ out @ [CHR 0x0A], warn)
   }"

text \<open>The server that \<open>main\<close> makes: by a multicast group, a port or a URL; NULL: it exits.\<close>

definition oscdump_server :: "bool \<Rightarrow> host \<Rightarrow> byte list list \<Rightarrow> making \<Rightarrow> (lo_server ptr \<times> making) option" where
  "oscdump_server strict h args m =
     (case args of
        [] \<Rightarrow> Some (NULL, m)
      | [port] \<Rightarrow>
          if is_digit (hd (port @ [NUL])) then lo_server_new h (Ref port) True m
          else lo_server_new_from_url strict h (Ref port) True m
      | port # grp # _ \<Rightarrow> lo_server_new_multicast h (Ref grp) (Ref port) True m)"

text \<open>Then the handler, number \<open>hdl\<close>, is added for every message; the result is not looked at.\<close>

definition oscdump_start ::
  "bool \<Rightarrow> host \<Rightarrow> alloc \<Rightarrow> nat \<Rightarrow> byte list list \<Rightarrow> making \<Rightarrow> (lo_server ptr \<times> making) option" where
  "oscdump_start strict h al hdl args m = do {
     (sp, m1) \<leftarrow> oscdump_server strict h args m;
     (case sp of
        NULL \<Rightarrow> Some (NULL, m1)
      | Ref s \<Rightarrow> do {
          (_, ms) \<leftarrow> lo_server_add_method al (sv_methods (ls_core s)) NULL NULL hdl 0;
          Some (Ref (s\<lparr>ls_core := (ls_core s)\<lparr>sv_methods := ms\<rparr>\<rparr>), m1)
        })
   }"

text \<open>The endless loop, for as long as there is input.\<close>

fun oscdump_loop :: "env \<Rightarrow> (nat \<Rightarrow> bool) \<Rightarrow> input list \<Rightarrow> lo_server \<Rightarrow> lo_server option" where
  "oscdump_loop env can_alloc [] s = Some s"
| "oscdump_loop env can_alloc (inp # inps) s = do {
     (_, s1) \<leftarrow> lo_server_recv env can_alloc inp s;
     oscdump_loop env can_alloc inps s1
   }"

section \<open>Reading back what was printed\<close>

lemma digit_of: "n < 10 \<Longrightarrow> is_digit (''0123456789'' ! n) \<and> of_char (''0123456789'' ! n) = 48 + int n"
  by (auto simp: less_Suc_eq numeral_eq_Suc is_digit_def)

lemma dec_digits: "list_all is_digit (dec n) \<and> dec n \<noteq> []"
proof (induction n rule: dec.induct)
  case (1 n)
  then show ?case using digit_of [of "n mod 10"] digit_of [of n]
    by (cases "n < 10") (simp_all add: dec.simps [of n])
qed

lemma digits_value_snoc: "digits_value (ds @ [c]) = digits_value ds * 10 + (of_char c - 48)"
  by (simp add: digits_value_def)

lemma digits_value_dec: "digits_value (dec n) = int n"
proof (induction n rule: dec.induct)
  case (1 n)
  show ?case
  proof (cases "n < 10")
    case True
    then show ?thesis using digit_of [of n] by (simp add: dec.simps [of n] digits_value_def)
  next
    case False
    then have "digits_value (dec (n div 10) @ [''0123456789'' ! (n mod 10)]) = int (n div 10) * 10 + int (n mod 10)"
      using 1 digit_of [of "n mod 10"] by (simp add: digits_value_snoc)
    also have "\<dots> = int n" by presburger
    finally show ?thesis using False by (simp add: dec.simps [of n])
  qed
qed

lemma digit_not: "is_digit c \<Longrightarrow> \<not> is_space c \<and> c \<noteq> CHR ''-'' \<and> c \<noteq> CHR ''+''"
  by (auto simp: is_space_def is_digit_def)

lemma scan_digits: "list_all is_digit ds \<Longrightarrow> takeWhile is_digit ds = ds \<and> dropWhile is_digit ds = []"
  by (induction ds) auto

lemma sign_dec_int:
  "sign (dropWhile is_space (dec_int v)) = (if v < 0 then - 1 else 1, dec (nat \<bar>v\<bar>))"
proof -
  obtain c cs where c: "dec (nat \<bar>v\<bar>) = c # cs" "is_digit c"
    using dec_digits [of "nat \<bar>v\<bar>"] by (cases "dec (nat \<bar>v\<bar>)") auto
  have "\<not> is_space (CHR ''-'')" by (simp add: is_space_def)
  then show ?thesis using c digit_not [OF c(2)] by (cases "v < 0") (simp_all add: dec_int_def sign_def)
qed

lemma strtol_dec_int:
  assumes "long_min bits \<le> v" "v \<le> long_max bits"
  shows "strtol bits (dec_int v) = (v, [], False)"
proof -
  define sg :: int where "sg = (if v < 0 then - 1 else 1)"
  define ds where "ds = dec (nat \<bar>v\<bar>)"
  have "sg * digits_value ds = v" by (simp add: digits_value_dec sg_def ds_def)
  moreover have "sign (dropWhile is_space (dec_int v)) = (sg, ds)" by (simp add: sign_dec_int sg_def ds_def)
  moreover have "takeWhile is_digit ds = ds" "dropWhile is_digit ds = []" "ds \<noteq> []"
    using dec_digits [of "nat \<bar>v\<bar>"] scan_digits [of ds] by (simp_all add: ds_def [symmetric] del: takeWhile_eq_all_conv dropWhile_eq_Nil_conv)
  ultimately show ?thesis using assms
    by (simp add: strtol_def Let_def del: takeWhile_eq_all_conv dropWhile_eq_Nil_conv)
qed

lemma hex_digit_of: "n < 16 \<Longrightarrow> hex_digit (''0123456789abcdef'' ! n) = Some n"
  by (auto simp: hex_digit_def less_Suc_eq numeral_eq_Suc)

lemma hex_digits_hex: "list_all (\<lambda>c. hex_digit c \<noteq> None) (hex_digits k n) \<and> length (hex_digits k n) = k"
  by (induction k arbitrary: n) (simp_all add: hex_digit_of del: nth_Cons_numeral)

lemma hex_value_digits: "hex_value (hex_digits k n) = n mod 16 ^ k"
proof (induction k arbitrary: n)
  case (Suc k)
  have "hex_value (hex_digits (Suc k) n) = hex_value (hex_digits k (n div 16)) * 16 + n mod 16"
    by (simp add: hex_value_def hex_digit_of del: nth_Cons_numeral)
  then show ?case unfolding Suc by (simp add: mod_mult2_eq mult.commute add.commute)
qed (simp add: hex_value_def)

lemma hex_digit_not: "hex_digit c = Some d \<Longrightarrow> \<not> is_space c \<and> c \<noteq> CHR ''-'' \<and> c \<noteq> CHR ''+'' \<and> c \<noteq> CHR ''x'' \<and> c \<noteq> CHR ''X''"
  by (auto simp: hex_digit_def is_space_def Let_def split: if_splits)

lemma scan_hex32: "scan_hex (hex32 w) = Some w"
proof -
  define h where "h = hex32 w"
  have h: "list_all (\<lambda>c. hex_digit c \<noteq> None) h" "length h = 8" using hex_digits_hex by (simp_all add: h_def hex32_def)
  then obtain a b cs where ab: "h = a # b # cs" by (cases h; cases "tl h") auto
  then obtain x y where xy: "hex_digit a = Some x" "hex_digit b = Some y" using h(1) by auto
  have all: "takeWhile (\<lambda>c. hex_digit c \<noteq> None) h = h" using h(1) by (simp add: list_all_iff)
  have start: "dropWhile is_space h = h" "take 8 h = h" "sign h = (1, h)" "\<not> (take 2 h = ''0x'' \<or> take 2 h = ''0X'')" "h \<noteq> []"
    using hex_digit_not [OF xy(1)] hex_digit_not [OF xy(2)] h(2) by (simp_all add: ab sign_def)
  have "hex_value h = unat w mod 16 ^ 8" by (simp add: h_def hex32_def hex_value_digits)
  also have "\<dots> = unat w" using unsigned_less [of w, where ?'a = nat] by simp
  finally have v: "hex_value h = unat w" .
  have "scan_hex h = Some (word_of_int (1 * int (hex_value h)))"
    using start by (simp only: scan_hex_def Let_def all split) (simp add: all del: not_None_eq)
  then show ?thesis by (simp add: h_def [symmetric] v)
qed

section \<open>What \<open>oscsend\<close> makes of values\<close>

text \<open>The texts that stand for an argument on the command line: none, or one.\<close>

fun text_of :: "bool \<Rightarrow> numerals \<Rightarrow> osc_arg \<Rightarrow> byte list list \<Rightarrow> bool" where
  "text_of be nm (OInt32 w) ts = (ts = [dec_int (sint w)])"
| "text_of be nm (OInt64 w) ts = (ts = [dec_int (sint w)])"
| "text_of be nm (OFloat w) ts = (\<exists>s. ts = [s] \<and> nm_strtof nm s = (w, [], False))"
| "text_of be nm (ODouble w) ts = (\<exists>s. ts = [s] \<and> nm_strtod nm s = (w, [], False))"
| "text_of be nm (OString s) ts = (ts = [s])"
| "text_of be nm (OSymbol s) ts = (ts = [s])"
| "text_of be nm (OChar w) ts = (\<exists>c s. ts = [c # s] \<and> w = char_cell be c)"
| "text_of be nm (OMidi a b c d) ts = (ts = [hex32 (join32 a b c d)])"
| "text_of be nm (OBlob d) ts = False"
| "text_of be nm (OTimetag t) ts = False"
| "text_of be nm _ ts = (ts = [])"

text \<open>
  What \<open>oscdump\<close> prints for an argument that was sent with these texts: integers and strings as they were given,
  of a character the first one, but NUL in its place when the two hosts differ in the order of bytes (\<open>same\<close>).
\<close>

fun dumped :: "bool \<Rightarrow> printf \<Rightarrow> osc_arg \<Rightarrow> byte list list \<Rightarrow> byte list" where
  "dumped same pf (OInt32 w) ts = concat ts"
| "dumped same pf (OInt64 w) ts = concat ts"
| "dumped same pf (OString s) ts = CHR 0x22 # concat ts @ [CHR 0x22]"
| "dumped same pf (OSymbol s) ts = CHR 0x27 # concat ts"
| "dumped same pf (OChar w) ts = [CHR 0x27, if same then hd (concat ts) else NUL, CHR 0x27]"
| "dumped same pf a ts = show_arg True pf a"

lemma dumped_text: "text_of be nm a ts \<Longrightarrow> show_arg be' pf a = dumped (be' = be) pf a ts"
  using char_read [of be' be] by (cases a) auto

lemma dumped_texts:
  "list_all2 (text_of be nm) xs vs \<Longrightarrow>
   concat (map (\<lambda>a. CHR '' '' # show_arg be' pf a) xs) = concat (map2 (\<lambda>a ts. CHR '' '' # dumped (be' = be) pf a ts) xs vs)"
  by (induction rule: list_all2_induct) (simp_all add: dumped_text [of be nm])

lemma text_of_value: "text_of be nm a ts \<Longrightarrow> (takes_value (arg_tag a) \<longrightarrow> (\<exists>s. ts = [s])) \<and> (\<not> takes_value (arg_tag a) \<longrightarrow> ts = [])"
  by (cases a) (auto simp: takes_value_def arg_tag_def)

lemma sint_bounds32: "- (2 ^ 31) \<le> sint (w :: u32)" "sint (w :: u32) \<le> 2 ^ 31 - 1"
  using sint_range_size [of w] by (simp_all add: word_size)

lemma sint_bounds64: "- (2 ^ 63) \<le> sint (w :: u64)" "sint (w :: u64) \<le> 2 ^ 63 - 1"
  using sint_range_size [of w] by (simp_all add: word_size)

lemma appended:
  assumes "msg_repr be m xs" "alloc_total al" "args_len xs + n \<le> lo_pow2_safe" "arg_ok a" "length (wire_arg a) \<le> n"
  shows "\<exists>m'. add_arg al m (arg_tag a) (length (wire_arg a)) (host_arg be a) = (0, m') \<and> msg_repr be m' (xs @ [a])"
    and "wire_arg a = [] \<Longrightarrow> \<exists>m'. lo_message_add_typechar al m (arg_tag a) = (0, m') \<and> msg_repr be m' (xs @ [a])"
proof -
  have ok: "alloc_ok al" using assms(2) by (rule alloc_total_ok)
  obtain m1 where "add_arg al m (arg_tag a) (length (wire_arg a)) (host_arg be a) = (0, m1)"
    using add_arg_total [OF assms(2)] by blast
  then show "\<exists>m'. add_arg al m (arg_tag a) (length (wire_arg a)) (host_arg be a) = (0, m') \<and> msg_repr be m' (xs @ [a])"
    using add_arg_repr [OF assms(1) ok assms(4)] assms(3,5) by auto
  obtain m2 where "lo_message_add_typechar al m (arg_tag a) = (0, m2)"
    using add_typechar_total [OF assms(2)] by blast
  then show "\<exists>m'. lo_message_add_typechar al m (arg_tag a) = (0, m') \<and> msg_repr be m' (xs @ [a])" if "wire_arg a = []"
    using add_typechar_repr [OF assms(1) ok assms(4) that] by auto
qed

lemmas add_defs = lo_message_add_int32_def lo_message_add_float_def lo_message_add_string_def
  lo_message_add_symbol_def lo_message_add_int64_def lo_message_add_double_def lo_message_add_char_def
  lo_message_add_midi_def lo_message_add_true_def lo_message_add_false_def lo_message_add_nil_def
  lo_message_add_infinitum_def

lemma create_value_step:
  assumes "text_of be nm a ts" "msg_repr be m xs" "arg_ok a" "alloc_total al" "32 \<le> nm_long nm"
    and "args_len xs + length (wire_arg a) \<le> lo_pow2_safe"
  shows "\<exists>add m'. create_value al be nm False (arg_tag a) (hd (ts @ [[]])) = (Inr add, False) \<and>
    add m = (0, m') \<and> msg_repr be m' (xs @ [a])"
proof -
  obtain m1 where m1: "add_arg al m (arg_tag a) (length (wire_arg a)) (host_arg be a) = (0, m1)" "msg_repr be m1 (xs @ [a])"
    using appended(1) [OF assms(2,4,6,3)] by auto
  note m2 = appended(2) [OF assms(2,4,6,3)]
  show ?thesis
  proof (cases a)
    case (OInt32 w)
    have "(2 :: int) ^ 31 \<le> 2 ^ (nm_long nm - 1)" using assms(5) by (intro power_increasing) simp_all
    then have "strtol (nm_long nm) (dec_int (sint w)) = (sint w, [], False)"
      using sint_bounds32 [of w] by (intro strtol_dec_int) (simp_all add: long_min_def long_max_def)
    then show ?thesis using assms(1) m1 sint_bounds32 [of w] OInt32
      by (simp add: create_value_def arg_tag_def add_defs)
  next
    case (OInt64 w)
    have "strtol 64 (dec_int (sint w)) = (sint w, [], False)"
      using sint_bounds64 [of w] by (intro strtol_dec_int) (simp_all add: long_min_def long_max_def)
    then show ?thesis using assms(1) m1 OInt64 by (simp add: create_value_def arg_tag_def add_defs)
  next
    case (OMidi a b c d)
    have "add_arg al m (typechar LO_MIDI) 4 [a, b, c, d] = (0, m1)"
      using m1(1) OMidi by (simp add: arg_tag_def eval_nat_numeral)
    then show ?thesis using assms(1) m1(2) OMidi
      by (simp add: create_value_def arg_tag_def add_defs scan_hex32 be32_join32 [unfolded be32_def, simplified])
  qed (use assms(1) m1 m2 in \<open>auto simp: create_value_def add_defs arg_tag_def Let_def\<close>)
qed

lemma create_loop_args:
  assumes "list_all2 (text_of be nm) ys vs" "msg_repr be m xs" "list_all arg_ok ys"
    and "\<And>c. alloc_total (al c)" "args_len (xs @ ys) \<le> lo_pow2_safe" "32 \<le> nm_long nm"
  shows "\<exists>m'. create_loop al be nm i (map arg_tag ys) (concat vs @ rest) False (Ref m) = Some (Inr (Ref m')) \<and> msg_repr be m' (xs @ ys)"
  using assms(1-3,5)
proof (induction ys arbitrary: vs m xs i)
  case Nil
  then show ?case by auto
next
  case (Cons a ys)
  then obtain v vs' where vs: "vs = v # vs'" "text_of be nm a v" "list_all2 (text_of be nm) ys vs'"
    by (auto simp: list_all2_Cons1)
  obtain add m1 where m1: "create_value (al (Suc i)) be nm False (arg_tag a) (hd (v @ [[]])) = (Inr add, False)"
    "add m = (0, m1)" "msg_repr be m1 (xs @ [a])"
    using create_value_step [OF vs(2) Cons.prems(2) _ assms(4) assms(6), of "Suc i"] Cons.prems by auto
  obtain m2 where m2: "create_loop al be nm (i + 1) (map arg_tag ys) (concat vs' @ rest) False (Ref m1) = Some (Inr (Ref m2))"
    "msg_repr be m2 ((xs @ [a]) @ ys)"
    using Cons.IH [OF vs(3) m1(3), of "i + 1"] Cons.prems by auto
  show ?case using text_of_value [OF vs(2)] m1 m2 vs(1)
    by (cases "takes_value (arg_tag a)") auto
qed

text \<open>What an argument that was made of a text has to do with it.\<close>

fun read_as :: "bool \<Rightarrow> numerals \<Rightarrow> osc_arg \<Rightarrow> byte list \<Rightarrow> bool" where
  "read_as be nm (OInt32 w) t = (strtol (nm_long nm) t = (sint w, [], False))"
| "read_as be nm (OInt64 w) t = (\<exists>r. strtol 64 t = (sint w, [], r) \<and> (nm_long nm = 64 \<longrightarrow> \<not> r))"
| "read_as be nm (OFloat w) t = (\<exists>r. nm_strtof nm t = (w, [], r))"
| "read_as be nm (ODouble w) t = (\<exists>r. nm_strtod nm t = (w, [], r))"
| "read_as be nm (OString s) t = (s = t)"
| "read_as be nm (OSymbol s) t = (s = t)"
| "read_as be nm (OChar w) t = (w = char_cell be (hd (t @ [NUL])))"
| "read_as be nm (OMidi a b c d) t = (scan_hex t = Some (join32 a b c d))"
| "read_as be nm (OBlob d) t = False"
| "read_as be nm (OTimetag x) t = False"
| "read_as be nm _ t = True"

lemma strtol_range: "strtol bits s = (v, e, r) \<Longrightarrow> 1 \<le> bits \<Longrightarrow>
  long_min bits \<le> v \<and> v \<le> long_max bits \<and> (r \<longrightarrow> v = long_max bits \<or> v = long_min bits)"
  by (auto simp: strtol_def Let_def long_min_def long_max_def split: prod.splits if_splits)

lemma sint_of_int32: "- (2 ^ 31) \<le> v \<Longrightarrow> v \<le> 2 ^ 31 - 1 \<Longrightarrow> sint (word_of_int v :: u32) = v"
  by (simp add: sint_sbintrunc' signed_take_bit_int_eq_self)

lemma sint_of_int64: "- (2 ^ 63) \<le> v \<Longrightarrow> v \<le> 2 ^ 63 - 1 \<Longrightarrow> sint (word_of_int v :: u64) = v"
  by (simp add: sint_sbintrunc' signed_take_bit_int_eq_self)

text \<open>The argument that a value becomes.\<close>

definition made_of :: "bool \<Rightarrow> numerals \<Rightarrow> byte \<Rightarrow> byte list \<Rightarrow> osc_arg \<Rightarrow> bool" where
  "made_of be nm t arg a \<longleftrightarrow> arg_tag a = t \<and> read_as be nm a arg \<and> length (wire_arg a) \<le> length arg + 8 \<and> arg_ok a"

lemma create_value_reads:
  assumes "create_value al be nm er t arg = (Inr add, er')" "msg_repr be m xs" "NUL \<notin> set arg" "alloc_total al"
    and "args_len xs + (length arg + 8) \<le> lo_pow2_safe" "nm_long nm \<in> {32, 64}"
  shows "\<exists>a m'. add m = (0, m') \<and> msg_repr be m' (xs @ [a]) \<and> made_of be nm t arg a"
proof -
  note ap = appended [OF assms(2,4,5)]
  have bits: "1 \<le> nm_long nm" using assms(6) by auto
  obtain ty where ty: "lo_type_of t = Some ty" using assms(1) by (cases "lo_type_of t") (auto simp: create_value_def)
  then have t: "t = typechar ty" by (simp add: lo_type_of_Some)
  show ?thesis
  proof (cases ty)
    case LO_INT32
    then obtain v r where v: "strtol (nm_long nm) arg = (v, [], r)" "- (2 ^ 31) \<le> v" "v \<le> 2 ^ 31 - 1"
      "\<not> ((v = long_max (nm_long nm) \<or> v = long_min (nm_long nm)) \<and> (er \<or> r))"
      "add = (\<lambda>m. lo_message_add_int32 al be m (word_of_int v))"
      using assms(1) ty by (auto simp: create_value_def Let_def split: prod.splits if_splits)
    moreover have "\<not> r" using strtol_range [OF v(1) bits] v(4) by blast
    ultimately show ?thesis using ap(1) [of "OInt32 (word_of_int v)"] LO_INT32 t
      by (intro exI [of _ "OInt32 (word_of_int v)"]) (simp add: made_of_def arg_tag_def add_defs sint_of_int32)
  next
    case LO_INT64
    then obtain v r where v: "strtol 64 arg = (v, [], r)"
      "\<not> ((v = long_max (nm_long nm) \<or> v = long_min (nm_long nm)) \<and> (er \<or> r))"
      "add = (\<lambda>m. lo_message_add_int64 al be m (word_of_int v))"
      using assms(1) ty by (auto simp: create_value_def Let_def split: prod.splits if_splits)
    note rg = strtol_range [OF v(1)]
    have "- (2 ^ 63) \<le> v" "v \<le> 2 ^ 63 - 1" using rg by (simp_all add: long_min_def long_max_def)
    moreover have "nm_long nm = 64 \<longrightarrow> \<not> r" using rg v(2) by auto
    ultimately show ?thesis using ap(1) [of "OInt64 (word_of_int v)"] LO_INT64 t v
      by (intro exI [of _ "OInt64 (word_of_int v)"]) (simp add: made_of_def arg_tag_def add_defs sint_of_int64)
  next
    case LO_FLOAT
    then obtain v r where "nm_strtof nm arg = (v, [], r)" "add = (\<lambda>m. lo_message_add_float al be m v)"
      using assms(1) ty by (auto simp: create_value_def Let_def split: prod.splits if_splits)
    then show ?thesis using ap(1) [of "OFloat v"] LO_FLOAT t
      by (intro exI [of _ "OFloat v"]) (simp add: made_of_def arg_tag_def add_defs)
  next
    case LO_DOUBLE
    then obtain v r where "nm_strtod nm arg = (v, [], r)" "add = (\<lambda>m. lo_message_add_double al be m v)"
      using assms(1) ty by (auto simp: create_value_def Let_def split: prod.splits if_splits)
    then show ?thesis using ap(1) [of "ODouble v"] LO_DOUBLE t
      by (intro exI [of _ "ODouble v"]) (simp add: made_of_def arg_tag_def add_defs)
  next
    case LO_STRING
    then show ?thesis using ap(1) [of "OString arg"] t ty assms(1,3) lo_strsize_le [of arg]
      by (intro exI [of _ "OString arg"]) (auto simp: create_value_def Let_def made_of_def arg_tag_def add_defs)
  next
    case LO_SYMBOL
    then show ?thesis using ap(1) [of "OSymbol arg"] t ty assms(1,3) lo_strsize_le [of arg]
      by (intro exI [of _ "OSymbol arg"]) (auto simp: create_value_def Let_def made_of_def arg_tag_def add_defs)
  next
    case LO_CHAR
    then show ?thesis using ap(1) [of "OChar (char_cell be (hd (arg @ [NUL])))"] t ty assms(1)
      by (intro exI [of _ "OChar (char_cell be (hd (arg @ [NUL])))"])
        (auto simp: create_value_def Let_def made_of_def arg_tag_def add_defs)
  next
    case LO_MIDI
    then obtain w where w: "scan_hex arg = Some w"
      "add = (\<lambda>m. lo_message_add_midi al m (byte_of (drop_bit 24 w), byte_of (drop_bit 16 w), byte_of (drop_bit 8 w), byte_of w))"
      using assms(1) ty by (auto simp: create_value_def Let_def split: option.splits)
    define a where "a = OMidi (byte_of (drop_bit 24 w)) (byte_of (drop_bit 16 w)) (byte_of (drop_bit 8 w)) (byte_of w)"
    have "length (wire_arg a) = 4" "read_as be nm a arg" "arg_tag a = t" "arg_ok a" using w LO_MIDI t by (simp_all add: a_def arg_tag_def)
    then show ?thesis using ap(1) [of a] w(2)
      by (intro exI [of _ a]) (auto simp: made_of_def a_def arg_tag_def add_defs eval_nat_numeral)
  next
    case LO_TRUE
    then show ?thesis using ap(2) [of OTrue] t ty assms(1)
      by (intro exI [of _ OTrue]) (auto simp: create_value_def Let_def made_of_def arg_tag_def add_defs)
  next
    case LO_FALSE
    then show ?thesis using ap(2) [of OFalse] t ty assms(1)
      by (intro exI [of _ OFalse]) (auto simp: create_value_def Let_def made_of_def arg_tag_def add_defs)
  next
    case LO_NIL
    then show ?thesis using ap(2) [of ONil] t ty assms(1)
      by (intro exI [of _ ONil]) (auto simp: create_value_def Let_def made_of_def arg_tag_def add_defs)
  next
    case LO_INFINITUM
    then show ?thesis using ap(2) [of OInfinitum] t ty assms(1)
      by (intro exI [of _ OInfinitum]) (auto simp: create_value_def Let_def made_of_def arg_tag_def add_defs)
  qed (use assms(1) ty in \<open>auto simp: create_value_def Let_def\<close>)
qed

text \<open>The values that go with the types, one for each type that takes one.\<close>

fun paired :: "bool \<Rightarrow> numerals \<Rightarrow> byte list \<Rightarrow> byte list list \<Rightarrow> osc_arg list \<Rightarrow> bool" where
  "paired be nm [] args xs = (xs = [])"
| "paired be nm (t # types) args xs =
     (\<exists>a ys. xs = a # ys \<and>
       (if takes_value t then args \<noteq> [] \<and> made_of be nm t (hd args) a \<and> paired be nm types (tl args) ys
        else made_of be nm t [] a \<and> paired be nm types args ys))"

lemma paired_tags: "paired be nm types args xs \<Longrightarrow> map arg_tag xs = types"
proof (induction types arbitrary: args xs)
  case (Cons t types)
  then show ?case by (cases "takes_value t") (auto simp: made_of_def)
qed simp

definition room :: "byte list \<Rightarrow> byte list list \<Rightarrow> nat" where
  "room types args = 8 * length types + sum_list (map length args)"

lemma create_loop_reads:
  assumes "msg_repr be m xs" "list_all (\<lambda>a. NUL \<notin> set a) args" "\<And>c. alloc_total (al c)"
    and "args_len xs + room types args \<le> lo_pow2_safe" "nm_long nm \<in> {32, 64}"
  shows "\<exists>r. create_loop al be nm i types args er (Ref m) = Some r \<and>
    (\<forall>mp. r = Inr mp \<longrightarrow> (\<exists>m' ys. mp = Ref m' \<and> msg_repr be m' (xs @ ys) \<and> paired be nm types args ys))"
  using assms(1,2,4)
proof (induction types arbitrary: m xs args er i)
  case Nil
  then show ?case by auto
next
  case (Cons t types)
  define arg where "arg = (if takes_value t then hd args else [])"
  define args' where "args' = (if takes_value t then tl args else args)"
  show ?case
  proof (cases "takes_value t \<and> args = []")
    case False
    have arg: "NUL \<notin> set arg" "list_all (\<lambda>a. NUL \<notin> set a) args'" "length arg + sum_list (map length args') \<le> sum_list (map length args)"
      using Cons.prems(2) False by (cases args; simp add: arg_def args'_def)+
    then have fits: "args_len xs + (length arg + 8) + room types args' \<le> lo_pow2_safe"
      using Cons.prems(3) by (simp add: room_def)
    obtain res er' where c: "create_value (al (Suc i)) be nm er t arg = (res, er')"
      by (cases "create_value (al (Suc i)) be nm er t arg")
    show ?thesis
    proof (cases res)
      case (Inl e)
      then show ?thesis using False c by (simp add: arg_def)
    next
      case (Inr add)
      obtain a m1 where a: "add m = (0, m1)" "msg_repr be m1 (xs @ [a])" "made_of be nm t arg a"
        using create_value_reads [OF c [unfolded Inr] Cons.prems(1) arg(1) assms(3) _ assms(5)] fits by auto
      have "args_len (xs @ [a]) + room types args' \<le> lo_pow2_safe" using a(3) fits by (simp add: made_of_def)
      then obtain r where r: "create_loop al be nm (i + 1) types args' er' (Ref m1) = Some r"
        "\<forall>mp. r = Inr mp \<longrightarrow> (\<exists>m' ys. mp = Ref m' \<and> msg_repr be m' ((xs @ [a]) @ ys) \<and> paired be nm types args' ys)"
        using Cons.IH [OF a(2) arg(2)] by blast
      have "create_loop al be nm i (t # types) args er (Ref m) = Some r"
        using False c a(1) r(1) Inr by (cases "takes_value t") (simp_all add: arg_def args'_def)
      moreover have "paired be nm (t # types) args (a # ys)" if "paired be nm types args' ys" for ys
        using that a(3) False by (cases "takes_value t") (simp_all add: arg_def args'_def)
      ultimately show ?thesis using r(2) by (metis append.assoc append_Cons append_Nil)
    qed
  qed simp
qed

section \<open>What \<open>oscdump\<close> prints\<close>

abbreviation dump_method :: "nat \<Rightarrow> lo_method" where
  "dump_method hdl \<equiv> \<lparr>mt_path = NULL, mt_typespec = NULL, mt_handler = hdl, mt_user_data = 0\<rparr>"

abbreviation dump_line :: "bool \<Rightarrow> printf \<Rightarrow> byte list \<Rightarrow> osc_arg list \<Rightarrow> byte list" where
  "dump_line be pf path xs \<equiv>
     path @ '' '' @ map arg_tag xs @ concat (map (\<lambda>a. CHR '' '' # show_arg be pf a) xs) @ [CHR 0x0A]"

text \<open>The server of \<open>oscdump\<close> is new but for its method.\<close>

lemma oscdump_ready:
  assumes "oscdump_start strict h al hdl args m = Some (Ref s, m')" "\<And>cs. - 1 \<le> h_ret h cs"
  shows "sv_methods (ls_core s) = [dump_method hdl] \<and> sv_queued (ls_core s) = [] \<and> sv_log (ls_core s) = [] \<and> sockets_len s = 1"
proof -
  obtain s0 m1 where s0: "oscdump_server strict h args m = Some (Ref s0, m1)"
    using assms(1) by (auto simp: oscdump_start_def split: bind_splits ptr.splits)
  then obtain grp port iface ip proto where "lo_server_new_with_proto_internal h grp port iface ip proto True m = Some (Ref s0, m1)"
    by (auto simp: oscdump_server_def lo_server_new_multicast_def lo_server_new_def lo_server_new_with_proto_def
        lo_server_new_from_url_def Let_def split: list.splits if_splits option.splits bind_splits proto.splits)
  from newborn_made [OF this assms(2)] obtain p fd where
    "ls_core s0 = ls_core (blank_server p True)" "ls_socks s0 = ls_socks (with_fd fd (blank_server p True))" by blast
  then show ?thesis using assms(1) s0
    by (auto simp: oscdump_start_def lo_server_add_method_def strdup_def blank_server_def with_fd_def sockets_len_def Let_def
        split: if_splits)
qed

lemma message_in_dump:
  assumes "sv_methods s = [dump_method hdl]" "path_ok path" "list_all arg_ok xs" "\<And>lg c. e_handler env lg c = 0"
  shows "message_in env sock ts path xs s =
    Some (emit (Ev_call (call_of path (seen_message env s sock ts xs) (map arg_tag xs) (dump_method hdl))) s)"
proof -
  let ?m0 = "lo_message_incref ((received_message (e_be env) xs)\<lparr>m_ts := ts\<rparr>)"
  have "msg_repr (e_be env) ?m0 xs" using received_message_repr [OF assms(3), of "e_be env"]
    by (simp add: lo_message_incref_def msg_repr_def types_ok_def data_ok_def)
  then have types: "cstr (lo_message_get_types ?m0) = Some (map arg_tag xs)" by (rule get_types_repr)
  have "cstr (path @ [NUL]) = Some path" using assms(2) by (simp add: path_ok_def)
  then show ?thesis
    by (simp add: message_in_def dispatch_method_def types assms(1) path_matches_def dispatch_to_def call_handler_def assms(4)
        call_of_def seen_message_def Let_def)
qed

lemma dump_args_host:
  "list_all arg_ok xs \<Longrightarrow>
   dump_args be pf (pre @ concat (map (host_arg be) xs)) (length xs) (map arg_tag xs) (arg_offsets xs (length pre)) =
     Some (concat (map (\<lambda>a. CHR '' '' # show_arg be pf a) xs), [])"
proof (induction xs arbitrary: pre)
  case (Cons a xs)
  have "lo_arg_pp be pf (arg_tag a) (host_arg be a @ concat (map (host_arg be) xs)) = Some (show_arg be pf a, [])"
    "lo_arg_pp be pf (arg_tag a) (host_arg be a) = Some (show_arg be pf a, [])"
    using pp_host_arg [of a be pf] pp_host_arg [of a be pf "[]"] Cons.prems by (simp_all add: lo_arg_pp_def)
  moreover have "wire_arg a = [] \<longrightarrow> host_arg be a = []" using length_host_arg [of be a] by auto
  ultimately show ?case using Cons.IH [of "pre @ host_arg be a"] Cons.prems
    by (cases "wire_arg a = []") (simp_all add: length_host_arg)
qed simp

lemma message_handler_line:
  assumes "list_all arg_ok xs"
  shows "message_handler (e_be env) pf (call_of path (seen_message env s sock ts xs) (map arg_tag xs) (dump_method hdl)) =
    Some (dump_line (e_be env) pf path xs, [])"
  using dump_args_host [OF assms, of "e_be env" pf "[]"]
  by (cases "xs = []") (simp_all add: message_handler_def call_of_def seen_message_def lo_message_incref_def received_message_def)

lemma oscdump_datagram:
  assumes "sv_methods (ls_core s) = [dump_method hdl]" "sv_queued (ls_core s) = []" "sockets_len s = 1"
    and "ls_protocol s \<noteq> LO_TCP" "packet_ok (PMessage path xs)" "wire_len path xs \<le> LO_MAX_MSG_SIZE"
    and "alloc_total (e_al env)" "\<And>lg c. e_handler env lg c = 0"
    and "in_wakes inp = w # ws" "wk_revents w 0 = Rev_ready" "in_dgram inp = Some (wire_message path xs)"
  shows "lo_server_recv env can_alloc inp s = Some (int (wire_len path xs), s\<lparr>ls_core :=
    emit (Ev_call (call_of path (seen_message env (ls_core s) (- 1) LO_TT_IMMEDIATE xs) (map arg_tag xs) (dump_method hdl))) (ls_core s)\<rparr>)"
proof -
  have ok: "path_ok path" "list_all arg_ok xs" using assms(5) by simp_all
  have "wire_message path xs \<noteq> []" using packet_size [OF assms(5)] by simp
  then have "lo_server_recv_raw (e_al env) (in_dgram inp) = Some (Ref (wire_message path xs))"
    using assms(6,7,11) by (simp add: lo_server_recv_raw_def alloc_total_def Let_def length_wire_message)
  moreover have "methods_ok (ls_core s)" by (simp add: assms(1) methods_ok_def path_terminable_def)
  then have "got_data env s (wire_message path xs) (- 1) = map_option (\<lambda>core. (int (wire_len path xs), s\<lparr>ls_core := core\<rparr>))
      (message_in env (- 1) LO_TT_IMMEDIATE path xs (ls_core s))"
    using got_data_packet [OF assms(5) _ assms(7), of s "- 1"] by (simp add: length_wire_message)
  moreover have "\<exists>ts. recv_wait (e_al env) s (ls_delay (in_now inp) s) (in_wakes inp) = Some (W_ready, s, ts)"
    using assms(2,3,4,9,10) by (simp add: before_poll_def lo_server_next_event_delay_def)
  ultimately show ?thesis
    using assms(4) message_in_dump [OF assms(1) ok assms(8), where sock = "- 1" and ts = LO_TT_IMMEDIATE]
    by (auto simp: lo_server_recv_def)
qed

section \<open>What \<open>oscsend\<close> sends\<close>

text \<open>A new UDP address: the name is resolved, a socket is made and the packet goes to the first address.\<close>

lemma send_data_first:
  assumes "os_resolve os LO_UDP (Ref host) (Ref port) = Inr (ai # ais)" "\<And>calls. os_ret os calls \<noteq> - 1"
    and "length data \<le> LO_MAX_MSG_SIZE" "sd_addr s = zero_address\<lparr>a_socket := - 1, a_ownsocket := True, a_protocol := Some LO_UDP,
      a_host := Ref host, a_port := Ref port, a_ttl := 1\<rparr>" "sd_client_udp s = - 1" "sd_from s = NULL"
  shows "\<exists>ret s' calls sock. send_data os data s = Some (ret, s') \<and> ret \<noteq> - 1 \<and>
    sd_calls s' = calls @ [C_sendto sock data (ai_addr ai)] \<and> a_protocol (sd_addr s') = Some LO_UDP"
  using assms
  by (auto simp: send_data_def lo_address_resolve_def resolved_def zero_address_def pick_socket_def create_socket_def os_do_def
      os_set_def set_addr_def set_nodelay_def adopt_socket_def send_udp_def finish_send_def LO_NODELAY_def Let_def)

lemma oscsend_sends:
  assumes "\<not> contains ''://'' host" "os_resolve os LO_UDP (Ref host) (Ref port) = Inr (ai # ais)" "\<And>calls. os_ret os calls \<noteq> - 1"
    and "create_message (\<lambda>n. al (Suc n)) be nm values = Some (Inr (Ref m))" "msg_repr be m xs"
    and "alloc_total (al 0)" "alloc_total (os_al os)" "wire_len path xs \<le> LO_MAX_MSG_SIZE"
  shows "\<exists>calls sock. oscsend_main strict al be nm os (host # port # path # values) =
    Some (0, calls @ [C_sendto sock (wire_message path xs) (ai_addr ai)])"
proof -
  have al: "al 0 c n \<noteq> None" for c n using assms(6) by (simp add: alloc_total_def)
  have target: "oscsend_target strict (al 0) (host # port # path # values) =
      Some (Ref (zero_address\<lparr>a_socket := - 1, a_ownsocket := True, a_protocol := Some LO_UDP,
        a_host := Ref host, a_port := Ref port, a_ttl := - 1\<rparr>), path # values)"
    using assms(1) by (simp add: oscsend_target_def lo_address_new_def lo_address_new_with_proto_def strdup_def al)
  let ?s = "\<lparr>sd_calls = [], sd_client_udp = - 1, sd_addr = zero_address\<lparr>a_socket := - 1, a_ownsocket := True, a_protocol := Some LO_UDP,
      a_host := Ref host, a_port := Ref port, a_ttl := 1\<rparr>, sd_from = NULL\<rparr>"
  obtain ret s' calls sock where s': "send_data os (wire_message path xs) ?s = Some (ret, s')" "ret \<noteq> - 1"
      "sd_calls s' = calls @ [C_sendto sock (wire_message path xs) (ai_addr ai)]"
    using send_data_first [OF assms(2,3), of "wire_message path xs" ?s] assms(8) by (auto simp: length_wire_message)
  have "lo_send_message be os path m ?s = Some (ret, s'\<lparr>sd_from := NULL\<rparr>)"
    using s'(1,2) lo_message_serialise_new [OF assms(5,7), of path] by (simp add: lo_send_message_def lo_send_message_from_def)
  then show ?thesis using s'(2,3) target assms(4)
    by (simp add: oscsend_main_def lo_address_set_ttl_def zero_address_def)
qed

section \<open>Properties\<close>

text \<open>
  \<open>oscsend\<close> makes of the usual texts of its arguments (decimal integers, whatever \<open>strtof\<close> and
  \<open>strtod\<close> read, strings, eight hexadecimal digits for a MIDI packet) the message with these arguments.
\<close>

theorem create_message_of_texts:
  assumes "list_all2 (text_of be nm) xs vs" "list_all arg_ok xs" "\<And>c. alloc_total (al c)"
    and "args_len xs \<le> lo_pow2_safe" "32 \<le> nm_long nm"
  shows "\<exists>m. create_message al be nm (map arg_tag xs # concat vs) = Some (Inr (Ref m)) \<and> msg_repr be m xs"
proof -
  obtain m0 where m0: "lo_message_new (al 0) = Some (Ref m0)" "msg_repr be m0 []"
    using lo_message_new_repr [OF assms(3) [of 0], of be] by blast
  then show ?thesis
    using create_loop_args [OF assms(1) m0(2) assms(2), where al = al and i = 0 and rest = "[]"] assms(3-5)
    by (simp add: create_message_def)
qed

text \<open>
  C33: Whatever the types and the values are, \<open>create_message\<close> ends with an error or with a message that has
  exactly the types asked for, one argument for each, made of its text (\<open>paired\<close>, \<open>read_as\<close>): a number is that of
  the whole text, up to its end; a 32-bit integer is in its range, and so is a 64-bit one, except that a
  host whose \<open>long\<close> has 32 bits takes the nearest that is, while a floating point number out of range is
  what \<open>strtof\<close> and \<open>strtod\<close> make of it; strings and symbols are whole. Of a character only the first byte of the text
  is taken, and of a MIDI packet the (at most eight) hexadecimal digits at its start; what follows these is ignored.
\<close>

theorem create_message_typed:
  assumes "list_all (\<lambda>a. NUL \<notin> set a) args" "\<And>c. alloc_total (al c)" "room types args \<le> lo_pow2_safe" "nm_long nm \<in> {32, 64}"
  shows "\<exists>r. create_message al be nm (types # args) = Some r \<and>
    (\<forall>mp. r = Inr mp \<longrightarrow> (\<exists>m xs. mp = Ref m \<and> msg_repr be m xs \<and> map arg_tag xs = types \<and> paired be nm types args xs))"
proof -
  obtain m0 where m0: "lo_message_new (al 0) = Some (Ref m0)" "msg_repr be m0 []"
    using lo_message_new_repr [OF assms(2) [of 0], of be] by blast
  obtain r where "create_loop al be nm 0 types args False (Ref m0) = Some r"
    "\<forall>mp. r = Inr mp \<longrightarrow> (\<exists>m' ys. mp = Ref m' \<and> msg_repr be m' ([] @ ys) \<and> paired be nm types args ys)"
    using create_loop_reads [OF m0(2) assms(1), of al types nm 0 False] assms(2-4) by auto
  then show ?thesis using m0(1) paired_tags by (fastforce simp: create_message_def)
qed

text \<open>
  \<open>errno\<close> is not cleared: after a \<open>double\<close> that is out of range, which is not an error, the largest 64-bit
  integer is refused, though it is accepted alone.
\<close>

theorem stale_errno_rejects:
  assumes "nm_strtod nm d = (w, [], True)" "nm_long nm = 64" "\<And>c. alloc_total (al c)"
  shows "create_message al be nm [''dh'', d, ''9223372036854775807''] = Some (Inl (Out_of_range ''9223372036854775807''))"
    and "\<exists>m. create_message al be nm [''h'', ''9223372036854775807''] = Some (Inr (Ref m))"
proof -
  obtain m0 where m0: "lo_message_new (al 0) = Some (Ref m0)" "msg_repr be m0 []"
    using lo_message_new_repr [OF assms(3) [of 0], of be] by blast
  have ty: "lo_type_of (CHR ''d'') = Some LO_DOUBLE" "lo_type_of (CHR ''h'') = Some LO_INT64"
    by (simp_all add: lo_type_of_Some typechar.simps)
  then have tv: "takes_value (CHR ''d'')" "takes_value (CHR ''h'')" by (simp_all add: takes_value_def)
  have num: "strtol 64 ''9223372036854775807'' = (9223372036854775807, [], False)"
    by (simp add: strtol_def sign_def is_space_def is_digit_def digits_value_def long_max_def long_min_def)
  obtain m1 where "lo_message_add_double (al 1) be m0 w = (0, m1)"
    using add_arg_total [OF assms(3) [of 1]] by (force simp: lo_message_add_double_def)
  then show "create_message al be nm [''dh'', d, ''9223372036854775807''] = Some (Inl (Out_of_range ''9223372036854775807''))"
    by (simp add: create_message_def m0(1) tv create_value_def ty assms num long_max_def)
  obtain m2 where "lo_message_add_int64 (al 1) be m0 (word_of_int 9223372036854775807) = (0, m2)"
    using add_arg_total [OF assms(3) [of 1]] by (force simp: lo_message_add_int64_def)
  then show "\<exists>m. create_message al be nm [''h'', ''9223372036854775807''] = Some (Inr (Ref m))"
    by (simp add: create_message_def m0(1) tv create_value_def ty num)
qed

text \<open>
  C10: What \<open>oscsend\<close> is told to send, \<open>oscdump\<close> prints, between hosts of any byte order: with a path, the
  types and the texts of arguments on its command line, \<open>oscsend\<close> exits with 0 after the call that sends
  one datagram to the first address of the target; and when \<open>oscdump\<close>, however it was started as a datagram
  server, receives it, it prints one line, with the path, the types and the arguments (\<open>dumped\<close>): integers and
  strings as they were given, and so a character, but only if the two hosts have the same byte order, else NUL
  is printed for it.
\<close>

theorem sent_is_dumped:
  assumes "list_all2 (text_of be nm) xs vs" "packet_ok (PMessage path xs)" "wire_len path xs \<le> LO_MAX_MSG_SIZE"
    and "\<And>c. alloc_total (al c)" "32 \<le> nm_long nm" "alloc_total (os_al os)"
    and "\<not> contains ''://'' host" "os_resolve os LO_UDP (Ref host) (Ref port) = Inr (ai # ais)" "\<And>calls. os_ret os calls \<noteq> - 1"
    and "oscdump_start strict' h al' hdl args mk = Some (Ref s, mk')" "\<And>cs. - 1 \<le> h_ret h cs" "ls_protocol s \<noteq> LO_TCP"
    and "alloc_total (e_al env)" "\<And>lg c. e_handler env lg c = 0"
    and "in_wakes inp = w # ws" "wk_revents w 0 = Rev_ready" "in_dgram inp = Some (wire_message path xs)"
  shows "\<exists>calls sock s' c.
    oscsend_main strict al be nm os (host # port # path # map arg_tag xs # concat vs) =
      Some (0, calls @ [C_sendto sock (wire_message path xs) (ai_addr ai)]) \<and>
    oscdump_loop env can_alloc [inp] s = Some s' \<and> sv_log (ls_core s') = [Ev_call c] \<and> c_handler c = hdl \<and>
    message_handler (e_be env) pf c =
      Some (path @ '' '' @ map arg_tag xs @
        concat (map2 (\<lambda>a ts. CHR '' '' # dumped (e_be env = be) pf a ts) xs vs) @ [CHR 0x0A], [])"
proof -
  have ok: "list_all arg_ok xs" using assms(2) by simp
  have "args_len xs \<le> lo_pow2_safe" using assms(3) by (simp add: wire_len_def LO_MAX_MSG_SIZE_def lo_pow2_safe_def)
  moreover obtain m0 where m0: "lo_message_new (al 1) = Some (Ref m0)" "msg_repr be m0 []"
    using lo_message_new_repr [OF assms(4) [of 1], of be] by blast
  ultimately obtain m where m: "create_message (\<lambda>n. al (Suc n)) be nm (map arg_tag xs # concat vs) = Some (Inr (Ref m))" "msg_repr be m xs"
    using create_loop_args [OF assms(1) m0(2) ok, where al = "\<lambda>n. al (Suc n)" and i = 0 and rest = "[]"] assms(4,5)
    by (auto simp: create_message_def)
  obtain calls sock where send: "oscsend_main strict al be nm os (host # port # path # map arg_tag xs # concat vs) =
      Some (0, calls @ [C_sendto sock (wire_message path xs) (ai_addr ai)])"
    using oscsend_sends [OF assms(7-9) m assms(4,6,3)] by blast
  note r = oscdump_ready [OF assms(10,11)]
  define c where "c = call_of path (seen_message env (ls_core s) (- 1) LO_TT_IMMEDIATE xs) (map arg_tag xs) (dump_method hdl)"
  have "oscdump_loop env can_alloc [inp] s = Some (s\<lparr>ls_core := emit (Ev_call c) (ls_core s)\<rparr>)"
    using oscdump_datagram [OF _ _ _ assms(12,2,3,13,14,15,16,17), of hdl can_alloc] r by (simp add: c_def)
  moreover have "message_handler (e_be env) pf c = Some (path @ '' '' @ map arg_tag xs @
        concat (map2 (\<lambda>a ts. CHR '' '' # dumped (e_be env = be) pf a ts) xs vs) @ [CHR 0x0A], [])"
    unfolding c_def message_handler_line [OF ok] by (simp add: dumped_texts [OF assms(1), symmetric])
  moreover have "c_handler c = hdl" by (simp add: c_def call_of_def)
  ultimately show ?thesis using send r
    by (intro exI [of _ calls] exI [of _ sock] exI [of _ "s\<lparr>ls_core := emit (Ev_call c) (ls_core s)\<rparr>"] exI [of _ c])
      (simp add: emit_def)
qed

section \<open>Witnesses\<close>

definition sample_numerals :: numerals where
  "sample_numerals = \<lparr>nm_long = 64, nm_strtof = (\<lambda>s. (0, [], False)), nm_strtod = (\<lambda>s. (0, [], True))\<rparr>"

lemma dec_int_7: "dec_int 7 = ''7''"
  by (simp add: dec_int_def dec.simps [of 7])

theorem create_message_of_texts_witness:
  "\<exists>m. create_message (\<lambda>_. al_zero) True sample_numerals [''iT'', ''7''] = Some (Inr (Ref m)) \<and> msg_repr True m [OInt32 7, OTrue]"
proof -
  have "list_all2 (text_of True sample_numerals) [OInt32 7, OTrue] [[''7''], []]"
    by (simp add: dec_int_7)
  from create_message_of_texts [OF this, of "\<lambda>_. al_zero"] show ?thesis
    by (simp add: sample_numerals_def lo_pow2_safe_def arg_tag_def typechar.simps)
qed

theorem create_message_typed_witness:
  "\<exists>r. create_message (\<lambda>_. al_zero) True sample_numerals [''is'', ''7'', ''abc''] = Some r \<and>
    (\<forall>mp. r = Inr mp \<longrightarrow> (\<exists>m xs. mp = Ref m \<and> msg_repr True m xs \<and> map arg_tag xs = ''is''))"
proof -
  have "room ''is'' [''7'', ''abc''] \<le> lo_pow2_safe" "nm_long sample_numerals \<in> {32, 64}"
    by (simp_all add: room_def lo_pow2_safe_def sample_numerals_def)
  from create_message_typed [OF _ _ this, of "\<lambda>_. al_zero" True] show ?thesis by fastforce
qed

theorem stale_errno_rejects_witness:
  "create_message (\<lambda>_. al_zero) True sample_numerals [''dh'', ''1e999'', ''9223372036854775807''] =
     Some (Inl (Out_of_range ''9223372036854775807''))"
  using stale_errno_rejects(1) [of sample_numerals "''1e999''" 0 "\<lambda>_. al_zero" True] by (simp add: sample_numerals_def)

definition sample_send_os :: os where
  "sample_send_os = \<lparr>os_ret = (\<lambda>_. 5), os_errno = (\<lambda>_. 0),
     os_resolve = (\<lambda>_ _ _. Inr [\<lparr>ai_family = AF_INET, ai_addr = ''peer''\<rparr>]),
     os_al = al_zero, os_can_alloc = (\<lambda>_. True), os_ipv6 = False\<rparr>"

lemma sample_dump:
  obtains s m' where "oscdump_start False (sample_host 0) al_zero 3 [''7770''] sample_making = Some (Ref s, m')" "ls_protocol s = LO_UDP"
  by (simp add: oscdump_start_def oscdump_server_def is_digit_def strdup_def Let_def lo_server_new_def lo_server_add_method_def
      construct_defs new_loop_numeral sample_host_def sample_making_def binds_def al_zero_def proto_of_def EINVAL_def EADDRINUSE_def)

theorem sent_is_dumped_witness:
  "\<exists>calls sock s0 s c. oscsend_main False (\<lambda>_. al_zero) True sample_numerals sample_send_os [''h'', ''7770'', ''/a'', ''i'', ''7''] =
      Some (0, calls @ [C_sendto sock (wire_message ''/a'' [OInt32 7]) ''peer'']) \<and>
    oscdump_loop sample_env (\<lambda>_. True) [sample_input 0 (wire_message ''/a'' [OInt32 7])] s0 = Some s \<and>
    sv_log (ls_core s) = [Ev_call c] \<and> message_handler True sample_printf c = Some (''/a i 7'' @ [CHR 0x0A], [])"
proof -
  obtain s0 m' where s0: "oscdump_start False (sample_host 0) al_zero 3 [''7770''] sample_making = Some (Ref s0, m')" "ls_protocol s0 = LO_UDP"
    by (rule sample_dump)
  have vs: "list_all2 (text_of True sample_numerals) [OInt32 7] [[''7'']]" by (simp add: dec_int_7)
  have os: "os_resolve sample_send_os LO_UDP (Ref ''h'') (Ref ''7770'') = Inr [\<lparr>ai_family = AF_INET, ai_addr = ''peer''\<rparr>]"
    "os_ret sample_send_os calls \<noteq> - 1" "alloc_total (os_al sample_send_os)" for calls by (simp_all add: sample_send_os_def)
  have inp: "in_wakes (sample_input 0 (wire_message ''/a'' [OInt32 7])) =
      [\<lparr>wk_revents = (\<lambda>j. if j = 0 then Rev_ready else Rev_none), wk_now = Timetag 100 0\<rparr>]"
    "in_dgram (sample_input 0 (wire_message ''/a'' [OInt32 7])) = Some (wire_message ''/a'' [OInt32 7])"
    by (simp_all add: sample_input_def)
  have size: "wire_len ''/a'' [OInt32 7] \<le> LO_MAX_MSG_SIZE" by (simp add: sample_wire_len LO_MAX_MSG_SIZE_def)
  have env: "e_handler sample_env lg c = 0" "e_be sample_env" for lg c by (simp_all add: sample_env_def)
  have "\<not> contains ''://'' ''h''" by (simp add: starts_with_def)
  from sent_is_dumped [OF vs sample_packet_ok size _ _ os(3) this os(1,2) s0(1) sample_ret _ sample_setup(2) env(1) inp(1) _ inp(2), where
      al = "\<lambda>_. al_zero" and pf = sample_printf and can_alloc = "\<lambda>_. True" and strict = False]
  show ?thesis using s0(2) env(2)
    by (fastforce simp: sample_numerals_def dec_int_7 arg_tag_def typechar.simps)
qed

end
