(* ===== verification/Selftest.thy ===== *)
theory Selftest
  imports Tools
begin

text \<open>
  The parts of the repository's own test program (\<open>src/testlo.c\<close>) that need no network, as predicates
  over the model, and the proofs that they hold: the model gives the results that the authors of the
  library expect of their code. Where the program uses memory it has not set, the predicate holds for
  any content.
\<close>

section \<open>Byte order\<close>

text \<open>\<open>test_types\<close>: the bytes in memory of a converted word.\<close>

definition test_types :: "bool \<Rightarrow> bool" where
  "test_types be \<longleftrightarrow>
     host32 be (lo_htoo32 be 0x23242526) = map char_of [0x23, 0x24, 0x25, 0x26 :: nat] \<and>
     host64 be (lo_htoo64 be 0x232425262728292A) =
       map char_of [0x23, 0x24, 0x25, 0x26, 0x27, 0x28, 0x29, 0x2A :: nat]"

section \<open>URLs and addresses\<close>

definition test_url :: "bool \<Rightarrow> bool" where
  "test_url strict \<longleftrightarrow>
     lo_url_get_path strict ''osc.udp://localhost:9999/a/path/is/here'' = Some (Ref ''/a/path/is/here'') \<and>
     lo_url_get_protocol strict (Ref ''osc.udp://localhost:9999/a/path/is/here'') = Some (Ref ''udp'') \<and>
     lo_url_get_protocol strict (Ref ''osc.tcp://localhost:9999/a/path/is/here'') = Some (Ref ''tcp'') \<and>
     lo_url_get_protocol strict (Ref ''osc.udp://[::ffff:localhost]:9999/a/path/is/here'') = Some (Ref ''udp'') \<and>
     proto_of (lo_url_get_protocol_id (Ref ''osc.udp://localhost:9999/a/path/is/here'')) = Some LO_UDP \<and>
     proto_of (lo_url_get_protocol_id (Ref ''osc.tcp://localhost:9999/a/path/is/here'')) = Some LO_TCP \<and>
     lo_url_get_protocol_id (Ref ''osc.invalid://localhost:9999/a/path/is/here'') = - 1 \<and>
     proto_of (lo_url_get_protocol_id (Ref ''osc.udp://[::ffff:localhost]:9999/a/path/is/here'')) = Some LO_UDP \<and>
     lo_url_get_hostname strict ''osc.udp://foo.example.com:9999/a/path/is/here'' = Some (Ref ''foo.example.com'') \<and>
     lo_url_get_hostname strict ''osc.udp://[0000::::0001]:9999/a/path/is/here'' = Some (Ref ''0000::::0001'') \<and>
     lo_url_get_port strict ''osc.udp://localhost:9999/a/path/is/here'' = Some (Ref ''9999'') \<and>
     lo_url_get_port strict ''osc.udp://[::ffff:127.0.0.1]:9999/a/path/is/here'' = Some (Ref ''9999'')"

definition test_address :: "bool \<Rightarrow> alloc \<Rightarrow> bool" where
  "test_address strict al \<longleftrightarrow>
     (\<exists>a. lo_address_new_from_url strict al (Ref ''osc://localhost/'') = Some (Ref a)) \<and>
     lo_address_new_from_url strict al (Ref ''osc.://localhost/'') = Some NULL \<and>
     (case lo_address_new_from_url strict al (Ref ''osc.tcp://foo.example.com:9999/'') of
        Some (Ref a) \<Rightarrow>
          fst (lo_address_get_hostname a) = Ref ''foo.example.com'' \<and> fst (lo_address_get_port a) = Ref ''9999'' \<and>
          lo_address_get_protocol (Ref a) = Some LO_TCP \<and>
          lo_address_get_url a = Some (Ref ''osc.tcp://foo.example.com:9999/'')
      | _ \<Rightarrow> False)"

section \<open>Blobs\<close>

definition testdata :: "byte list" where "testdata = ''ABCDE''"

definition test_blob :: "alloc \<Rightarrow> bool \<Rightarrow> bool" where
  "test_blob al be \<longleftrightarrow>
     (case lo_blob_new al be (int (length testdata)) (Ref testdata) of
        Some (Ref btest) \<Rightarrow> lo_blob_datasize be btest = Some 5 \<and> lo_blobsize be btest = Some 12
      | _ \<Rightarrow> False)"

section \<open>A message to the wire and back\<close>

text \<open>
  \<open>test_deserialise\<close>, up to the failures: the call for each argument (a character is the first byte of its
  cell), the arguments, and what is compared. The two floating-point numbers are given by their bits.
\<close>

fun add_value :: "alloc \<Rightarrow> bool \<Rightarrow> osc_arg \<Rightarrow> lo_message \<Rightarrow> (int \<times> lo_message) option" where
  "add_value al be (OFloat w) m = Some (lo_message_add_float al be m w)"
| "add_value al be (OInt32 w) m = Some (lo_message_add_int32 al be m w)"
| "add_value al be (OString s) m = Some (lo_message_add_string al m s)"
| "add_value al be (OBlob d) m = lo_message_add_blob al be m (blob_block be d)"
| "add_value al be (OMidi a b c d) m = Some (lo_message_add_midi al m (a, b, c, d))"
| "add_value al be (OInt64 w) m = Some (lo_message_add_int64 al be m w)"
| "add_value al be (OTimetag t) m = Some (lo_message_add_timetag al be m t)"
| "add_value al be (ODouble w) m = Some (lo_message_add_double al be m w)"
| "add_value al be (OSymbol s) m = Some (lo_message_add_symbol al m s)"
| "add_value al be (OChar w) m = Some (lo_message_add_char al m (hd (host32 be w)))"
| "add_value al be OTrue m = Some (lo_message_add_true al m)"
| "add_value al be OFalse m = Some (lo_message_add_false al m)"
| "add_value al be ONil m = Some (lo_message_add_nil al m)"
| "add_value al be OInfinitum m = Some (lo_message_add_infinitum al m)"

fun add_values :: "alloc \<Rightarrow> bool \<Rightarrow> osc_arg list \<Rightarrow> lo_message \<Rightarrow> lo_message option" where
  "add_values al be [] m = Some m"
| "add_values al be (x # xs) m = do { (_, m') \<leftarrow> add_value al be x m; add_values al be xs m' }"

definition test_args :: "bool \<Rightarrow> u32 \<Rightarrow> u64 \<Rightarrow> osc_arg list" where
  "test_args be f d =
     [OFloat f, OInt32 123, OString ''123'', OBlob testdata, OMidi (CHR 0xff) (CHR 0xf7) (CHR 0xAA) (CHR 0x00),
      OInt64 0x0123456789abcdef, OTimetag (Timetag 1 0x80000000), ODouble d, OSymbol ''sym'',
      OChar (char_cell be (CHR ''X'')), OChar (char_cell be (CHR ''Y'')), OTrue, OFalse, ONil, OInfinitum]"

text \<open>The type string and the arguments of the message, as the test reads them.\<close>

definition same_args :: "bool \<Rightarrow> u32 \<Rightarrow> u64 \<Rightarrow> lo_message \<Rightarrow> bool" where
  "same_args be f d m \<longleftrightarrow>
     lo_message_get_argc m = 15 \<and> cstr (lo_message_get_types m) = Some ''fisbmhtdSccTFNI'' \<and> msg_repr be m (test_args be f d)"

definition test_deserialise :: "alloc \<Rightarrow> bool \<Rightarrow> u32 \<Rightarrow> u64 \<Rightarrow> bool" where
  "test_deserialise al be f d \<longleftrightarrow>
     (case lo_message_new al of
        Some (Ref m0) \<Rightarrow> lo_message_get_argc m0 = 0 \<and>
          (case add_values al be (test_args be f d) m0 of
             None \<Rightarrow> False
           | Some m \<Rightarrow> same_args be f d m \<and> lo_message_length m ''/foo'' = Some 92 \<and>
               (case lo_message_serialise al be m ''/foo'' (Ref (replicate 92 NUL)) of
                  None \<Rightarrow> False
                | Some (buf, n) \<Rightarrow> n = 92 \<and> lo_get_path buf 92 = Some (Ref buf) \<and> cstr buf = Some ''/foo'' \<and>
                    (case lo_message_deserialise al be buf n of
                       Some (Ref m', _) \<Rightarrow> same_args be f d m' \<and> lo_message_length m' ''/foo'' = Some 92 \<and>
                         lo_message_serialise al be m' ''/foo'' (Ref (replicate 92 NUL)) = Some (buf, 92)
                     | _ \<Rightarrow> False)))
      | _ \<Rightarrow> False)"

section \<open>Deserialisation of invalid messages\<close>

definition replace_char :: "byte list \<Rightarrow> nat \<Rightarrow> byte \<Rightarrow> byte \<Rightarrow> byte list" where
  "replace_char str n old to = map (\<lambda>c. if c = old then to else c) (take n str) @ drop n str"

text \<open>
  The text that \<open>snprintf\<close> writes into the buffer, how far \<open>_\<close> is replaced by the zero byte, the size
  that is passed on and the code that is expected.
\<close>

definition deserialise_cases :: "(byte list \<times> nat \<times> nat \<times> int) list" where
  "deserialise_cases =
     [(''/foo'', 0, 0, LO_ESIZE),
      (''/foo'', 0, 4, LO_EINVALIDPATH),
      (''/f_o'', 0, 4, LO_EINVALIDPATH),
      (''/t__'', 4, 4, LO_ENOTYPE),
      (''/t______'', 8, 8, LO_EBADTYPE),
      (''/t__,f_'', 7, 7, LO_EINVALIDTYPE),
      (''/t__ifi_'', 8, 8, LO_EBADTYPE),
      (''/t__,ifi'', 8, 8, LO_EINVALIDTYPE),
      (''/t__,ii_'', 8, 12, LO_EINVALIDARG),
      (''/t__,ii_'', 8, 15, LO_EINVALIDARG),
      (''/t__,f__'', 8, 16, LO_ESIZE)]"

definition test_deserialise_case :: "alloc \<Rightarrow> bool \<Rightarrow> byte list \<Rightarrow> byte list \<times> nat \<times> nat \<times> int \<Rightarrow> bool" where
  "test_deserialise_case al be rest c =
     (case c of (text, cleared, n, code) \<Rightarrow>
        lo_message_deserialise al be (replace_char (text @ NUL # rest) cleared (CHR ''_'') NUL) n = Some (NULL, code))"

text \<open>The last case: a blob that is longer than the message.\<close>

definition test_deserialise_blob :: "alloc \<Rightarrow> bool \<Rightarrow> byte list \<Rightarrow> bool" where
  "test_deserialise_blob al be rest \<longleftrightarrow>
     lo_message_deserialise al be
       (replace_char ''/t__,bs_'' 8 (CHR ''_'') NUL @ host32 be (lo_htoo32 be 99999) @ rest) 256 = Some (NULL, LO_EINVALIDARG)"

text \<open>
  \<open>test_validation\<close>: a packet made to crash a server that does not validate, with a blob that claims
  0x2C000F42 bytes; the server is to report the error and call nothing.
\<close>

definition crafted :: "byte list" where
  "crafted = ''/'' @ [NUL, NUL, NUL] @ '',bs'' @ [NUL] @ '','' @ [CHR 0x00, CHR 0x0F, CHR 0x42, CHR 0x3F] @ [NUL]"

definition test_validation :: "env \<Rightarrow> server \<Rightarrow> bool" where
  "test_validation env s \<longleftrightarrow>
     dispatch_data env s crafted (int (length crafted)) (- 1) =
       Some (- LO_EINVALIDARG, lo_throw s LO_EINVALIDARG (Some ''/''))"

section \<open>Patterns\<close>

text \<open>\<open>test_pattern\<close>, on the methods that \<open>test_server_thread\<close> has added: which of them are called.\<close>

definition pattern_paths :: "byte list list" where
  "pattern_paths = [''/pattern/foo'', ''/pattern/bar'', ''/pattern/baz'']"

definition test_pattern :: "(byte \<Rightarrow> int) \<Rightarrow> bool" where
  "test_pattern v \<longleftrightarrow>
     map (\<lambda>q. path_matches v (Ref q) ''/pattern/*'' (''/pattern/*'' @ [NUL])) pattern_paths = [Some True, Some True, Some True] \<and>
     map (\<lambda>q. path_matches v (Ref q) ''/pattern/ba[rz]'' (''/pattern/ba[rz]'' @ [NUL])) pattern_paths =
       [Some False, Some True, Some True]"

section \<open>The tests pass\<close>

lemma types_passes: "test_types be"
  by (cases be) (simp only: test_types_def; code_simp)+

lemma url_passes: "test_url strict"
  by (cases strict) (simp only:; code_simp)+

text \<open>
  With a C library that counts suppressed conversions; the other kind reads a port that was never
  written (\<open>url_without_port_unset\<close>).
\<close>

lemma address_urls:
  "lo_url_get_hostname True ''osc://localhost/'' = Some (Ref ''localhost'')"
  "lo_url_get_port True ''osc://localhost/'' = Some NULL"
  "lo_url_get_hostname True ''osc.tcp://foo.example.com:9999/'' = Some (Ref ''foo.example.com'')"
  "lo_url_get_port True ''osc.tcp://foo.example.com:9999/'' = Some (Ref ''9999'')"
  "lo_url_get_protocol True (Ref ''osc.://localhost/'') = Some NULL"
  "proto_of (lo_url_get_protocol_id (Ref ''osc://localhost/'')) = Some LO_UDP"
  "proto_of (lo_url_get_protocol_id (Ref ''osc.tcp://foo.example.com:9999/'')) = Some LO_TCP"
  "proto_of (lo_url_get_protocol_id (Ref ''osc.://localhost/'')) = None"
  by code_simp+

lemma address_passes: "test_address True al_zero"
proof -
  have dup: "strdup al_zero p = p" for p by (cases p) (simp_all add: strdup_def al_zero_def)
  have url: "lo_address_get_url (zero_address\<lparr>a_socket := - 1, a_ownsocket := True, a_protocol := Some LO_TCP,
      a_host := Ref ''foo.example.com'', a_port := Ref ''9999'', a_ttl := - 1\<rparr>) = Some (Ref ''osc.tcp://foo.example.com:9999/'')"
    by (simp add: lo_address_get_url_def resolved_def get_protocol_name_def)
  show ?thesis
    by (simp add: test_address_def lo_address_new_from_url_def lo_address_new_with_proto_def address_urls url
      dup al_zero_def lo_address_get_hostname_def lo_address_get_port_def lo_address_get_protocol_def resolved_def)
qed

lemma blob_passes: "test_blob al_zero be"
  by (cases be) (simp only:; code_simp)+

lemma pattern_passes: "test_pattern of_char"
  by code_simp

lemma deserialise_passes:
  "list_all (test_deserialise_case al_zero be [a, b, c, d, e, f, g, h]) deserialise_cases"
  by (cases be) (simp only:; code_simp)+

lemma scan_nul_step:
  "scan_nul (b # bs) (numeral k) i = (if b = NUL then Some (Some i) else scan_nul bs (pred_numeral k) (Suc i))"
  by (simp add: numeral_eq_Suc)

lemma pad_zero_step:
  "pad_zero (b # bs) (numeral k) = (if b \<noteq> NUL then Some False else pad_zero bs (pred_numeral k))"
  by (simp add: numeral_eq_Suc)

lemma long_blob_invalid:
  "0 \<le> n \<Longrightarrow> LO_MAX_MSG_SIZE < unat w \<Longrightarrow> lo_validate_arg be (CHR ''b'') (be32 w @ rest) n = Some (- LO_ESIZE)"
proof -
  have "lo_type_of (CHR ''b'') = Some LO_BLOB" by code_simp
  then show "0 \<le> n \<Longrightarrow> LO_MAX_MSG_SIZE < unat w \<Longrightarrow> ?thesis"
    by (simp add: lo_validate_arg_def lo_validate_blob_def Let_def)
qed

lemma deserialise_blob_passes:
  assumes "length rest = 244"
  shows "test_deserialise_blob al_zero be rest"
  by (simp add: test_deserialise_blob_def replace_char_def lo_message_deserialise_def c_int_def lo_validate_string_def
    scan_nul_step pad_zero_step long_blob_invalid LO_MAX_MSG_SIZE_def Let_def assms al_zero_def)

lemma crafted_rejected: "lo_message_deserialise al_zero be crafted 14 = Some (NULL, LO_EINVALIDARG)"
proof -
  have "be32 0x2C000F42 = '','' @ [CHR 0x00, CHR 0x0F, CHR 0x42]" by code_simp
  then have mem: "crafted = ''/'' @ [NUL, NUL, NUL] @ '',bs'' @ [NUL] @ be32 0x2C000F42 @ [CHR 0x3F, NUL]"
    by (simp add: crafted_def)
  show ?thesis
    unfolding mem by (simp add: lo_message_deserialise_def c_int_def lo_validate_string_def scan_nul_step pad_zero_step
      long_blob_invalid LO_MAX_MSG_SIZE_def Let_def al_zero_def)
qed

lemma validation_passes:
  assumes "e_al env = al_zero"
  shows "test_validation env s"
proof -
  have "length crafted = 14" "cstr crafted = Some ''/''" by code_simp+
  moreover have "lo_validate_string crafted 14 = Some 4" "str_eq crafted ''#bundle'' = Some False" by code_simp+
  ultimately show ?thesis
    by (simp add: test_validation_def dispatch_data.simps crafted_rejected assms)
qed

lemma add_value_step:
  assumes "msg_repr be m xs" "alloc_total al" "arg_ok x" "args_len xs + length (wire_arg x) \<le> lo_pow2_safe"
    and "case x of OChar w \<Rightarrow> \<exists>c. w = char_cell be c | _ \<Rightarrow> True"
  shows "\<exists>m'. add_value al be x m = Some (0, m') \<and> msg_repr be m' (xs @ [x])"
proof -
  obtain m1 where m1: "add_arg al m (arg_tag x) (length (wire_arg x)) (host_arg be x) = (0, m1)" "msg_repr be m1 (xs @ [x])"
    using appended(1) [OF assms(1,2,4,3)] by auto
  note m2 = appended(2) [OF assms(1,2,4,3)]
  show ?thesis
  proof (cases x)
    case (OBlob d)
    then show ?thesis
      using lo_message_add_blob_eq [OF assms(1) alloc_total_ok [OF assms(2)], of d] assms(3,4) m1
      by (simp del: length_blob_pad')
  next
    case (OMidi a b c d)
    then have "add_arg al m (typechar LO_MIDI) 4 [a, b, c, d] = (0, m1)"
      using m1(1) by (simp add: arg_tag_def eval_nat_numeral)
    then show ?thesis using m1(2) OMidi by (simp add: add_defs)
  qed (use assms(5) m1 m2 in \<open>auto simp: add_defs lo_message_add_timetag_def arg_tag_def\<close>)
qed

lemma add_values_repr:
  "msg_repr be m xs \<Longrightarrow> alloc_total al \<Longrightarrow> list_all arg_ok ys \<Longrightarrow> args_len (xs @ ys) \<le> lo_pow2_safe \<Longrightarrow>
   list_all (\<lambda>x. case x of OChar w \<Rightarrow> \<exists>c. w = char_cell be c | _ \<Rightarrow> True) ys \<Longrightarrow>
   \<exists>m'. add_values al be ys m = Some m' \<and> msg_repr be m' (xs @ ys)"
proof (induction ys arbitrary: m xs)
  case (Cons y ys)
  obtain m1 where m1: "add_value al be y m = Some (0, m1)" "msg_repr be m1 (xs @ [y])"
    using add_value_step [OF Cons.prems(1,2), of y] Cons.prems(3-5) by (auto simp: args_len_def)
  then show ?case using Cons.IH [OF m1(2)] Cons.prems(2-5) by simp
qed simp

lemma test_args_ok:
  "list_all arg_ok (test_args be f d)" "wire_len ''/foo'' (test_args be f d) = 92"
  "args_len (test_args be f d) \<le> lo_pow2_safe"
  "list_all (\<lambda>x. case x of OChar w \<Rightarrow> \<exists>c. w = char_cell be c | _ \<Rightarrow> True) (test_args be f d)"
  "map arg_tag (test_args be f d) = ''fisbmhtdSccTFNI''"
  by (auto simp: test_args_def testdata_def LO_MAX_MSG_SIZE_def wire_len_def args_len_def lo_strsize_def blob_len_def
    lo_pow2_safe_def arg_tag_def typechar.simps blob_pad_def type_tags_def)

lemma same_args_repr:
  assumes "msg_repr be m (test_args be f d)"
  shows "same_args be f d m"
proof -
  have "m_typelen m = Suc (length (test_args be f d))"
    and t: "take (length (test_args be f d) + 2) (m_types m) = CHR '','' # map arg_tag (test_args be f d) @ [NUL]"
    using assms by (simp_all add: msg_repr_def types_ok_def)
  moreover have "length (test_args be f d) = 15" by (simp add: test_args_def)
  moreover have "cstr (lo_message_get_types m) = Some ''fisbmhtdSccTFNI''"
  proof -
    obtain rest where "m_types m = (CHR '','' # ''fisbmhtdSccTFNI'' @ [NUL]) @ rest"
      using t append_take_drop_id [of "length (test_args be f d) + 2" "m_types m"] unfolding test_args_ok(5) by metis
    then show ?thesis by (simp add: lo_message_get_types_def)
  qed
  ultimately show ?thesis using assms by (simp add: same_args_def lo_message_get_argc_def)
qed

theorem message_test_passes:
  assumes "alloc_total al"
  shows "test_deserialise al be f d"
proof -
  let ?xs = "test_args be f d" and ?w = "wire_message ''/foo'' (test_args be f d)"
  obtain m0 where m0: "lo_message_new al = Some (Ref m0)" "msg_repr be m0 []"
    using lo_message_new_repr [OF assms] by blast
  obtain m where m: "add_values al be ?xs m0 = Some m" "msg_repr be m ?xs"
    using add_values_repr [OF m0(2) assms test_args_ok(1) _ test_args_ok(4)] test_args_ok(3) [of be f d] by auto
  have ser: "lo_message_serialise al be k ''/foo'' (Ref (replicate 92 NUL)) = Some (?w, 92)" if "msg_repr be k ?xs" for k
    using lo_message_serialise_into [OF that, of "''/foo''" "replicate 92 NUL"] by (simp add: test_args_ok(2))
  obtain m' where m': "lo_message_deserialise al be ?w 92 = Some (Ref m', 0)" "msg_repr be m' ?xs"
    using deserialise_wire_message [OF _ test_args_ok(1) [of be f d] assms, of "''/foo''" be "[]"] by (auto simp: test_args_ok(2))
  have "lo_validate_string ?w 92 = Some (int (lo_strsize ''/foo''))"
    unfolding wire_message_def by (intro lo_validate_string_padstr) (simp_all add: lo_strsize_def)
  then have path: "lo_get_path ?w 92 = Some (Ref ?w)" by (simp add: lo_get_path_def lo_strsize_def)
  have c: "cstr ?w = Some ''/foo''" using padstr_eq [of "''/foo''"] by (auto simp: wire_message_def)
  have argc: "lo_message_get_argc m0 = 0" using m0(2) by (simp add: msg_repr_def types_ok_def lo_message_get_argc_def)
  have len: "lo_message_length k ''/foo'' = Some 92" if "msg_repr be k ?xs" for k
    using msg_repr_length [OF that] by (simp add: test_args_ok(2))
  show ?thesis
    unfolding test_deserialise_def
    by (simp add: m0(1) m m'(1) argc same_args_repr [OF m(2)] same_args_repr [OF m'(2)] len [OF m(2)] len [OF m'(2)]
      ser [OF m(2)] ser [OF m'(2)] path c)
qed

text \<open>
  With a C library like glibc, which counts only the conversions it assigns, the scan of this URL for
  a port ends in EOF, which the code takes for success: the first address of \<open>test_address\<close> is made
  with a port that was never written.
\<close>

theorem url_without_port_unset: "lo_url_get_port False ''osc://localhost/'' = None"
  by code_simp

end
