(* ===== verification/Version.thy ===== *)
theory Version
  imports Tools
begin

text \<open>
  \<open>lo_version\<close> (\<open>src/version.c\<close>): the version of the library, in the form the caller asks for. The two
  constants of the build, \<open>PACKAGE_VERSION\<close> and \<open>LO_SO_VERSION\<close>, are arguments.
\<close>

section \<open>The call\<close>

text \<open>The pointers of the call, which do not overlap; a buffer is its content, an \<open>int\<close> its value.\<close>

record version_out =
  vo_verstr :: "byte list ptr"
  vo_major :: "int ptr"
  vo_minor :: "int ptr"
  vo_extra :: "byte list ptr"
  vo_lt_major :: "int ptr"
  vo_lt_minor :: "int ptr"
  vo_lt_bug :: "int ptr"

text \<open>\<open>%d\<close>; a value an \<open>int\<close> cannot hold is undefined.\<close>

definition scan_int :: "byte list \<Rightarrow> (int \<times> byte list) option" where
  "scan_int s =
     (let (sg, u) = sign (dropWhile is_space s)
      in if takeWhile is_digit u = [] then None
         else Some (sg * digits_value (takeWhile is_digit u), dropWhile is_digit u))"

definition fits_int :: "int \<Rightarrow> bool" where
  "fits_int v \<longleftrightarrow> - (2 ^ 31) \<le> v \<and> v < 2 ^ 31"

text \<open>
  \<open>sscanf(PACKAGE_VERSION, "%d.%d%s", &_maj, &_min, ex)\<close>: the count, as far as the code looks at it
  (\<open>0\<close> for every count that is not 2 or 3), the two numbers and \<open>ex\<close>. The buffer \<open>ex\<close> has 256 bytes.
\<close>

definition scan_version :: "byte list \<Rightarrow> (int \<times> int \<times> int \<times> byte list) option" where
  "scan_version s =
     (case scan_int s of
        Some (maj, CHR ''.'' # r) \<Rightarrow>
          if \<not> fits_int maj then None
          else (case scan_int r of
                  None \<Rightarrow> Some (0, 0, 0, [])
                | Some (mi, r2) \<Rightarrow>
                    let ex = takeWhile (\<lambda>c. \<not> is_space c) (dropWhile is_space r2)
                    in if \<not> fits_int mi \<or> length ex \<ge> 256 then None
                       else if ex = [] then Some (2, maj, mi, [])
                       else Some (3, maj, mi, ex))
      | Some (maj, _) \<Rightarrow> if fits_int maj then Some (0, 0, 0, []) else None
      | None \<Rightarrow> Some (0, 0, 0, []))"

text \<open>\<open>strncpy(dst, src, n)\<close>; a negative \<open>int\<close> becomes a huge \<open>size_t\<close>.\<close>

definition strncpy :: "byte list \<Rightarrow> byte list \<Rightarrow> int \<Rightarrow> byte list option" where
  "strncpy dst src n =
     (if n < 0 \<or> int (length dst) < n then None
      else Some (take (nat n) (src @ replicate (nat n) NUL) @ drop (nat n) dst))"

definition set_out :: "int \<Rightarrow> int ptr \<Rightarrow> int ptr" where
  "set_out v p = (case p of NULL \<Rightarrow> NULL | Ref _ \<Rightarrow> Ref v)"

definition copy_out :: "byte list ptr \<Rightarrow> byte list \<Rightarrow> int \<Rightarrow> byte list ptr option" where
  "copy_out p src n = (case p of NULL \<Rightarrow> Some NULL | Ref dst \<Rightarrow> map_option Ref (strncpy dst src n))"

definition clear_out :: "byte list ptr \<Rightarrow> int \<Rightarrow> byte list ptr option" where
  "clear_out p n =
     (case p of
        Ref dst \<Rightarrow> if n > 0 then (if dst = [] then None else Some (Ref (dst[0 := NUL]))) else Some p
      | NULL \<Rightarrow> Some p)"

definition lo_version ::
  "byte list \<Rightarrow> int \<times> int \<times> int \<Rightarrow> int \<Rightarrow> int \<Rightarrow> version_out \<Rightarrow> version_out option" where
  "lo_version package_version so_version verstr_size extra_size vo =
     (case scan_version package_version of
        None \<Rightarrow> None
      | Some (i, maj, mi, ex) \<Rightarrow>
          (case clear_out (vo_extra vo) extra_size of
             None \<Rightarrow> None
           | Some extra \<Rightarrow>
               let known = (i = 2 \<or> i = 3);
                   major = set_out (if known then maj else 0) (vo_major vo);
                   minor = set_out (if known then mi else 0) (vo_minor vo)
               in (case (if i = 3 then copy_out extra ex extra_size else Some extra) of
                     None \<Rightarrow> None
                   | Some extra2 \<Rightarrow>
                       (case copy_out (vo_verstr vo) package_version verstr_size of
                          None \<Rightarrow> None
                        | Some verstr \<Rightarrow>
                            let (current, revision, age) = so_version
                            in Some \<lparr>vo_verstr = verstr, vo_major = major, vo_minor = minor, vo_extra = extra2,
                                 vo_lt_major = set_out (current - age) (vo_lt_major vo),
                                 vo_lt_minor = set_out age (vo_lt_minor vo),
                                 vo_lt_bug = set_out revision (vo_lt_bug vo)\<rparr>))))"

section \<open>Scanning a version\<close>

lemma take_digits: "list_all is_digit ds \<Longrightarrow> t = [] \<or> \<not> is_digit (hd t) \<Longrightarrow>
  takeWhile is_digit (ds @ t) = ds \<and> dropWhile is_digit (ds @ t) = t"
  by (induction ds) (cases t, auto)

lemma scan_int_dec:
  assumes "t = [] \<or> \<not> is_digit (hd t)"
  shows "scan_int (dec n @ t) = Some (int n, t)"
proof -
  obtain c cs where c: "dec n = c # cs" "is_digit c" using dec_digits [of n] by (cases "dec n") auto
  have "sign (dropWhile is_space (dec n @ t)) = (1, dec n @ t)"
    using c digit_not [OF c(2)] by (simp add: sign_def)
  moreover have "takeWhile is_digit (dec n @ t) = dec n" "dropWhile is_digit (dec n @ t) = t"
    using take_digits [OF _ assms] dec_digits [of n] by simp_all
  ultimately show ?thesis using dec_digits [of n] digits_value_dec [of n] by (simp add: scan_int_def)
qed

definition version_text :: "nat \<Rightarrow> nat \<Rightarrow> byte list \<Rightarrow> byte list" where
  "version_text maj mi ex = dec maj @ CHR ''.'' # dec mi @ ex"

lemma scan_version_text:
  assumes "ex = [] \<or> \<not> is_digit (hd ex)" "list_all (\<lambda>c. \<not> is_space c) ex" "length ex < 256"
    and "maj < 2 ^ 31" "mi < 2 ^ 31"
  shows "scan_version (version_text maj mi ex) = Some (if ex = [] then 2 else 3, int maj, int mi, ex)"
proof -
  have "\<not> is_digit (CHR ''.'')" by (simp add: is_digit_def)
  then have "scan_int (version_text maj mi ex) = Some (int maj, CHR ''.'' # dec mi @ ex)"
    unfolding version_text_def by (intro scan_int_dec) simp
  moreover have "scan_int (dec mi @ ex) = Some (int mi, ex)" by (rule scan_int_dec [OF assms(1)])
  moreover have "takeWhile (\<lambda>c. \<not> is_space c) (dropWhile is_space ex) = ex"
    using assms(2) by (cases ex) (auto simp: list_all_iff)
  ultimately show ?thesis using assms(3-5) by (simp add: scan_version_def fits_int_def)
qed

section \<open>Copying with a limit\<close>

lemma strncpy_fits:
  assumes "int (length src) < n" "n \<le> int (length dst)" "NUL \<notin> set src"
  shows "\<exists>d. strncpy dst src n = Some d \<and> cstr d = Some src"
proof -
  obtain k where k: "nat n - length src = Suc k" using assms(1) by (cases "nat n - length src") auto
  have "take (nat n) (src @ replicate (nat n) NUL) = src @ NUL # replicate k NUL"
    using assms(1) k by (simp add: min_def)
  with assms show ?thesis by (simp add: strncpy_def)
qed

lemma strncpy_fills:
  assumes "0 \<le> n" "n = int (length dst)" "length dst \<le> length src"
  shows "strncpy dst src n = Some (take (length dst) src)"
  using assms by (simp add: strncpy_def)

lemma cstr_unterminated: "NUL \<notin> set bs \<Longrightarrow> cstr bs = None"
  by (induction bs) auto

lemma version_text_chars: "NUL \<notin> set ex \<Longrightarrow> NUL \<notin> set (version_text maj mi ex)"
  using dec_digits [of maj] dec_digits [of mi] by (auto simp: version_text_def list_all_iff is_digit_def)

section \<open>Properties\<close>

definition version_text_ok :: "nat \<Rightarrow> nat \<Rightarrow> byte list \<Rightarrow> bool" where
  "version_text_ok maj mi ex \<longleftrightarrow>
     (ex = [] \<or> \<not> is_digit (hd ex)) \<and> list_all (\<lambda>c. \<not> is_space c \<and> c \<noteq> NUL) ex \<and> length ex < 256 \<and>
     maj < 2 ^ 31 \<and> mi < 2 ^ 31"

text \<open>
  In buffers with room for the terminator, the string that is returned is the major version, a dot, the
  minor version and the extra text, as returned one by one; the ABI version is the one of libtool:
  current less age, age, revision.
\<close>

theorem version_parts:
  assumes "version_text_ok maj mi ex"
    and "int (length (version_text maj mi ex)) < verstr_size" "verstr_size \<le> int (length v)"
    and "int (length ex) < extra_size" "extra_size \<le> int (length e)"
  shows "\<exists>v' e'. lo_version (version_text maj mi ex) (current, revision, age) verstr_size extra_size
      \<lparr>vo_verstr = Ref v, vo_major = Ref a, vo_minor = Ref b, vo_extra = Ref e,
       vo_lt_major = Ref c, vo_lt_minor = Ref d, vo_lt_bug = Ref f\<rparr> =
    Some \<lparr>vo_verstr = Ref v', vo_major = Ref (int maj), vo_minor = Ref (int mi), vo_extra = Ref e',
       vo_lt_major = Ref (current - age), vo_lt_minor = Ref age, vo_lt_bug = Ref revision\<rparr> \<and>
    cstr v' = Some (version_text maj mi ex) \<and> cstr e' = Some ex"
proof -
  have ex: "NUL \<notin> set ex" "list_all (\<lambda>c. \<not> is_space c) ex" using assms(1) by (auto simp: version_text_ok_def list_all_iff)
  have scan: "scan_version (version_text maj mi ex) = Some (if ex = [] then 2 else 3, int maj, int mi, ex)"
    using assms(1) ex(2) by (intro scan_version_text) (simp_all add: version_text_ok_def)
  obtain v' where v': "strncpy v (version_text maj mi ex) verstr_size = Some v'" "cstr v' = Some (version_text maj mi ex)"
    using strncpy_fits [OF assms(2,3) version_text_chars [OF ex(1)]] by blast
  obtain z zs where e: "e = z # zs" using assms(4,5) by (cases e) auto
  have "int (length ex) < extra_size" "extra_size \<le> int (length (NUL # zs))" using assms(4,5) e by simp_all
  from strncpy_fits [OF this ex(1)] obtain e'
    where e': "strncpy (NUL # zs) ex extra_size = Some e'" "cstr e' = Some ex" by blast
  show ?thesis
    using assms(4) v' e' by (simp add: lo_version_def scan clear_out_def copy_out_def set_out_def e)
qed

text \<open>
  A buffer for the version string that is not longer than the string is filled to its end: what is
  returned has no terminator.
\<close>

theorem version_string_unterminated:
  assumes "version_text_ok maj mi ex" "length v \<le> length (version_text maj mi ex)" "vo_verstr vo = Ref v"
    and "vo_extra vo = NULL"
  shows "\<exists>vo'. lo_version (version_text maj mi ex) lt (int (length v)) 0 vo = Some vo' \<and>
    (\<exists>v'. vo_verstr vo' = Ref v' \<and> cstr v' = None)"
proof -
  have ex: "NUL \<notin> set ex" "list_all (\<lambda>c. \<not> is_space c) ex" using assms(1) by (auto simp: version_text_ok_def list_all_iff)
  have scan: "scan_version (version_text maj mi ex) = Some (if ex = [] then 2 else 3, int maj, int mi, ex)"
    using assms(1) ex(2) by (intro scan_version_text) (simp_all add: version_text_ok_def)
  have "cstr (take (length v) (version_text maj mi ex)) = None"
    using version_text_chars [OF ex(1)] by (intro cstr_unterminated) (auto dest: in_set_takeD)
  then show ?thesis
    using strncpy_fills [of "int (length v)" v "version_text maj mi ex"] assms(2-4)
    by (cases lt) (simp add: lo_version_def scan clear_out_def copy_out_def Let_def)
qed

section \<open>Witnesses\<close>

text \<open>Release 0.28 with the text \<open>rc\<close>, built with the libtool version 10:1:3.\<close>

lemma version_028: "version_text 0 28 ''rc'' = ''0.28rc''"
  by (simp add: version_text_def dec.simps [of 0] dec.simps [of 28] dec.simps [of 2])

lemma version_028_ok: "version_text_ok 0 28 ''rc''"
  by (simp add: version_text_ok_def is_digit_def is_space_def)

theorem version_parts_witness:
  "\<exists>v' e'. lo_version ''0.28rc'' (10, 1, 3) 7 3
      \<lparr>vo_verstr = Ref ''???????'', vo_major = Ref 9, vo_minor = Ref 9, vo_extra = Ref ''???'',
       vo_lt_major = Ref 9, vo_lt_minor = Ref 9, vo_lt_bug = Ref 9\<rparr> =
    Some \<lparr>vo_verstr = Ref v', vo_major = Ref 0, vo_minor = Ref 28, vo_extra = Ref e',
       vo_lt_major = Ref 7, vo_lt_minor = Ref 3, vo_lt_bug = Ref 1\<rparr> \<and>
    cstr v' = Some ''0.28rc'' \<and> cstr e' = Some ''rc''"
  using version_parts [OF version_028_ok, of 7 "''???????''" 3 "''???''" 10 1 3 9 9 9 9 9] unfolding version_028 by simp

theorem version_string_unterminated_witness:
  "\<exists>vo'. lo_version ''0.28rc'' (10, 1, 3) 4 0
      \<lparr>vo_verstr = Ref ''????'', vo_major = NULL, vo_minor = NULL, vo_extra = NULL,
       vo_lt_major = NULL, vo_lt_minor = NULL, vo_lt_bug = NULL\<rparr> = Some vo' \<and>
    (\<exists>v'. vo_verstr vo' = Ref v' \<and> cstr v' = None)"
  using version_string_unterminated [OF version_028_ok, of "''????''"
    "\<lparr>vo_verstr = Ref ''????'', vo_major = NULL, vo_minor = NULL, vo_extra = NULL,
      vo_lt_major = NULL, vo_lt_minor = NULL, vo_lt_bug = NULL\<rparr>" "(10, 1, 3)"]
  unfolding version_028 by simp

end
