(* ===== verification/Errors.thy ===== *)
theory Errors
  imports Prelude
begin

text \<open>
  How an error handler learns which server it is called for (\<open>src/server.c\<close>): \<open>lo_throw\<close> stores the user
  data of the server in the global \<open>lo_error_context\<close> under a mutex that it holds while the handler runs,
  and the handler reads it with \<open>lo_error_get_context\<close>. Any number of threads may do so, for any
  servers, and a handler may itself call into the library. What a handler is told, and by which server,
  is in theory \<open>Dispatch\<close>.
\<close>

section \<open>The threads\<close>

text \<open>
  A call of \<open>lo_throw\<close> in progress for the server \<open>fr_server\<close>: before \<open>pthread_mutex_lock\<close>, before the
  assignment, inside the handler, before \<open>pthread_mutex_unlock\<close>. Once assigned, \<open>fr_data\<close> is the user
  data that the call has read. The stack of a thread holds its calls, the innermost first.
\<close>

datatype throw_pc = Locking | Assigning | Handling | Unlocking

record 'd frame =
  fr_server :: nat
  fr_pc :: throw_pc
  fr_data :: 'd

text \<open>
  The two globals (the mutex is the thread that holds it), and per server whether it has a handler and
  its \<open>error_user_data\<close>. Threads and servers are numbered.
\<close>

record 'd world =
  w_context :: 'd
  w_mutex :: "nat option"
  w_handler :: "nat \<Rightarrow> bool"
  w_data :: "nat \<Rightarrow> 'd"
  w_stack :: "nat \<Rightarrow> 'd frame list"

section \<open>The operations\<close>

definition lo_error_get_context :: "'d world \<Rightarrow> 'd" where
  "lo_error_get_context w = w_context w"

definition lo_server_set_error_context :: "nat \<Rightarrow> 'd \<Rightarrow> 'd world \<Rightarrow> 'd world" where
  "lo_server_set_error_context s d w = w\<lparr>w_data := (w_data w)(s := d)\<rparr>"

text \<open>The entry of \<open>lo_throw\<close>.\<close>

definition throw_enter :: "nat \<Rightarrow> nat \<Rightarrow> 'd world \<Rightarrow> 'd world" where
  "throw_enter t s w =
     (if w_handler w s
      then w\<lparr>w_stack := (w_stack w)(t := \<lparr>fr_server = s, fr_pc = Locking, fr_data = w_data w s\<rparr> # w_stack w t)\<rparr>
      else w)"

text \<open>
  The next step of the innermost call of a thread; \<open>None\<close> when it has to wait for the mutex, which is
  not recursive, or has no call. The step from \<open>Handling\<close> is the return of the handler.
\<close>

definition throw_next :: "nat \<Rightarrow> 'd world \<Rightarrow> 'd world option" where
  "throw_next t w =
     (case w_stack w t of
        [] \<Rightarrow> None
      | f # fs \<Rightarrow>
          (case fr_pc f of
             Locking \<Rightarrow>
               (case w_mutex w of
                  None \<Rightarrow> Some (w\<lparr>w_mutex := Some t, w_stack := (w_stack w)(t := f\<lparr>fr_pc := Assigning\<rparr> # fs)\<rparr>)
                | Some _ \<Rightarrow> None)
           | Assigning \<Rightarrow>
               (let d = w_data w (fr_server f) in
                Some (w\<lparr>w_context := d, w_stack := (w_stack w)(t := f\<lparr>fr_pc := Handling, fr_data := d\<rparr> # fs)\<rparr>))
           | Handling \<Rightarrow> Some (w\<lparr>w_stack := (w_stack w)(t := f\<lparr>fr_pc := Unlocking\<rparr> # fs)\<rparr>)
           | Unlocking \<Rightarrow> Some (w\<lparr>w_mutex := None, w_stack := (w_stack w)(t := fs)\<rparr>)))"

text \<open>A thread runs code outside the library's error path: no call is in progress, or its handler runs.\<close>

definition at_client :: "'d frame list \<Rightarrow> bool" where
  "at_client fs \<longleftrightarrow> (case fs of [] \<Rightarrow> True | f # _ \<Rightarrow> fr_pc f = Handling)"

section \<open>The interleaving\<close>

text \<open>\<open>may_set\<close> are the servers whose context may be changed meanwhile.\<close>

inductive error_step :: "(nat \<Rightarrow> bool) \<Rightarrow> nat \<Rightarrow> 'd world \<Rightarrow> 'd world \<Rightarrow> bool" for may_set :: "nat \<Rightarrow> bool" where
  enter: "at_client (w_stack w t) \<Longrightarrow> error_step may_set t w (throw_enter t s w)"
| run: "throw_next t w = Some w' \<Longrightarrow> error_step may_set t w w'"
| set_context: "at_client (w_stack w t) \<Longrightarrow> may_set s \<Longrightarrow>
    error_step may_set t w (lo_server_set_error_context s d w)"

inductive error_steps :: "(nat \<Rightarrow> bool) \<Rightarrow> 'd world \<Rightarrow> 'd world \<Rightarrow> bool" for may_set :: "nat \<Rightarrow> bool" where
  refl: "error_steps may_set w w"
| step: "error_steps may_set w w' \<Longrightarrow> error_step may_set t w' w'' \<Longrightarrow> error_steps may_set w w''"

lemma error_steps_trans:
  "error_steps m v w \<Longrightarrow> error_steps m u v \<Longrightarrow> error_steps m u w"
  by (induction rule: error_steps.induct) (auto intro: error_steps.step)

lemma error_steps_run:
  "throw_next t w = Some w' \<Longrightarrow> error_steps m w' w'' \<Longrightarrow> error_steps m w w''"
  using error_steps_trans [OF _ error_steps.step [OF error_steps.refl error_step.run]] by blast

definition quiet :: "'d world \<Rightarrow> bool" where
  "quiet w \<longleftrightarrow> w_mutex w = None \<and> (\<forall>t. w_stack w t = [])"

text \<open>
  The invariant: of the calls of a thread only the innermost may still wait for the mutex, or none
  does; the thread has at most one call past it, and it has one exactly when it holds the mutex.
  A handler that runs has its data in the global.
\<close>

definition waiting :: "'d frame list \<Rightarrow> bool" where
  "waiting fs \<longleftrightarrow> (\<exists>f. fs = [f] \<and> fr_pc f = Locking)"

definition inside :: "'d frame \<Rightarrow> 'd \<Rightarrow> bool" where
  "inside f c \<longleftrightarrow> fr_pc f \<noteq> Locking \<and> (fr_pc f = Handling \<longrightarrow> fr_data f = c)"

definition holding :: "'d frame list \<Rightarrow> 'd \<Rightarrow> bool" where
  "holding fs c \<longleftrightarrow>
     (\<exists>f. fs = [f] \<and> inside f c) \<or>
     (\<exists>g f. fs = [g, f] \<and> fr_pc g = Locking \<and> fr_pc f = Handling \<and> fr_data f = c)"

definition error_inv :: "'d world \<Rightarrow> bool" where
  "error_inv w \<longleftrightarrow>
     (\<forall>t. if w_mutex w = Some t then holding (w_stack w t) (w_context w)
          else w_stack w t = [] \<or> waiting (w_stack w t))"

lemmas error_inv_defs = error_inv_def holding_def waiting_def inside_def

lemma error_invD:
  assumes "error_inv w"
  shows "w_mutex w = Some t \<Longrightarrow> holding (w_stack w t) (w_context w)"
    and "w_mutex w \<noteq> Some t \<Longrightarrow> w_stack w t = [] \<or> waiting (w_stack w t)"
  using assms by (auto simp: error_inv_def dest!: spec [of _ t])

lemma at_client_inv:
  assumes "error_inv w" "at_client (w_stack w t)"
  shows "w_stack w t = [] \<and> w_mutex w \<noteq> Some t \<or>
    (\<exists>f. w_stack w t = [f] \<and> fr_pc f = Handling \<and> fr_data f = w_context w \<and> w_mutex w = Some t)"
  using error_invD [OF assms(1), of t] assms(2)
  by (cases "w_mutex w = Some t") (auto simp: holding_def waiting_def inside_def at_client_def)

lemma enter_inv:
  assumes "error_inv w" "at_client (w_stack w t)"
  shows "error_inv (throw_enter t s w)"
  using at_client_inv [OF assms] assms(1)
  by (auto simp: throw_enter_def error_inv_defs split: if_splits)

lemma run_inv:
  assumes "error_inv w" "throw_next t w = Some w'"
  shows "error_inv w'"
proof -
  obtain f fs where s: "w_stack w t = f # fs" using assms(2) by (auto simp: throw_next_def split: list.splits)
  show ?thesis
  proof (cases "w_mutex w = Some t")
    case True
    then show ?thesis
      using error_invD(1) [OF assms(1) True] assms s
      by (auto simp: throw_next_def error_inv_defs Let_def split: throw_pc.splits if_splits)
  next
    case False
    then have "fs = []" "fr_pc f = Locking" "w_mutex w = None"
      using error_invD(2) [OF assms(1) False] assms(2) s
      by (auto simp: throw_next_def waiting_def split: option.splits)
    then show ?thesis using assms s by (auto simp: throw_next_def error_inv_defs)
  qed
qed

lemma error_step_inv: "error_step m t w w' \<Longrightarrow> error_inv w \<Longrightarrow> error_inv w'"
proof (induction rule: error_step.induct)
  case (set_context w t s d)
  then show ?case by (simp add: error_inv_def lo_server_set_error_context_def)
qed (blast intro: enter_inv run_inv)+

lemma error_steps_inv: "error_steps m w w' \<Longrightarrow> error_inv w \<Longrightarrow> error_inv w'"
  by (induction rule: error_steps.induct) (blast intro: error_step_inv)+

lemma quiet_inv: "quiet w \<Longrightarrow> error_inv w"
  by (simp add: quiet_def error_inv_def)

text \<open>What a handler is given, as long as the context of its server is left alone.\<close>

definition data_inv :: "(nat \<Rightarrow> bool) \<Rightarrow> 'd world \<Rightarrow> bool" where
  "data_inv m w \<longleftrightarrow>
     (\<forall>t. \<forall>f \<in> set (w_stack w t). fr_pc f = Handling \<longrightarrow> \<not> m (fr_server f) \<longrightarrow> fr_data f = w_data w (fr_server f))"

lemma error_step_data: "error_step m t w w' \<Longrightarrow> data_inv m w \<Longrightarrow> data_inv m w'"
proof (induction rule: error_step.induct)
  case (run t w w')
  obtain f fs where s: "w_stack w t = f # fs" using run.hyps by (auto simp: throw_next_def split: list.splits)
  have old: "fr_data g = w_data w (fr_server g)"
    if "g \<in> set (w_stack w u)" "fr_pc g = Handling" "\<not> m (fr_server g)" for u g
    using run.prems that unfolding data_inv_def by blast
  have "fr_data g = w_data w (fr_server g)" if "g \<in> set fs" "fr_pc g = Handling" "\<not> m (fr_server g)" for g
    using old [of g t] that s by simp
  then show ?case
    using run.hyps s old
    by (auto simp: throw_next_def data_inv_def Let_def split: throw_pc.splits option.splits if_splits)
qed (auto simp: data_inv_def throw_enter_def lo_server_set_error_context_def)

lemma error_steps_data: "error_steps m w w' \<Longrightarrow> data_inv m w \<Longrightarrow> data_inv m w'"
  by (induction rule: error_steps.induct) (blast intro: error_step_data)+

section \<open>A handler that raises an error\<close>

text \<open>A thread whose handler waits for the mutex that its own call holds.\<close>

definition stuck :: "nat \<Rightarrow> 'd world \<Rightarrow> bool" where
  "stuck t w \<longleftrightarrow> w_mutex w = Some t \<and> (\<exists>g f fs. w_stack w t = g # f # fs \<and> fr_pc g = Locking)"

lemma stuck_step:
  assumes "error_step m u w w'" "error_inv w" "stuck t w"
  shows "stuck t w' \<and> w_stack w' t = w_stack w t"
  using assms(1)
proof (cases rule: error_step.cases)
  case (enter s)
  then have "u \<noteq> t" using assms(3) by (auto simp: stuck_def at_client_def)
  then show ?thesis using enter assms(3) by (auto simp: stuck_def throw_enter_def)
next
  case run
  have "u \<noteq> t" using run assms(3) by (auto simp: stuck_def throw_next_def)
  moreover have "w_stack w u = [] \<or> waiting (w_stack w u)"
    using error_invD(2) [OF assms(2)] assms(3) \<open>u \<noteq> t\<close> by (simp add: stuck_def)
  ultimately have False using run assms(3) by (auto simp: stuck_def throw_next_def waiting_def)
  then show ?thesis ..
next
  case (set_context s d)
  then show ?thesis using assms(3) by (simp add: stuck_def lo_server_set_error_context_def)
qed

lemma stuck_steps:
  "error_steps m w w' \<Longrightarrow> error_inv w \<Longrightarrow> stuck t w \<Longrightarrow> stuck t w' \<and> w_stack w' t = w_stack w t"
proof (induction rule: error_steps.induct)
  case (step w w' u w'')
  then show ?case using stuck_step [OF step.hyps(2) error_steps_inv [OF step.hyps(1)]] by auto
qed simp

section \<open>Properties\<close>

text \<open>
  C32: Whatever other threads do, \<open>lo_error_get_context\<close> returns to a handler the user data of the server
  the handler is called for, and no other handler runs at the same time.
\<close>

theorem handler_sees_own_context:
  assumes "quiet w0" "error_steps may_set w0 w" "f \<in> set (w_stack w t)" "fr_pc f = Handling"
  shows "lo_error_get_context w = fr_data f \<and>
    (\<not> may_set (fr_server f) \<longrightarrow> lo_error_get_context w = w_data w (fr_server f)) \<and>
    w_mutex w = Some t \<and> (\<forall>u g. u \<noteq> t \<longrightarrow> g \<in> set (w_stack w u) \<longrightarrow> fr_pc g = Locking)"
proof -
  have inv: "error_inv w" using error_steps_inv assms(1,2) quiet_inv by blast
  have data: "data_inv may_set w"
    by (rule error_steps_data [OF assms(2)]) (use assms(1) in \<open>simp add: quiet_def data_inv_def\<close>)
  have t: "w_mutex w = Some t"
    using error_invD(2) [OF inv, of t] assms(3,4) by (cases "w_mutex w = Some t") (auto simp: waiting_def)
  have glob: "w_context w = fr_data f"
    using error_invD(1) [OF inv t] assms(3,4) by (auto simp: holding_def inside_def)
  have own: "w_context w = w_data w (fr_server f)" if "\<not> may_set (fr_server f)"
    using data [unfolded data_inv_def, rule_format, OF assms(3,4) that] glob by simp
  have others: "fr_pc g = Locking" if "u \<noteq> t" "g \<in> set (w_stack w u)" for u g
    using error_invD(2) [OF inv, of u] that t by (auto simp: waiting_def)
  show ?thesis
    unfolding lo_error_get_context_def
    by (intro conjI impI allI glob own t others)
qed

text \<open>
  A call of \<open>lo_throw\<close> that holds the mutex gives it back, by steps of its own thread, when its handler
  raises no error itself.
\<close>

theorem throw_releases:
  assumes "quiet w0" "error_steps may_set w0 w" "w_mutex w = Some t" "length (w_stack w t) \<le> 1"
  shows "\<exists>w'. error_steps may_set w w' \<and> w_mutex w' = None \<and> w_stack w' t = []"
proof -
  have "error_inv w" using error_steps_inv assms(1,2) quiet_inv by blast
  then obtain f where f: "w_stack w t = [f]" "fr_pc f \<noteq> Locking"
    using error_invD(1) [OF _ assms(3)] assms(4) by (auto simp: holding_def inside_def)
  have unlock: "\<exists>w'. error_steps may_set v w' \<and> w_mutex w' = None \<and> w_stack w' t = []"
    if "w_stack v t = [g]" "fr_pc g = Unlocking" for v :: "'a world" and g
  proof -
    have "throw_next t v = Some (v\<lparr>w_mutex := None, w_stack := (w_stack v)(t := [])\<rparr>)"
      using that by (simp add: throw_next_def)
    from error_steps_run [OF this error_steps.refl] show ?thesis by (intro exI conjI) (assumption, simp_all)
  qed
  have handle: "\<exists>w'. error_steps may_set v w' \<and> w_mutex w' = None \<and> w_stack w' t = []"
    if "w_stack v t = [g]" "fr_pc g = Handling" for v :: "'a world" and g
  proof -
    let ?v = "v\<lparr>w_stack := (w_stack v)(t := [g\<lparr>fr_pc := Unlocking\<rparr>])\<rparr>"
    have "throw_next t v = Some ?v" using that by (simp add: throw_next_def)
    moreover obtain w' where "error_steps may_set ?v w'" "w_mutex w' = None" "w_stack w' t = []"
      using unlock [of ?v "g\<lparr>fr_pc := Unlocking\<rparr>"] by auto
    ultimately show ?thesis using error_steps_run by blast
  qed
  show ?thesis
  proof (cases "fr_pc f")
    case Assigning
    let ?g = "f\<lparr>fr_pc := Handling, fr_data := w_data w (fr_server f)\<rparr>"
    let ?v = "w\<lparr>w_context := w_data w (fr_server f), w_stack := (w_stack w)(t := [?g])\<rparr>"
    have "throw_next t w = Some ?v" using f Assigning by (simp add: throw_next_def Let_def)
    moreover obtain w' where "error_steps may_set ?v w'" "w_mutex w' = None" "w_stack w' t = []"
      using handle [of ?v ?g] by auto
    ultimately show ?thesis using error_steps_run by blast
  qed (use f handle [of w f] unlock [of w f] in auto)
qed

text \<open>
  When a handler calls a function of the library that raises an error for a server with a handler,
  the thread waits for the mutex that it holds itself: it never leaves this call, and from then on every
  thread that raises an error waits as well.
\<close>

theorem error_in_handler_never_returns:
  assumes "quiet w0" "error_steps may_set w0 w" "at_client (w_stack w t)" "w_stack w t \<noteq> []" "w_handler w s"
    and "error_steps may_set (throw_enter t s w) w'"
  shows "w_stack w' t = w_stack (throw_enter t s w) t \<and> throw_next t w' = None \<and>
    (\<forall>u. throw_next u w' = None)"
proof -
  have inv: "error_inv w" using error_steps_inv assms(1,2) quiet_inv by blast
  have inv1: "error_inv (throw_enter t s w)" by (rule enter_inv [OF inv assms(3)])
  have "stuck t (throw_enter t s w)"
    using at_client_inv [OF inv assms(3)] assms(4,5) by (auto simp: stuck_def throw_enter_def)
  from stuck_steps [OF assms(6) inv1 this]
  have st: "stuck t w'" "w_stack w' t = w_stack (throw_enter t s w) t" by auto
  have inv': "error_inv w'" by (rule error_steps_inv [OF assms(6) inv1])
  have "throw_next u w' = None" for u
  proof (cases "u = t")
    case True
    then show ?thesis using st(1) by (auto simp: stuck_def throw_next_def)
  next
    case False
    then have "w_stack w' u = [] \<or> waiting (w_stack w' u)"
      using error_invD(2) [OF inv', of u] st(1) by (simp add: stuck_def)
    then show ?thesis using st(1) by (auto simp: stuck_def throw_next_def waiting_def)
  qed
  then show ?thesis using st(2) by blast
qed

section \<open>Witnesses\<close>

text \<open>Two servers with the data 10 and 20; thread 5 has entered the handler of the first.\<close>

definition world0 :: "nat world" where
  "world0 = \<lparr>w_context = 0, w_mutex = None, w_handler = (\<lambda>s. True), w_data = (\<lambda>s. if s = 1 then 10 else 20),
     w_stack = (\<lambda>t. [])\<rparr>"

definition world1 :: "nat world" where
  "world1 = world0\<lparr>w_context := 10, w_mutex := Some 5,
     w_stack := (\<lambda>t. [])(5 := [\<lparr>fr_server = 1, fr_pc = Handling, fr_data = 10\<rparr>])\<rparr>"

lemma world1_reached: "quiet world0 \<and> error_steps m world0 world1"
proof -
  let ?w = "throw_enter 5 1 world0"
  have "error_steps m world0 ?w"
    by (rule error_steps.step [OF error_steps.refl, of _ 5]) (rule error_step.enter, simp add: world0_def at_client_def)
  moreover have "error_steps m ?w world1"
  proof -
    let ?f = "\<lparr>fr_server = 1, fr_pc = Assigning, fr_data = 10\<rparr>"
    let ?v = "world0\<lparr>w_mutex := Some 5, w_stack := (\<lambda>t. [])(5 := [?f])\<rparr>"
    have "throw_next 5 ?w = Some ?v" "throw_next 5 ?v = Some world1"
      by (simp_all add: throw_next_def throw_enter_def world0_def world1_def Let_def)
    then show ?thesis using error_steps_run error_steps.refl by blast
  qed
  ultimately show ?thesis using error_steps_trans by (auto simp: quiet_def world0_def)
qed

theorem handler_sees_own_context_witness:
  "lo_error_get_context world1 = 10 \<and> lo_error_get_context world1 = w_data world1 1"
  using handler_sees_own_context [of world0 "\<lambda>s. False" world1 "\<lparr>fr_server = 1, fr_pc = Handling, fr_data = 10\<rparr>" 5]
    world1_reached
  by (simp add: world1_def)

theorem throw_releases_witness:
  "\<exists>w'. error_steps (\<lambda>s. False) world1 w' \<and> w_mutex w' = None \<and> w_stack w' 5 = []"
  using throw_releases [of world0 "\<lambda>s. False" world1 5] world1_reached by (simp add: world1_def)

theorem error_in_handler_never_returns_witness:
  "throw_next 5 (throw_enter 5 2 world1) = None"
proof -
  have "at_client (w_stack world1 5)" "w_stack world1 5 \<noteq> []" "w_handler world1 2"
    by (simp_all add: world1_def world0_def at_client_def)
  then show ?thesis
    using error_in_handler_never_returns [of world0 "\<lambda>s. False" world1 5 2 "throw_enter 5 2 world1"]
      world1_reached error_steps.refl by blast
qed

end
