(* ===== verification/Reentrant.thy ===== *)
theory Reentrant
  imports Reactions
begin

text \<open>
  Handlers that change the server while it dispatches to them (\<open>dispatch_method\<close>, \<open>dispatch_queued\<close>
  and what they call, \<open>src/server.c\<close>). The loops keep pointers into the method list and the event queue
  across the call of a handler, so here the nodes of the two lists have identities: reading a node
  that was freed meanwhile is \<open>None\<close>. Theory \<open>Dispatch\<close> describes the same functions for handlers that
  leave the server alone.
\<close>

section \<open>The server with its nodes\<close>

text \<open>
  The nodes of the two lists in order, each with the number it was given when it was allocated;
  \<open>lv_next\<close> is the next such number. The lists inside \<open>lv_base\<close> are not used.
\<close>

record live =
  lv_base :: server
  lv_methods :: "(nat \<times> lo_method) list"
  lv_queued :: "(nat \<times> queued_msg) list"
  lv_next :: nat

definition settle :: "live \<Rightarrow> server" where
  "settle l = (lv_base l)\<lparr>sv_methods := map snd (lv_methods l), sv_queued := map snd (lv_queued l)\<rparr>"

text \<open>
  What a handler may do to the server: add and delete methods, hand over a bundle for the future with one
  message (\<open>lo_server_dispatch_data\<close>), and switch the coercion of arguments.
\<close>

datatype request =
    Add "byte list ptr" "byte list ptr" nat nat
  | Del "byte list ptr" "byte list ptr"
  | Post lo_timetag "byte list" lo_message int
  | Coercion int

text \<open>\<open>lo_server_del_method\<close> and the loop of \<open>queue_data\<close> on nodes.\<close>

fun live_del ::
  "(byte \<Rightarrow> int) \<Rightarrow> (nat \<times> lo_method) list \<Rightarrow> byte list ptr \<Rightarrow> byte list ptr \<Rightarrow> (nat \<times> lo_method) list option" where
  "live_del v [] path typespec = Some []"
| "live_del v ((i, m) # ms) path typespec = do {
     p \<leftarrow> del_path_match v (mt_path m) path;
     rest \<leftarrow> live_del v ms path typespec;
     Some (if p \<and> mt_typespec m = typespec then rest else (i, m) # rest)
   }"

fun live_insert :: "nat \<times> queued_msg \<Rightarrow> (nat \<times> queued_msg) list \<Rightarrow> (nat \<times> queued_msg) list" where
  "live_insert ins [] = [ins]"
| "live_insert ins (it # q) =
     (if lo_timetag_diff (q_ts (snd it)) (q_ts (snd ins)) > 0 then ins # it # q else it # live_insert ins q)"

text \<open>
  What a handler asks for. \<open>Post\<close> is what a call of \<open>lo_server_dispatch_data\<close> comes to for a bundle with one
  message, for the future, in a server that queues and has no bundle handlers (\<open>post_is_bundle\<close>); the other packets a
  handler may pass to it are not modelled here.
\<close>

definition perform :: "env \<Rightarrow> request \<Rightarrow> live \<Rightarrow> live option" where
  "perform env r l =
     (case r of
        Add path typespec h u \<Rightarrow>
          (case lo_server_add_method (e_al env) (map snd (lv_methods l)) path typespec h u of
             None \<Rightarrow> None
           | Some (NULL, _) \<Rightarrow> Some l
           | Some (Ref m, _) \<Rightarrow> Some (l\<lparr>lv_methods := lv_methods l @ [(lv_next l, m)], lv_next := Suc (lv_next l)\<rparr>))
      | Del path typespec \<Rightarrow>
          map_option (\<lambda>ms. l\<lparr>lv_methods := ms\<rparr>) (live_del (e_chr_val env) (lv_methods l) path typespec)
      | Post ts path msg sock \<Rightarrow>
          Some (l\<lparr>lv_queued := live_insert (lv_next l, \<lparr>q_ts = ts, q_path = path, q_msg = msg, q_sock = sock\<rparr>) (lv_queued l),
                 lv_next := Suc (lv_next l)\<rparr>)
      | Coercion enable \<Rightarrow> Some (l\<lparr>lv_base := snd (lo_server_enable_coercion (lv_base l) enable)\<rparr>))"

fun perform_all :: "env \<Rightarrow> request list \<Rightarrow> live \<Rightarrow> live option" where
  "perform_all env [] l = Some l"
| "perform_all env (r # rs) l = do { l' \<leftarrow> perform env r l; perform_all env rs l' }"

section \<open>Dispatching\<close>

text \<open>\<open>it->next\<close>: \<open>None\<close> when the node \<open>i\<close> was freed, \<open>Some None\<close> for NULL. \<open>first_node\<close>: \<open>s->first\<close>.\<close>

definition next_of :: "(nat \<times> 'a) list \<Rightarrow> nat \<Rightarrow> nat option option" where
  "next_of ms i =
     (case dropWhile (\<lambda>x. fst x \<noteq> i) ms of
        [] \<Rightarrow> None
      | [_] \<Rightarrow> Some None
      | _ # (j, _) # _ \<Rightarrow> Some (Some j))"

definition first_node :: "(nat \<times> 'a) list \<Rightarrow> nat option" where
  "first_node ms = (case ms of [] \<Rightarrow> None | (i, _) # _ \<Rightarrow> Some i)"

text \<open>
  The matching method: as \<open>dispatch_to\<close>, and when that calls the handler, \<open>act\<close> says what the handler
  does to the server, given all that happened up to the call.
\<close>

definition live_dispatch_to ::
  "env \<Rightarrow> (event list \<Rightarrow> request list) \<Rightarrow> lo_method \<Rightarrow> byte list \<Rightarrow> lo_message \<Rightarrow> byte list \<Rightarrow> int \<Rightarrow> live \<Rightarrow>
   (int \<times> live) option" where
  "live_dispatch_to env act m path msg types ret l = do {
     (ret', s') \<leftarrow> dispatch_to env m path msg types ret (lv_base l);
     l' \<leftarrow> (if sv_log s' = sv_log (lv_base l) then Some (l\<lparr>lv_base := s'\<rparr>)
            else perform_all env (act (sv_log s')) (l\<lparr>lv_base := s'\<rparr>));
     Some (ret', l')
   }"

text \<open>The loop over the methods, at the node \<open>it\<close>. It need not end: a handler may keep adding methods.\<close>

partial_function (option) live_loop ::
  "env \<Rightarrow> (event list \<Rightarrow> request list) \<Rightarrow> byte list \<Rightarrow> byte list \<Rightarrow> lo_message \<Rightarrow> byte list \<Rightarrow> nat option \<Rightarrow> int \<Rightarrow>
   live \<Rightarrow> (int \<times> live) option" where
  "live_loop env act path mem msg types it ret l =
     (case it of
        None \<Rightarrow> Some (ret, l)
      | Some i \<Rightarrow>
          (case map_of (lv_methods l) i of
             None \<Rightarrow> None
           | Some m \<Rightarrow>
               (case path_matches (e_chr_val env) (mt_path m) path mem of
                  None \<Rightarrow> None
                | Some hit \<Rightarrow>
                    (case (if hit then live_dispatch_to env act m path msg types ret l else Some (ret, l)) of
                       None \<Rightarrow> None
                     | Some (ret', l') \<Rightarrow>
                         if hit \<and> ret' = 0 \<and> \<not> is_pattern path then Some (ret', l')
                         else (case next_of (lv_methods l') i of
                                 None \<Rightarrow> None
                               | Some it' \<Rightarrow> live_loop env act path mem msg types it' ret' l')))))"

definition live_dispatch_method ::
  "env \<Rightarrow> (event list \<Rightarrow> request list) \<Rightarrow> live \<Rightarrow> byte list \<Rightarrow> lo_message \<Rightarrow> int \<Rightarrow> live option" where
  "live_dispatch_method env act l mem msg sock = do {
     path \<leftarrow> cstr mem;
     types \<leftarrow> cstr (lo_message_get_types msg);
     let msg1 = msg\<lparr>m_source := (if sv_protocol (lv_base l) = LO_TCP \<and> sock \<ge> 0 then Ref (nat sock) else NULL)\<rparr>;
     (ret, l1) \<leftarrow> live_loop env act path mem msg1 types (first_node (lv_methods l)) 1 l;
     if ret = 1 \<and> sv_protocol (lv_base l) = LO_UDP \<and> path \<noteq> [] \<and> last path = CHR ''/'' then do {
       reply \<leftarrow> enumeration_reply env path (map snd (lv_methods l1)) msg1 types;
       Some (l1\<lparr>lv_base := emit (Ev_reply reply) (lv_base l1)\<rparr>)
     }
     else Some l1
   }"

text \<open>
  The \<open>do\<close> loop of \<open>dispatch_queued\<close>. The successor \<open>tailhead\<close> is read before the handlers run; after
  them the node that is then first in the queue is freed, and the queue is what follows from \<open>tailhead\<close>.
\<close>

partial_function (option) live_due ::
  "env \<Rightarrow> (event list \<Rightarrow> request list) \<Rightarrow> lo_timetag \<Rightarrow> bool \<Rightarrow> live \<Rightarrow> live option" where
  "live_due env act disp_time dispatch_all l =
     (case lv_queued l of
        [] \<Rightarrow> None
      | (i, it) # tail \<Rightarrow>
          (case live_dispatch_method env act l (q_path it @ [NUL]) (q_msg it) (q_sock it) of
             None \<Rightarrow> None
           | Some l1 \<Rightarrow>
               (case first_node tail of
                  None \<Rightarrow> Some (l1\<lparr>lv_queued := []\<rparr>)
                | Some j \<Rightarrow>
                    (case dropWhile (\<lambda>x. fst x \<noteq> j) (lv_queued l1) of
                       [] \<Rightarrow> None
                     | head # q \<Rightarrow>
                         if lo_timetag_diff (q_ts (snd head)) disp_time < FLT_EPSILON \<or> dispatch_all
                         then live_due env act disp_time dispatch_all (l1\<lparr>lv_queued := head # q\<rparr>)
                         else Some (l1\<lparr>lv_queued := head # q\<rparr>)))))"

definition live_dispatch_queued ::
  "env \<Rightarrow> (event list \<Rightarrow> request list) \<Rightarrow> live \<Rightarrow> bool \<Rightarrow> (int \<times> live) option" where
  "live_dispatch_queued env act l dispatch_all =
     (case lv_queued l of
        [] \<Rightarrow> Some (1, l\<lparr>lv_base := lo_throw (lv_base l) LO_INT_ERR (Some ''timeout'')\<rparr>)
      | (_, head) # _ \<Rightarrow> map_option (Pair 0) (live_due env act (q_ts head) dispatch_all l))"

section \<open>The nodes\<close>

lemma live_del_table:
  "map_option (map snd) (live_del v ms path typespec) = lo_server_del_method v (map snd ms) path typespec"
proof (induction ms)
  case (Cons x ms)
  obtain i m where x: "x = (i, m)" by (cases x)
  show ?case
    using Cons.IH [symmetric] unfolding x
    by (cases "del_path_match v (mt_path m) path"; cases "live_del v ms path typespec") simp_all
qed simp

lemma live_insert_queue: "map snd (live_insert ins q) = queue_insert (snd ins) (map snd q)"
  by (induction q) simp_all

lemma live_insert_set: "set (live_insert ins q) = insert ins (set q)"
  by (induction q) auto

lemma find_node:
  assumes "distinct (map fst (pre @ (i, x) # suf))"
  shows "map_of (pre @ (i, x) # suf) i = Some x" "next_of (pre @ (i, x) # suf) i = Some (first_node suf)"
proof -
  have d: "dropWhile (\<lambda>y. fst y \<noteq> i) (pre @ (i, x) # suf) = (i, x) # suf"
    using assms by (induction pre) auto
  show "next_of (pre @ (i, x) # suf) i = Some (first_node suf)"
    unfolding next_of_def d by (cases suf) (auto simp: first_node_def)
  show "map_of (pre @ (i, x) # suf) i = Some x"
    using assms by (induction pre) auto
qed

lemma dispatch_to_cases:
  "dispatch_to env m path msg types ret s = Some (r, s') \<Longrightarrow>
   s' = s \<and> r = ret \<or> (\<exists>c. s' = emit (Ev_call c) s \<and> r = e_handler env (sv_log s) c)"
  by (auto simp: dispatch_to_def Let_def call_handler_def split: ptr.splits if_splits bind_splits)

lemma dispatch_to_fields:
  "dispatch_to env m path msg types ret (s\<lparr>sv_methods := a, sv_queued := b\<rparr>) =
   map_option (\<lambda>(r, s'). (r, s'\<lparr>sv_methods := a, sv_queued := b\<rparr>)) (dispatch_to env m path msg types ret s)"
  by (simp add: dispatch_to_def Let_def call_handler_def emit_def lo_server_should_coerce_args_def
    split: ptr.splits bind_splits)

lemma dispatch_loop_fields:
  "dispatch_loop env ms path mem msg types ret (s\<lparr>sv_methods := a, sv_queued := b\<rparr>) =
   map_option (\<lambda>(r, s'). (r, s'\<lparr>sv_methods := a, sv_queued := b\<rparr>)) (dispatch_loop env ms path mem msg types ret s)"
proof (induction ms arbitrary: ret s)
  case (Cons m ms)
  then show ?case
    by (auto simp: dispatch_to_fields split: bind_splits)
qed simp

section \<open>Handlers that only hand over events\<close>

fun posted :: "request list \<Rightarrow> queued_msg list" where
  "posted [] = []"
| "posted (Post ts path msg sock # rs) = \<lparr>q_ts = ts, q_path = path, q_msg = msg, q_sock = sock\<rparr> # posted rs"
| "posted (r # rs) = posted rs"

definition only_posts :: "(event list \<Rightarrow> request list) \<Rightarrow> bool" where
  "only_posts act \<longleftrightarrow> (\<forall>lg. \<forall>r \<in> set (act lg). \<exists>ts path msg sock. r = Post ts path msg sock)"

text \<open>The server differs from \<open>l\<close> by what is posted: more events in the queue; nothing without requests.\<close>

definition grown :: "(event list \<Rightarrow> request list) \<Rightarrow> live \<Rightarrow> server \<Rightarrow> live \<Rightarrow> bool" where
  "grown act l s l' \<longleftrightarrow>
     (\<exists>q n ps. l' = l\<lparr>lv_base := s, lv_queued := q, lv_next := n\<rparr> \<and>
        map snd q = fold queue_insert ps (map snd (lv_queued l)) \<and>
        ((\<forall>lg. act lg = []) \<longrightarrow> q = lv_queued l \<and> n = lv_next l \<and> ps = []))"

lemma grown_refl: "grown act l s (l\<lparr>lv_base := s\<rparr>)"
  unfolding grown_def by (rule exI [of _ "lv_queued l"], rule exI [of _ "lv_next l"], rule exI [of _ "[]"]) simp

lemma grown_trans: "grown act l s l' \<Longrightarrow> grown act l' s' l'' \<Longrightarrow> grown act l s' l''"
  unfolding grown_def by (elim exE) (rule exI, rule exI, rule_tac x = "ps @ psa" in exI, auto)

lemma grown_methods: "grown act l s l' \<Longrightarrow> lv_methods l' = lv_methods l \<and> lv_base l' = s"
  by (auto simp: grown_def)

lemma grown_queue: "grown act l s l' \<Longrightarrow> \<exists>ps. map snd (lv_queued l') = fold queue_insert ps (map snd (lv_queued l))"
proof -
  assume "grown act l s l'"
  then obtain q n ps where "l' = l\<lparr>lv_base := s, lv_queued := q, lv_next := n\<rparr>"
      "map snd q = fold queue_insert ps (map snd (lv_queued l))"
    unfolding grown_def by blast
  then show ?thesis by auto
qed

lemma perform_all_posts:
  "\<forall>r \<in> set rs. \<exists>ts path msg sock. r = Post ts path msg sock \<Longrightarrow>
   \<exists>q n. perform_all env rs l = Some (l\<lparr>lv_queued := q, lv_next := n\<rparr>) \<and>
     map snd q = fold queue_insert (posted rs) (map snd (lv_queued l))"
proof (induction rs arbitrary: l)
  case Nil
  show ?case by (rule exI [of _ "lv_queued l"], rule exI [of _ "lv_next l"]) simp
next
  case (Cons r rs)
  then obtain ts path msg sock where r: "r = Post ts path msg sock" by auto
  let ?l = "l\<lparr>lv_queued := live_insert (lv_next l, \<lparr>q_ts = ts, q_path = path, q_msg = msg, q_sock = sock\<rparr>) (lv_queued l),
     lv_next := Suc (lv_next l)\<rparr>"
  obtain q n where "perform_all env rs ?l = Some (?l\<lparr>lv_queued := q, lv_next := n\<rparr>)"
      "map snd q = fold queue_insert (posted rs) (map snd (lv_queued ?l))"
    using Cons.IH [of ?l] Cons.prems by auto
  then show ?case by (auto simp: r perform_def live_insert_queue)
qed

lemma live_dispatch_to_posts:
  assumes "only_posts act"
  shows "case dispatch_to env m path msg types ret (lv_base l) of
      None \<Rightarrow> live_dispatch_to env act m path msg types ret l = None
    | Some (r, s) \<Rightarrow> \<exists>l'. live_dispatch_to env act m path msg types ret l = Some (r, l') \<and> grown act l s l'"
proof (cases "dispatch_to env m path msg types ret (lv_base l)")
  case (Some a)
  obtain r s where a: "a = (r, s)" by (cases a)
  show ?thesis
  proof (cases "sv_log s = sv_log (lv_base l)")
    case True
    then show ?thesis using Some a grown_refl by (auto simp: live_dispatch_to_def)
  next
    case False
    obtain q n where q: "perform_all env (act (sv_log s)) (l\<lparr>lv_base := s\<rparr>) = Some (l\<lparr>lv_base := s, lv_queued := q, lv_next := n\<rparr>)"
        "map snd q = fold queue_insert (posted (act (sv_log s))) (map snd (lv_queued l))"
      using perform_all_posts [of "act (sv_log s)" env "l\<lparr>lv_base := s\<rparr>"] assms by (auto simp: only_posts_def)
    have "grown act l s (l\<lparr>lv_base := s, lv_queued := q, lv_next := n\<rparr>)"
    proof (cases "\<forall>lg. act lg = []")
      case True
      then have "l\<lparr>lv_base := s, lv_queued := q, lv_next := n\<rparr> = l\<lparr>lv_base := s\<rparr>" using q(1) by simp
      then show ?thesis using grown_refl by simp
    next
      case False
      then show ?thesis using q(2) unfolding grown_def by blast
    qed
    then show ?thesis using Some a False q(1) by (simp add: live_dispatch_to_def)
  qed
qed (simp add: live_dispatch_to_def)

lemma live_loop_posts:
  assumes "only_posts act"
  shows "distinct (map fst (pre @ suf)) \<Longrightarrow> lv_methods l = pre @ suf \<Longrightarrow>
    (case dispatch_loop env (map snd suf) path mem msg types ret (lv_base l) of
      None \<Rightarrow> live_loop env act path mem msg types (first_node suf) ret l = None
    | Some (r, s) \<Rightarrow> \<exists>l'. live_loop env act path mem msg types (first_node suf) ret l = Some (r, l') \<and> grown act l s l')"
proof (induction suf arbitrary: pre ret l)
  case Nil
  show ?case using grown_refl [of act l "lv_base l"] by (subst live_loop.simps) (simp add: first_node_def)
next
  case (Cons x suf)
  obtain i m where x: "x = (i, m)" by (cases x)
  note node = find_node [of pre i m suf] Cons.prems [unfolded x]
  have IH: "case dispatch_loop env (map snd suf) path mem msg types r (lv_base l') of
      None \<Rightarrow> live_loop env act path mem msg types (first_node suf) r l' = None
    | Some (r', s) \<Rightarrow> \<exists>l''. live_loop env act path mem msg types (first_node suf) r l' = Some (r', l'') \<and> grown act l' s l''"
    if "lv_methods l' = lv_methods l" for r l'
    using Cons.IH [of "pre @ [(i, m)]" l' r] Cons.prems that by (simp add: x)
  have unfold: "live_loop env act path mem msg types (first_node (x # suf)) ret l =
      (case path_matches (e_chr_val env) (mt_path m) path mem of
         None \<Rightarrow> None
       | Some hit \<Rightarrow>
           (case (if hit then live_dispatch_to env act m path msg types ret l else Some (ret, l)) of
              None \<Rightarrow> None
            | Some (ret', l') \<Rightarrow>
                if hit \<and> ret' = 0 \<and> \<not> is_pattern path then Some (ret', l')
                else (case next_of (lv_methods l') i of
                        None \<Rightarrow> None
                      | Some it' \<Rightarrow> live_loop env act path mem msg types it' ret' l')))"
    using node by (subst live_loop.simps) (simp add: first_node_def x)
  show ?case
  proof (cases "path_matches (e_chr_val env) (mt_path m) path mem")
    case None
    then show ?thesis unfolding unfold by (simp add: x)
  next
    case (Some hit)
    show ?thesis
    proof (cases hit)
      case False
      have skip: "live_loop env act path mem msg types (first_node (x # suf)) ret l =
          live_loop env act path mem msg types (first_node suf) ret l"
        unfolding unfold using Some False node by simp
      have skip': "dispatch_loop env (map snd (x # suf)) path mem msg types ret (lv_base l) =
          dispatch_loop env (map snd suf) path mem msg types ret (lv_base l)"
        using Some False by (simp add: x)
      show ?thesis unfolding skip skip' by (rule IH) simp
    next
      case True
      note to = live_dispatch_to_posts [OF assms, of env m path msg types ret l]
      show ?thesis
      proof (cases "dispatch_to env m path msg types ret (lv_base l)")
        case None
        then show ?thesis using to Some True unfolding unfold by (simp add: x)
      next
        case (Some a)
        obtain r s where a: "a = (r, s)" by (cases a)
        obtain l' where l': "live_dispatch_to env act m path msg types ret l = Some (r, l')" "grown act l s l'"
          using to Some a by auto
        have m: "lv_methods l' = lv_methods l" "lv_base l' = s" using grown_methods [OF l'(2)] by simp_all
        show ?thesis
        proof (cases "r = 0 \<and> \<not> is_pattern path")
          case True
          then show ?thesis
            using Some a l' \<open>hit\<close> \<open>path_matches _ _ _ _ = Some hit\<close> unfolding unfold by (simp add: x)
        next
          case False
          have "live_loop env act path mem msg types (first_node (x # suf)) ret l =
              live_loop env act path mem msg types (first_node suf) r l'"
            unfolding unfold using l'(1) False \<open>hit\<close> \<open>path_matches _ _ _ _ = Some hit\<close> m node by auto
          moreover have "dispatch_loop env (map snd (x # suf)) path mem msg types ret (lv_base l) =
              dispatch_loop env (map snd suf) path mem msg types r s"
            using Some a False \<open>hit\<close> \<open>path_matches _ _ _ _ = Some hit\<close> by (auto simp: x)
          ultimately show ?thesis
            using IH [OF m(1), of r] grown_trans [OF l'(2)] unfolding m(2)
            by (cases "dispatch_loop env (map snd suf) path mem msg types r s") auto
        qed
      qed
    qed
  qed
qed

text \<open>What \<open>dispatch_method\<close> makes of the settled server is what the live one becomes, less the posts.\<close>

definition ids_ok :: "live \<Rightarrow> bool" where
  "ids_ok l \<longleftrightarrow> distinct (map fst (lv_methods l)) \<and> distinct (map fst (lv_queued l))"

lemma settle_base: "settle l = (lv_base l)\<lparr>sv_methods := map snd (lv_methods l), sv_queued := map snd (lv_queued l)\<rparr>"
  by (simp add: settle_def)

lemma live_method_posts:
  assumes "only_posts act" "ids_ok l"
  shows "case dispatch_method env (settle l) mem msg sock of
      None \<Rightarrow> live_dispatch_method env act l mem msg sock = None
    | Some s \<Rightarrow> \<exists>l'. live_dispatch_method env act l mem msg sock = Some l' \<and> grown act l (lv_base l') l' \<and>
        s = (settle l')\<lparr>sv_queued := map snd (lv_queued l)\<rparr>"
proof -
  let ?a = "map snd (lv_methods l)" and ?b = "map snd (lv_queued l)"
  let ?f = "\<lambda>s :: server. s\<lparr>sv_methods := ?a, sv_queued := ?b\<rparr>"
  have f: "sv_protocol (settle l) = sv_protocol (lv_base l)" "sv_methods (settle l) = ?a"
    by (simp_all add: settle_def)
  show ?thesis
  proof (cases "cstr mem")
    case (Some path)
    show ?thesis
    proof (cases "cstr (lo_message_get_types msg)")
      case types: (Some types)
      define msg1 where
        "msg1 = msg\<lparr>m_source := (if sv_protocol (lv_base l) = LO_TCP \<and> sock \<ge> 0 then Ref (nat sock) else NULL)\<rparr>"
      note loop = live_loop_posts [OF assms(1), of "[]" "lv_methods l" l env path mem msg1 types 1]
      have fields: "dispatch_loop env ?a path mem msg1 types 1 (settle l) =
          map_option (\<lambda>(r, s). (r, ?f s)) (dispatch_loop env ?a path mem msg1 types 1 (lv_base l))"
        unfolding settle_base by (rule dispatch_loop_fields)
      show ?thesis
      proof (cases "dispatch_loop env ?a path mem msg1 types 1 (lv_base l)")
        case None
        then have "live_loop env act path mem msg1 types (first_node (lv_methods l)) 1 l = None"
          using loop assms(2) by (simp add: ids_ok_def)
        then show ?thesis
          using None Some types fields
          by (simp add: dispatch_method_def live_dispatch_method_def f msg1_def [symmetric] Let_def)
      next
        case run: (Some a)
        obtain r s where a: "a = (r, s)" by (cases a)
        obtain l' where l': "live_loop env act path mem msg1 types (first_node (lv_methods l)) 1 l = Some (r, l')" "grown act l s l'"
          using loop assms(2) run a by (auto simp: ids_ok_def)
        have m: "lv_methods l' = lv_methods l" "lv_base l' = s" using grown_methods [OF l'(2)] by simp_all
        have d: "dispatch_method env (settle l) mem msg sock =
            (if r = 1 \<and> sv_protocol (lv_base l) = LO_UDP \<and> path \<noteq> [] \<and> last path = CHR ''/''
             then map_option (\<lambda>reply. ?f (emit (Ev_reply reply) s)) (enumeration_reply env path ?a msg1 types)
             else Some (?f s))"
          using Some types fields run a
          by (cases "enumeration_reply env path ?a msg1 types")
            (simp_all add: dispatch_method_def f msg1_def [symmetric] Let_def emit_def)
        have v: "live_dispatch_method env act l mem msg sock =
            (if r = 1 \<and> sv_protocol (lv_base l) = LO_UDP \<and> path \<noteq> [] \<and> last path = CHR ''/''
             then map_option (\<lambda>reply. l'\<lparr>lv_base := emit (Ev_reply reply) s\<rparr>) (enumeration_reply env path ?a msg1 types)
             else Some l')"
          using Some types l'(1) m
          by (cases "enumeration_reply env path ?a msg1 types")
            (simp_all add: live_dispatch_method_def msg1_def [symmetric] Let_def)
        have g: "grown act l s' (l'\<lparr>lv_base := s'\<rparr>)" for s'
          using grown_trans [OF l'(2) grown_refl [of act l' s']] .
        show ?thesis
          unfolding d v using g l'(2) m
          by (cases "enumeration_reply env path ?a msg1 types") (auto simp: settle_def)
      qed
    next
      case None
      then show ?thesis using Some by (simp add: dispatch_method_def live_dispatch_method_def)
    qed
  qed (simp add: dispatch_method_def live_dispatch_method_def)
qed

section \<open>Handlers that leave the server alone\<close>

definition no_requests :: "event list \<Rightarrow> request list" where
  "no_requests = (\<lambda>_. [])"

lemma grown_no_requests: "grown no_requests l s l' \<Longrightarrow> l' = l\<lparr>lv_base := s\<rparr>"
  by (auto simp: grown_def no_requests_def)

lemma live_method_static:
  assumes "ids_ok l"
  shows "case live_dispatch_method env no_requests l mem msg sock of
      None \<Rightarrow> dispatch_method env (settle l) mem msg sock = None
    | Some l1 \<Rightarrow> (\<exists>b. l1 = l\<lparr>lv_base := b\<rparr>) \<and> dispatch_method env (settle l) mem msg sock = Some (settle l1)"
proof -
  have "only_posts no_requests" by (simp add: only_posts_def no_requests_def)
  note posts = live_method_posts [OF this assms, of env mem msg sock]
  show ?thesis
  proof (cases "dispatch_method env (settle l) mem msg sock")
    case None
    then show ?thesis using posts by simp
  next
    case (Some s)
    then obtain l' where l': "live_dispatch_method env no_requests l mem msg sock = Some l'"
        "grown no_requests l (lv_base l') l'" "s = (settle l')\<lparr>sv_queued := map snd (lv_queued l)\<rparr>"
      using posts by auto
    have b: "l' = l\<lparr>lv_base := lv_base l'\<rparr>" using grown_no_requests [OF l'(2)] .
    then have "lv_queued l' = lv_queued l" by (metis live.select_convs(3) live.surjective live.update_convs(1))
    then have "s = settle l'" using l'(3) by (simp add: settle_def)
    then show ?thesis using Some l'(1) b by auto
  qed
qed

lemma live_due_static:
  "ids_ok l \<Longrightarrow> lv_queued l = q \<Longrightarrow> q \<noteq> [] \<Longrightarrow>
   map_option settle (live_due env no_requests disp_time dispatch_all l) =
   dispatch_due env disp_time dispatch_all (map snd q) (settle l)"
proof (induction q arbitrary: l)
  case (Cons x tail)
  obtain i it where x: "x = (i, it)" by (cases x)
  let ?d = "live_dispatch_method env no_requests l (q_path it @ [NUL]) (q_msg it) (q_sock it)"
  note static = live_method_static [OF Cons.prems(1), of env "q_path it @ [NUL]" "q_msg it" "q_sock it"]
  show ?case
  proof (cases ?d)
    case None
    then show ?thesis using static Cons.prems(2) by (subst live_due.simps) (simp add: x)
  next
    case (Some l1)
    then obtain b where b: "l1 = l\<lparr>lv_base := b\<rparr>"
        "dispatch_method env (settle l) (q_path it @ [NUL]) (q_msg it) (q_sock it) = Some (settle l1)"
      using static by auto
    show ?thesis
    proof (cases tail)
      case Nil
      then show ?thesis
        using Some b Cons.prems(2) by (subst live_due.simps) (simp add: x first_node_def settle_def)
    next
      case tail: (Cons y tail')
      obtain j e where y: "y = (j, e)" by (cases y)
      let ?l = "l1\<lparr>lv_queued := tail\<rparr>"
      have "i \<noteq> j" using Cons.prems(1,2) by (simp add: ids_ok_def x y tail)
      then have drop: "dropWhile (\<lambda>x. fst x \<noteq> j) (lv_queued l1) = y # tail'"
        using Cons.prems(2) b(1) by (simp add: x y tail)
      have "ids_ok ?l" using Cons.prems(1,2) b(1) by (simp add: ids_ok_def x)
      then have IH: "map_option settle (live_due env no_requests disp_time dispatch_all ?l) =
          dispatch_due env disp_time dispatch_all (map snd tail) (settle ?l)"
        by (rule Cons.IH) (simp_all add: tail)
      have s: "settle ?l = (settle l1)\<lparr>sv_queued := map snd tail\<rparr>" by (simp add: settle_def)
      show ?thesis
        using Some b(2) Cons.prems(2) drop IH unfolding s
        by (subst live_due.simps) (simp add: x y tail first_node_def settle_def)
    qed
  qed
qed simp

section \<open>A handler that deletes its own method\<close>

lemma live_del_filter:
  assumes "case path of NULL \<Rightarrow> True | Ref p \<Rightarrow> \<not> is_pattern p"
  shows "live_del v ms path typespec = Some (filter (\<lambda>x. \<not> (mt_path (snd x) = path \<and> mt_typespec (snd x) = typespec)) ms)"
proof -
  have hit: "del_path_match v q path = Some (q = path)" for q
    using assms by (auto simp: del_path_match_def split: ptr.splits)
  show ?thesis
  proof (induction ms)
    case (Cons x ms)
    then show ?case by (cases x) (simp add: hit)
  qed simp
qed

text \<open>The call of the handler of a method that takes any types.\<close>

definition handler_call :: "lo_method \<Rightarrow> byte list \<Rightarrow> lo_message \<Rightarrow> byte list \<Rightarrow> call" where
  "handler_call m path msg types =
     \<lparr>c_handler = mt_handler m, c_user_data = mt_user_data m,
      c_path = (case mt_path m of NULL \<Rightarrow> path | Ref q \<Rightarrow> q), c_types = types, c_data = m_data msg,
      c_argv = m_argv msg, c_argc = length types, c_ts = m_ts msg, c_source = m_source msg\<rparr>"

lemma live_dispatch_to_any_types:
  assumes "mt_typespec m = NULL"
  shows "live_dispatch_to env act m path msg types ret l =
    (let c = handler_call m path msg types; b = emit (Ev_call c) (lv_base l)
     in map_option (Pair (e_handler env (sv_log (lv_base l)) c)) (perform_all env (act (sv_log b)) (l\<lparr>lv_base := b\<rparr>)))"
  using assms
  by (simp add: live_dispatch_to_def dispatch_to_def Let_def call_handler_def emit_def handler_call_def
      split: bind_splits option.splits)

lemma live_loop_deleted:
  assumes "ids_ok l" "lv_methods l = (i, m) # ms" "mt_typespec m = NULL"
    and "case mt_path m of NULL \<Rightarrow> True | Ref p \<Rightarrow> \<not> is_pattern p"
    and "path_matches (e_chr_val env) (mt_path m) path mem = Some True"
    and "r = e_handler env (sv_log (lv_base l)) (handler_call m path msg types)"
  shows "live_loop env (\<lambda>_. [Del (mt_path m) NULL]) path mem msg types (Some i) ret l =
    (if r = 0 \<and> \<not> is_pattern path
     then Some (0, l\<lparr>lv_base := emit (Ev_call (handler_call m path msg types)) (lv_base l),
       lv_methods := filter (\<lambda>x. \<not> (mt_path (snd x) = mt_path m \<and> mt_typespec (snd x) = NULL)) ms\<rparr>)
     else None)"
proof -
  let ?ms = "filter (\<lambda>x. \<not> (mt_path (snd x) = mt_path m \<and> mt_typespec (snd x) = NULL)) ms"
  let ?l = "l\<lparr>lv_base := emit (Ev_call (handler_call m path msg types)) (lv_base l), lv_methods := ?ms\<rparr>"
  have "live_dispatch_to env (\<lambda>_. [Del (mt_path m) NULL]) m path msg types ret l = Some (r, ?l)"
    using assms(2,3) live_del_filter [OF assms(4), of "e_chr_val env" "lv_methods l" NULL]
    by (simp add: live_dispatch_to_any_types [OF assms(3)] perform_def Let_def assms(6))
  moreover have "next_of ?ms i = None"
  proof -
    have "fst x \<noteq> i" if "x \<in> set ?ms" for x using assms(1,2) that by (auto simp: ids_ok_def)
    then have "dropWhile (\<lambda>x. fst x \<noteq> i) ?ms = []" unfolding dropWhile_eq_Nil_conv by blast
    then show ?thesis unfolding next_of_def by (simp only: list.case)
  qed
  ultimately show ?thesis using assms(2,5) by (subst live_loop.simps) simp
qed

section \<open>A handler that keeps adding methods\<close>

definition all_generic :: "live \<Rightarrow> bool" where
  "all_generic l \<longleftrightarrow> distinct (map fst (lv_methods l)) \<and>
     (\<forall>x \<in> set (lv_methods l). fst x < lv_next l \<and> mt_path (snd x) = NULL \<and> mt_typespec (snd x) = NULL)"

lemma next_of_extended:
  "i \<in> fst ` set ms \<Longrightarrow> distinct (map fst (ms @ [y])) \<Longrightarrow>
   \<exists>j. next_of (ms @ [y]) i = Some (Some j) \<and> j \<in> fst ` set (ms @ [y])"
proof -
  assume i: "i \<in> fst ` set ms" and d: "distinct (map fst (ms @ [y]))"
  obtain x where x: "x \<in> set ms" "fst x = i" using i by auto
  then obtain pre suf where ms: "ms = pre @ x # suf" using split_list by fast
  obtain m where m: "x = (i, m)" using x(2) by (cases x) simp
  have n: "next_of (pre @ (i, m) # (suf @ [y])) i = Some (first_node (suf @ [y]))"
    by (rule find_node(2)) (use d in \<open>simp add: ms m\<close>)
  obtain j e where z: "suf @ [y] = (j, e) # tl (suf @ [y])" by (cases suf; cases y) auto
  have "first_node (suf @ [y]) = Some j" by (subst z) (simp add: first_node_def)
  moreover have "(j, e) \<in> set (suf @ [y])" by (subst z) simp
  then have "j \<in> fst ` set (ms @ [y])" unfolding ms by force
  ultimately show ?thesis using n by (simp add: ms m)
qed

definition adding :: "nat \<Rightarrow> nat \<Rightarrow> env \<Rightarrow> (event list \<Rightarrow> request list) \<Rightarrow> nat option \<Rightarrow> live \<Rightarrow> bool" where
  "adding h u env act it l \<longleftrightarrow> act = (\<lambda>_. [Add NULL NULL h u]) \<and> (\<forall>lg c. e_handler env lg c \<noteq> 0) \<and>
     e_al env At_struct 0 \<noteq> None \<and> all_generic l \<and> (\<exists>i. it = Some i \<and> i \<in> fst ` set (lv_methods l))"

lemma live_loop_adding:
  "live_loop env act path mem msg types it ret l = Some y \<Longrightarrow> \<not> adding h u env act it l"
proof (induction rule: live_loop.raw_induct [rotated 1, consumes 1, case_names loop])
  case (loop f env act path mem msg types it ret l y)
  show ?case
  proof
    assume "adding h u env act it l"
    then obtain i where a: "act = (\<lambda>_. [Add NULL NULL h u])" "\<And>lg c. e_handler env lg c \<noteq> 0"
        "e_al env At_struct 0 \<noteq> None" "all_generic l" and it: "it = Some i" "i \<in> fst ` set (lv_methods l)"
      by (auto simp: adding_def)
    obtain m where m: "(i, m) \<in> set (lv_methods l)" using it(2) by auto
    then have map: "map_of (lv_methods l) i = Some m" using a(4) by (simp add: all_generic_def)
    have g: "mt_path m = NULL" "mt_typespec m = NULL" using m a(4) by (auto simp: all_generic_def)
    define c where "c = handler_call m path msg types"
    define new where "new = \<lparr>mt_path = NULL, mt_typespec = NULL, mt_handler = h, mt_user_data = u\<rparr>"
    define l' where "l' = l\<lparr>lv_base := emit (Ev_call c) (lv_base l), lv_methods := lv_methods l @ [(lv_next l, new)],
      lv_next := Suc (lv_next l)\<rparr>"
    have to: "live_dispatch_to env act m path msg types ret l = Some (e_handler env (sv_log (lv_base l)) c, l')"
      using a(1,3)
      by (auto simp: live_dispatch_to_any_types [OF g(2)] Let_def perform_def lo_server_add_method_def strdup_def
        c_def l'_def new_def)
    have ok: "all_generic l'" using a(4) by (auto simp: all_generic_def l'_def new_def)
    have "distinct (map fst (lv_methods l @ [(lv_next l, new)]))" using a(4) by (auto simp: all_generic_def)
    from next_of_extended [OF it(2) this] obtain j
      where j: "next_of (lv_methods l') i = Some (Some j)" "j \<in> fst ` set (lv_methods l')" by (auto simp: l'_def)
    have "path_matches (e_chr_val env) (mt_path m) path mem = Some True" by (simp add: path_matches_def g(1))
    then have "f env act path mem msg types (Some j) (e_handler env (sv_log (lv_base l)) c) l' = Some y"
      using loop.hyps a(2) map to j(1) it(1) by simp
    then have "\<not> adding h u env act (Some j) l'" by (rule loop.IH)
    then show False using a ok j(2) by (simp add: adding_def)
  qed
qed

section \<open>An event handed over by a handler of the queue\<close>

lemma live_due_last:
  assumes "lv_queued l = [(k, it)]"
    and "live_dispatch_method env act l (q_path it @ [NUL]) (q_msg it) (q_sock it) = Some l1"
  shows "live_dispatch_queued env act l dispatch_all = Some (0, l1\<lparr>lv_queued := []\<rparr>)"
  using assms by (simp add: live_dispatch_queued_def live_due.simps first_node_def)

section \<open>Handing over an event\<close>

text \<open>\<open>Post\<close> is the effect of the packet it stands for.\<close>

lemma post_is_bundle:
  assumes "packet_ok (PBundle tt (messages_of [(path, xs)]))" "methods_ok (settle l)" "alloc_total (e_al env)"
    and "sv_enqueue (settle l)" "\<not> sv_bundle_start (settle l)" "\<not> sv_bundle_end (settle l)"
    and "e_now env (sv_log (settle l)) < tt" "tt \<noteq> LO_TT_IMMEDIATE"
  shows "map_option settle (perform env (Post tt path (q_msg (entry env (- 1) tt path xs)) (- 1)) l) =
    map_option snd (lo_server_dispatch_data env (settle l) (wire_packet (PBundle tt (messages_of [(path, xs)])))
      (int (length (wire_packet (PBundle tt (messages_of [(path, xs)]))))))"
proof -
  let ?s = "settle l" and ?e = "entry env (- 1) tt path xs"
  have "\<not> immediate env ?s tt (e_now env (sv_log ?s))"
    using assms(4,7,8) by (auto simp: immediate_def lo_timetag_diff_le_0 intro: lo_timetag.expand)
  from deliver_all_waiting [OF this, of "- 1" "[(path, xs)]"]
  have "deliver env (- 1) (PBundle tt (messages_of [(path, xs)])) ?s = Some (?s\<lparr>sv_queued := queue_insert ?e (sv_queued ?s)\<rparr>)"
    using assms(5,6) by simp
  then have "lo_server_dispatch_data env ?s (wire_packet (PBundle tt (messages_of [(path, xs)])))
      (int (length (wire_packet (PBundle tt (messages_of [(path, xs)]))))) =
    Some (int (length (wire_packet (PBundle tt (messages_of [(path, xs)])))), ?s\<lparr>sv_queued := queue_insert ?e (sv_queued ?s)\<rparr>)"
    using deliver_refined(1) [OF assms(3,1,2), of "[]" "- 1"]
    by (simp add: lo_server_dispatch_data_def del: wire_packet.simps deliver.simps)
  moreover have "\<lparr>q_ts = tt, q_path = path, q_msg = q_msg ?e, q_sock = - 1\<rparr> = ?e" by (simp add: entry_def)
  ultimately show ?thesis by (simp add: perform_def settle_def live_insert_queue del: wire_packet.simps)
qed

section \<open>Properties\<close>

text \<open>
  C25: While no handler changes the server, its pointers into the two lists stay valid and dispatching to
  the nodes is what the functions of theory \<open>Dispatch\<close> say, for a message and for the whole queue.
\<close>

theorem quiet_handlers_dispatch:
  assumes "ids_ok l"
  shows "map_option settle (live_dispatch_method env no_requests l mem msg sock) = dispatch_method env (settle l) mem msg sock \<and>
    map_option (map_prod id settle) (live_dispatch_queued env no_requests l dispatch_all) =
      dispatch_queued env (settle l) dispatch_all"
proof
  show "map_option settle (live_dispatch_method env no_requests l mem msg sock) = dispatch_method env (settle l) mem msg sock"
    using live_method_static [OF assms, of env mem msg sock]
    by (cases "live_dispatch_method env no_requests l mem msg sock") auto
  show "map_option (map_prod id settle) (live_dispatch_queued env no_requests l dispatch_all) =
      dispatch_queued env (settle l) dispatch_all"
  proof (cases "lv_queued l")
    case Nil
    then show ?thesis
      by (simp add: live_dispatch_queued_def dispatch_queued_def settle_def lo_throw_def emit_def)
  next
    case (Cons x q)
    obtain i it where x: "x = (i, it)" by (cases x)
    have "map_option settle (live_due env no_requests (q_ts it) dispatch_all l) =
        dispatch_due env (q_ts it) dispatch_all (map snd (x # q)) (settle l)"
      by (rule live_due_static [OF assms Cons]) simp
    moreover have "sv_queued (settle l) = it # map snd q" by (simp add: settle_def Cons x)
    ultimately show ?thesis
      using Cons
      by (cases "live_due env no_requests (q_ts it) dispatch_all l")
        (auto simp: live_dispatch_queued_def dispatch_queued_def x dest: sym)
  qed
qed

text \<open>
  Handlers that only hand over events for the future do not disturb the dispatching of a message: the
  calls are those of \<open>dispatch_method\<close>, and the queue is the old one with the events entered in order.
\<close>

theorem posting_handlers_dispatch:
  assumes "only_posts act" "ids_ok l" "live_dispatch_method env act l mem msg sock = Some l'"
  shows "dispatch_method env (settle l) mem msg sock = Some ((settle l')\<lparr>sv_queued := sv_queued (settle l)\<rparr>) \<and>
    (\<exists>ps. sv_queued (settle l') = fold queue_insert ps (sv_queued (settle l)))"
proof (cases "dispatch_method env (settle l) mem msg sock")
  case None
  then show ?thesis using live_method_posts [OF assms(1,2), of env mem msg sock] assms(3) by simp
next
  case (Some s)
  then have g: "grown act l (lv_base l') l'" "s = (settle l')\<lparr>sv_queued := map snd (lv_queued l)\<rparr>"
    using live_method_posts [OF assms(1,2), of env mem msg sock] assms(3) by simp_all
  have "sv_queued (settle k) = map snd (lv_queued k)" for k by (simp add: settle_def)
  then show ?thesis using Some g(2) grown_queue [OF g(1)] by simp
qed

text \<open>
  C27: When the first method of the table takes any types and matches, and its handler deletes it by its path, the
  loop then reads the freed node to go on, unless the handler returns 0 for a path without pattern characters, which ends the loop.
\<close>

theorem self_deletion_reads_freed:
  assumes "ids_ok l" "lv_methods l = (i, m) # ms" "mt_typespec m = NULL"
    and "case mt_path m of NULL \<Rightarrow> True | Ref p \<Rightarrow> \<not> is_pattern p"
    and "cstr mem = Some path" "cstr (lo_message_get_types msg) = Some types"
    and "path_matches (e_chr_val env) (mt_path m) path mem = Some True"
    and "\<And>lg c. e_handler env lg c = r"
  shows "if r = 0 \<and> \<not> is_pattern path
    then \<exists>b. live_dispatch_method env (\<lambda>_. [Del (mt_path m) NULL]) l mem msg sock =
      Some (l\<lparr>lv_base := b, lv_methods := filter (\<lambda>x. \<not> (mt_path (snd x) = mt_path m \<and> mt_typespec (snd x) = NULL)) ms\<rparr>)
    else live_dispatch_method env (\<lambda>_. [Del (mt_path m) NULL]) l mem msg sock = None"
proof -
  note loop = live_loop_deleted [OF assms(1-4,7) assms(8) [symmetric]]
  have "first_node (lv_methods l) = Some i" by (simp add: assms(2) first_node_def)
  then show ?thesis using assms(5,6) by (auto simp: live_dispatch_method_def loop Let_def)
qed

text \<open>
  A handler that adds another method for all messages on each call, and does not return 0, keeps the
  loop over the methods from ending: every call brings the next one.
\<close>

theorem adding_handler_never_ends:
  assumes "all_generic l" "lv_methods l \<noteq> []" "\<And>lg c. e_handler env lg c \<noteq> 0" "e_al env At_struct 0 \<noteq> None"
  shows "live_dispatch_method env (\<lambda>_. [Add NULL NULL h u]) l mem msg sock = None"
proof -
  obtain i m ms where "lv_methods l = (i, m) # ms" using assms(2) by (cases "lv_methods l") auto
  then have "adding h u env (\<lambda>_. [Add NULL NULL h u]) (first_node (lv_methods l)) l"
    using assms(1,3,4) by (auto simp: adding_def first_node_def)
  then have "live_loop env (\<lambda>_. [Add NULL NULL h u]) path mem msg1 types (first_node (lv_methods l)) 1 l = None"
    for path msg1 types
    using live_loop_adding by (metis not_Some_eq)
  then show ?thesis by (auto simp: live_dispatch_method_def Let_def split: bind_splits)
qed

text \<open>
  C26: In a server with one method, for all messages, whose handler returns 0: when the handler is called for
  the only event of the queue and hands over another event for the future, that is lost. The event is entered behind the current one, but \<open>dispatch_queued\<close> then puts the
  successor that it read before the call, NULL, into the queue.
\<close>

theorem posted_event_lost:
  assumes "ids_ok l" "lv_queued l = [(k, it)]" "lv_methods l = [(i, m)]"
    and "mt_path m = NULL" "mt_typespec m = NULL" "\<And>lg c. e_handler env lg c = 0"
    and "NUL \<notin> set (q_path it)" "cstr (lo_message_get_types (q_msg it)) = Some types"
    and "\<not> is_pattern (q_path it)"
  shows "\<exists>l1. live_dispatch_method env (\<lambda>_. [Post ts path msg sock]) l (q_path it @ [NUL]) (q_msg it) (q_sock it) = Some l1 \<and>
    set (sv_queued (settle l1)) = {it, \<lparr>q_ts = ts, q_path = path, q_msg = msg, q_sock = sock\<rparr>} \<and>
    live_dispatch_queued env (\<lambda>_. [Post ts path msg sock]) l dispatch_all = Some (0, l1\<lparr>lv_queued := []\<rparr>)"
proof -
  let ?act = "\<lambda>_ :: event list. [Post ts path msg sock]"
  let ?e = "\<lparr>q_ts = ts, q_path = path, q_msg = msg, q_sock = sock\<rparr>"
  have loop: "live_loop env ?act (q_path it) (q_path it @ [NUL]) msg1 types (Some i) 1 l =
      Some (0, l\<lparr>lv_base := emit (Ev_call (handler_call m (q_path it) msg1 types)) (lv_base l),
        lv_queued := live_insert (lv_next l, ?e) (lv_queued l), lv_next := Suc (lv_next l)\<rparr>)" for msg1
    using assms(3-6,9)
    by (subst live_loop.simps)
      (simp add: path_matches_def live_dispatch_to_any_types Let_def perform_def)
  obtain l1 where l1: "live_dispatch_method env ?act l (q_path it @ [NUL]) (q_msg it) (q_sock it) = Some l1"
      "lv_queued l1 = live_insert (lv_next l, ?e) (lv_queued l)"
    using assms(3,7,8) by (simp add: live_dispatch_method_def Let_def first_node_def loop)
  then show ?thesis
    using live_due_last [OF assms(2) l1(1)] assms(2)
    by (auto simp: settle_def live_insert_set)
qed

section \<open>Witnesses\<close>

text \<open>A server with one method for all messages and one event in its queue; its handlers return \<open>r\<close>.\<close>

definition reentrant_env :: "int \<Rightarrow> env" where
  "reentrant_env r = \<lparr>e_be = True, e_chr_val = of_char, e_rnd = \<lparr>rnd_float = (\<lambda>_. 0), rnd_double = (\<lambda>_. 0)\<rparr>,
     e_al = al_zero, e_handler = (\<lambda>_ _. r), e_now = (\<lambda>_. Timetag 100 0)\<rparr>"

definition empty_message :: lo_message where
  "empty_message = \<lparr>m_types = '','' @ [NUL], m_typelen = 1, m_typesize = 2, m_data = [], m_datalen = 0, m_datasize = 0,
     m_source = NULL, m_argv = NULL, m_ts = LO_TT_IMMEDIATE, m_refcount = 1\<rparr>"

definition live0 :: live where
  "live0 =
     \<lparr>lv_base = \<lparr>sv_methods = [], sv_protocol = LO_UDP, sv_coerce = False, sv_enqueue = True, sv_queued = [],
        sv_bundle_start = False, sv_bundle_end = False, sv_err_h = False, sv_log = []\<rparr>,
      lv_methods = [(0, \<lparr>mt_path = NULL, mt_typespec = NULL, mt_handler = 1, mt_user_data = 0\<rparr>)],
      lv_queued = [(1, \<lparr>q_ts = Timetag 90 0, q_path = ''/tick'', q_msg = empty_message, q_sock = - 1\<rparr>)],
      lv_next = 2\<rparr>"

lemma live0: "ids_ok live0" "all_generic live0" "cstr (lo_message_get_types empty_message) = Some []"
  "lv_methods live0 = [(0, \<lparr>mt_path = NULL, mt_typespec = NULL, mt_handler = 1, mt_user_data = 0\<rparr>)]"
  "lv_queued live0 = [(1, \<lparr>q_ts = Timetag 90 0, q_path = ''/tick'', q_msg = empty_message, q_sock = - 1\<rparr>)]"
  "e_handler (reentrant_env r) lg c = r" "e_al (reentrant_env r) At_struct 0 \<noteq> None" "\<not> is_pattern ''/tick''"
  by (simp_all add: live0_def ids_ok_def all_generic_def empty_message_def lo_message_get_types_def reentrant_env_def
    al_zero_def is_pattern_def)

theorem quiet_handlers_dispatch_witness:
  "map_option (map_prod id settle) (live_dispatch_queued (reentrant_env 0) no_requests live0 False) =
     dispatch_queued (reentrant_env 0) (settle live0) False"
  using quiet_handlers_dispatch [OF live0(1), of "reentrant_env 0"] by blast

theorem self_deletion_reads_freed_witness:
  "live_dispatch_method (reentrant_env 1) (\<lambda>_. [Del NULL NULL]) live0 (''/a'' @ [NUL]) empty_message (- 1) = None"
  using self_deletion_reads_freed [OF live0(1,4) _ _ _ live0(3) _ live0(6),
      where mem = "''/a'' @ [NUL]" and path = "''/a''" and r = 1 and sock = "- 1"]
  by (simp add: path_matches_def)

theorem adding_handler_never_ends_witness:
  "live_dispatch_method (reentrant_env 1) (\<lambda>_. [Add NULL NULL 1 0]) live0 (''/a'' @ [NUL]) empty_message (- 1) = None"
  using adding_handler_never_ends [OF live0(2) _ _ live0(7), of 1 1 0] by (simp add: live0(4,6))

theorem posted_event_lost_witness:
  "\<exists>l1. live_dispatch_queued (reentrant_env 0) (\<lambda>_. [Post (Timetag 200 0) ''/tock'' empty_message (- 1)]) live0 False =
     Some (0, l1) \<and> lv_queued l1 = []"
proof -
  have "NUL \<notin> set (q_path (snd (hd (lv_queued live0))))" by (simp add: live0(5))
  from posted_event_lost [OF live0(1,5,4) _ _ live0(6) [of 0], where types = "[]" and
      ts = "Timetag 200 0" and path = "''/tock''" and msg = empty_message and sock = "- 1" and dispatch_all = False]
    this live0(3,5,8)
  obtain l1 where "live_dispatch_queued (reentrant_env 0) (\<lambda>_. [Post (Timetag 200 0) ''/tock'' empty_message (- 1)]) live0 False =
      Some (0, l1\<lparr>lv_queued := []\<rparr>)"
    by auto
  then show ?thesis by (intro exI [of _ "l1\<lparr>lv_queued := []\<rparr>"]) simp
qed

end
