(* ===== verification/ServerThread.thy ===== *)
theory ServerThread
  imports Lifetime
begin

text \<open>
  The server thread (\<open>src/server_thread.c\<close>): start and stop from the controlling thread, and the
  loop of the created thread, as a step relation that interleaves the two. A step of the created thread that
  serves is a call of \<open>lo_server_recv_noblock\<close> with what the system gives to it, the label of the step; a call
  that does not return is no step. For servers of datagrams the calls return, within 10 ms of waiting
  (\<open>datagram_turn_returns\<close>); one of a TCP server may block (\<open>tcp_turn_blocks\<close>).
\<close>

section \<open>One turn of the loop\<close>

text \<open>What the surroundings give to one call of \<open>lo_server_recv_noblock\<close>: the clock, the answers of the system, the handlers.\<close>

record turn =
  tn_env :: env
  tn_can_alloc :: "nat \<Rightarrow> bool"
  tn_now :: lo_timetag
  tn_arrivals :: "arrival list"
  tn_input :: input

text \<open>\<open>lo_server_recv_noblock(st->s, 10)\<close>; \<open>None\<close>: it does not return with these answers.\<close>

definition thread_turn :: "turn \<Rightarrow> lo_server \<Rightarrow> lo_server option" where
  "thread_turn tn s =
     map_option snd (lo_server_recv_noblock (tn_env tn) (tn_can_alloc tn) (tn_now tn) (tn_arrivals tn) (tn_input tn) s 10)"

section \<open>The object\<close>

text \<open>
  The program counter of the created thread: none was created (or it was joined), at the test of the
  loop, receiving, past the loop, and exited but not joined. That of the controlling thread says
  whether it is inside \<open>pthread_join\<close>.
\<close>

datatype thread_pc = Absent | Testing | Receiving | Leaving | Exited

record server_thread =
  st_server :: lo_server
  st_active :: bool
  st_done :: bool
  st_thread :: thread_pc
  st_joining :: bool

text \<open>The constructors differ in how the server is made; without one there is no thread object.\<close>

definition lo_server_thread_new_with_proto :: "lo_server ptr \<Rightarrow> server_thread ptr" where
  "lo_server_thread_new_with_proto server =
     (case server of NULL \<Rightarrow> NULL
      | Ref s \<Rightarrow> Ref \<lparr>st_server = s, st_active = False, st_done = False, st_thread = Absent, st_joining = False\<rparr>)"

text \<open>\<open>result\<close> is what \<open>pthread_create\<close> returns.\<close>

definition lo_server_thread_start :: "int \<Rightarrow> server_thread \<Rightarrow> int \<times> server_thread" where
  "lo_server_thread_start result st =
     (if \<not> st_active st then
        (let st1 = st\<lparr>st_active := True, st_done := False\<rparr> in
         if result \<noteq> 0 then (- result, st1) else (0, st1\<lparr>st_thread := Testing\<rparr>))
      else (0, st))"

text \<open>Up to \<open>pthread_join\<close>; its return once the thread has exited, and its return with an error.\<close>

definition stop_begin :: "server_thread \<Rightarrow> server_thread" where
  "stop_begin st = (if st_active st then st\<lparr>st_active := False, st_joining := True\<rparr> else st)"

definition stop_end :: "server_thread \<Rightarrow> server_thread" where
  "stop_end st = st\<lparr>st_joining := False, st_thread := Absent\<rparr>"

definition stop_fails :: "server_thread \<Rightarrow> server_thread" where
  "stop_fails st = st\<lparr>st_joining := False\<rparr>"

text \<open>The next step of the created thread.\<close>

definition thread_func :: "turn \<Rightarrow> server_thread \<Rightarrow> server_thread option" where
  "thread_func tn st =
     (case st_thread st of
        Testing \<Rightarrow> Some (st\<lparr>st_thread := (if st_active st then Receiving else Leaving)\<rparr>)
      | Receiving \<Rightarrow> do { s \<leftarrow> thread_turn tn (st_server st); Some (st\<lparr>st_server := s, st_thread := Testing\<rparr>) }
      | Leaving \<Rightarrow> Some (st\<lparr>st_done := True, st_thread := Exited\<rparr>)
      | _ \<Rightarrow> None)"

text \<open>The steps of the created thread alone, with the answers \<open>tn\<close>.\<close>

fun run_thread :: "turn \<Rightarrow> nat \<Rightarrow> server_thread \<Rightarrow> server_thread" where
  "run_thread tn 0 st = st"
| "run_thread tn (Suc n) st =
     (case thread_func tn st of None \<Rightarrow> st | Some st' \<Rightarrow> run_thread tn n st')"

section \<open>The interleaving\<close>

text \<open>
  \<open>can_fail\<close> says whether \<open>pthread_create\<close> and \<open>pthread_join\<close> may fail. Outside of \<open>lo_server_thread_stop\<close> the
  controlling thread may also use the server, by any operations that leave its sockets alone: all but sending
  from it over TCP.
\<close>

inductive thread_step :: "bool \<Rightarrow> server_thread \<Rightarrow> server_thread \<Rightarrow> bool" for can_fail :: bool where
  start: "\<not> st_joining st \<Longrightarrow> result = 0 \<or> can_fail \<Longrightarrow>
    thread_step can_fail st (snd (lo_server_thread_start result st))"
| stop: "\<not> st_joining st \<Longrightarrow> thread_step can_fail st (stop_begin st)"
| join: "st_joining st \<Longrightarrow> st_thread st = Exited \<Longrightarrow> thread_step can_fail st (stop_end st)"
| join_fails: "st_joining st \<Longrightarrow> can_fail \<Longrightarrow> thread_step can_fail st (stop_fails st)"
| use_server: "\<not> st_joining st \<Longrightarrow> lives (st_server st) s \<Longrightarrow> ls_socks s = ls_socks (st_server st) \<Longrightarrow>
    thread_step can_fail st (st\<lparr>st_server := s\<rparr>)"
| run: "thread_func tn st = Some st' \<Longrightarrow> thread_step can_fail st st'"

inductive_cases thread_stepE: "thread_step can_fail st st'"

inductive thread_reachable :: "bool \<Rightarrow> lo_server \<Rightarrow> server_thread \<Rightarrow> bool"
  for can_fail :: bool and s0 :: lo_server where
  new: "lo_server_thread_new_with_proto (Ref s0) = Ref st \<Longrightarrow> thread_reachable can_fail s0 st"
| step: "thread_reachable can_fail s0 st \<Longrightarrow> thread_step can_fail st st' \<Longrightarrow> thread_reachable can_fail s0 st'"

text \<open>
  The invariant as long as threads can be created: the controlling thread waits only for a thread
  that was told to stop, and outside of that a thread exists exactly when the object is active.
\<close>

definition thread_inv :: "server_thread \<Rightarrow> bool" where
  "thread_inv st \<longleftrightarrow>
     (if st_joining st then \<not> st_active st \<and> st_thread st \<noteq> Absent
      else (st_active st \<longleftrightarrow> st_thread st \<noteq> Absent)) \<and>
     (st_thread st = Leaving \<or> st_thread st = Exited \<longrightarrow> \<not> st_active st) \<and>
     (st_thread st = Exited \<longrightarrow> st_done st)"

lemma thread_step_inv:
  assumes "thread_step False st st'" "thread_inv st"
  shows "thread_inv st'"
  using assms(1)
proof (cases rule: thread_step.cases)
  case (start result)
  then show ?thesis using assms(2) by (auto simp: lo_server_thread_start_def thread_inv_def Let_def)
next
  case stop
  then show ?thesis using assms(2) by (auto simp: stop_begin_def thread_inv_def)
next
  case join
  then show ?thesis using assms(2) by (auto simp: stop_end_def thread_inv_def)
next
  case (run tn)
  then show ?thesis using assms(2) by (auto simp: thread_func_def thread_inv_def split: thread_pc.splits bind_splits)
qed (use assms(2) in \<open>auto simp: thread_inv_def\<close>)

lemma reachable_inv: "thread_reachable False s0 st \<Longrightarrow> thread_inv st"
proof (induction rule: thread_reachable.induct)
  case (new st)
  then show ?case by (auto simp: lo_server_thread_new_with_proto_def thread_inv_def)
qed (rule thread_step_inv)

text \<open>A thread that was told to stop exits within three steps if the call it may be in returns.\<close>

lemma run_thread_exits:
  assumes "\<not> st_active st" "st_thread st \<noteq> Absent" "st_thread st = Receiving \<longrightarrow> thread_turn tn (st_server st) \<noteq> None"
  shows "st_thread (run_thread tn 3 st) = Exited \<and> st_joining (run_thread tn 3 st) = st_joining st \<and>
    (st_thread st \<noteq> Exited \<longrightarrow> st_done (run_thread tn 3 st)) \<and> (st_thread st = Exited \<longrightarrow> run_thread tn 3 st = st) \<and>
    (if st_thread st = Receiving then thread_turn tn (st_server st) = Some (st_server (run_thread tn 3 st))
     else st_server (run_thread tn 3 st) = st_server st)"
  using assms by (cases "st_thread st") (auto simp: eval_nat_numeral thread_func_def)

section \<open>The turns of a server of datagrams\<close>

lemma lo_timetag_diff_trans: "lo_timetag_diff a c = lo_timetag_diff a b + lo_timetag_diff b c"
proof -
  have "x - z + (p - r) * k = x - y + (p - q) * k + (y - z + (q - r) * k)" for x y z p q r k :: rat
    by (simp add: algebra_simps)
  then show ?thesis unfolding lo_timetag_diff_def by blast
qed

lemma delay_antimono: "now \<le> now' \<Longrightarrow> ls_delay now' s \<le> ls_delay now s"
proof -
  assume "now \<le> now'"
  then have "0 \<le> lo_timetag_diff now' now" using lo_timetag_diff_neg [of now' now] by (simp add: not_less [symmetric])
  then have le: "lo_timetag_diff t now' \<le> lo_timetag_diff t now" for t
    using lo_timetag_diff_trans [of t now now'] by simp
  show ?thesis
  proof (cases "sv_queued (ls_core s)")
    case (Cons e q)
    then show ?thesis using le [of "q_ts e"] by (simp add: lo_server_next_event_delay_def Let_def)
  qed (simp add: lo_server_next_event_delay_def)
qed

text \<open>A server of datagrams with the one socket it was made with.\<close>

definition one_socket :: "lo_server \<Rightarrow> bool" where
  "one_socket s \<longleftrightarrow> ls_protocol s \<noteq> LO_TCP \<and> sockets_len s = 1 \<and>
     (\<exists>scs. so_contexts (ls_socks s) = zero_context # scs)"

lemma one_socket_idle: "one_socket s \<Longrightarrow> any_buffered (ls_socks s) 0 (sockets_len s) = Some False"
  by (auto simp: one_socket_def lo_server_buffer_contains_msg_def zero_context_def)

text \<open>It polls once, for at most 10 ms, and changes nothing.\<close>

lemma datagram_wait:
  assumes "one_socket s" "lo_server_wait can_alloc now (a # as) s timeout = Some (r, s', ts)" "0 \<le> timeout"
  shows "s' = s" "length ts = 1" "\<forall>t \<in> set ts. 0 \<le> t \<and> t \<le> timeout"
    "r > 0 \<Longrightarrow> ar_revents a 0 = Rev_ready \<or> ls_delay (ar_delay_now a) s < 1 / 100"
proof -
  have "0 \<le> ls_delay now s" using next_event_delay_bounds by blast
  then have "0 \<le> c_trunc (ls_delay now s * 1000)" by (simp add: c_trunc_def not_less)
  then show "s' = s" "length ts = 1" "\<forall>t \<in> set ts. 0 \<le> t \<and> t \<le> timeout"
    "r > 0 \<Longrightarrow> ar_revents a 0 = Rev_ready \<or> ls_delay (ar_delay_now a) s < 1 / 100"
    using assms one_socket_idle [OF assms(1)]
    by (auto simp: lo_server_wait_def one_socket_def wait_result_def Let_def split: revents.splits if_splits)
qed

lemma datagram_wait_returns:
  "one_socket s \<Longrightarrow> \<exists>r ts. lo_server_wait can_alloc now (a # as) s timeout = Some (r, s, ts)"
  using one_socket_idle [of s] by (cases "ar_revents a 0") (simp_all add: lo_server_wait_def one_socket_def Let_def)

text \<open>
  The answers under which the call of such a server returns: the two calls of \<open>poll\<close> answer, the second one
  still reports the socket that the first one has found ready, the clock does not go back, and dispatching what
  there is, the events that are due or the datagram, is defined and returns.
\<close>

definition calm :: "turn \<Rightarrow> lo_server \<Rightarrow> bool" where
  "calm tn s \<longleftrightarrow>
     (case (tn_arrivals tn, in_wakes (tn_input tn)) of
        (a # _, w # _) \<Rightarrow> (ar_revents a 0 = Rev_ready \<longrightarrow> wk_revents w 0 \<noteq> Rev_none) \<and>
          ar_delay_now a \<le> in_now (tn_input tn)
      | _ \<Rightarrow> False) \<and>
     dispatch_queued (tn_env tn) (ls_core s) False \<noteq> None \<and>
     (case lo_server_recv_raw (e_al (tn_env tn)) (in_dgram (tn_input tn)) of
        None \<Rightarrow> False
      | Some NULL \<Rightarrow> True
      | Some (Ref data) \<Rightarrow> got_data (tn_env tn) s data (- 1) \<noteq> None)"

lemma datagram_turn_returns:
  assumes "one_socket s" "calm tn s"
  shows "\<exists>s'. thread_turn tn s = Some s'"
proof -
  obtain a as w ws where aw: "tn_arrivals tn = a # as" "in_wakes (tn_input tn) = w # ws"
      "ar_revents a 0 = Rev_ready \<longrightarrow> wk_revents w 0 \<noteq> Rev_none" "ar_delay_now a \<le> in_now (tn_input tn)"
    using assms(2) by (auto simp: calm_def split: list.splits)
  obtain r ts where wait: "lo_server_wait (tn_can_alloc tn) (tn_now tn) (a # as) s 10 = Some (r, s, ts)"
    using datagram_wait_returns [OF assms(1)] by blast
  have "\<exists>x s'. lo_server_recv (tn_env tn) (tn_can_alloc tn) (tn_input tn) s = Some (x, s')" if "r > 0"
  proof (cases "ls_delay (in_now (tn_input tn)) s > 1 / 100")
    case False
    then have "recv_wait (e_al (tn_env tn)) s (ls_delay (in_now (tn_input tn)) s) (in_wakes (tn_input tn)) = Some (W_due, s, [])"
      by (simp add: aw(2) before_poll_def)
    moreover obtain x c where "dispatch_queued (tn_env tn) (ls_core s) False = Some (x, c)"
      using assms(2) by (auto simp: calm_def)
    ultimately show ?thesis by (simp add: lo_server_recv_def due_events_def)
  next
    case True
    then have "\<not> ls_delay (ar_delay_now a) s < 1 / 100"
      using delay_antimono [OF aw(4), of s] by linarith
    then have "wk_revents w 0 \<noteq> Rev_none" using datagram_wait(4) [OF assms(1) wait _ that] aw(3) by auto
    then have "\<exists>ts. recv_wait (e_al (tn_env tn)) s (ls_delay (in_now (tn_input tn)) s) (in_wakes (tn_input tn)) = Some (W_error, s, ts) \<or>
        recv_wait (e_al (tn_env tn)) s (ls_delay (in_now (tn_input tn)) s) (in_wakes (tn_input tn)) = Some (W_ready, s, ts)"
      using True assms(1) by (auto simp: aw(2) before_poll_def one_socket_def Let_def split: revents.splits)
    then show ?thesis using assms
      by (auto simp: lo_server_recv_def one_socket_def calm_def split: option.splits ptr.splits)
  qed
  then show ?thesis
    using wait by (auto simp: thread_turn_def lo_server_recv_noblock_def aw(1))
qed

lemma datagram_turn_socks:
  assumes "one_socket s" "thread_turn tn s = Some s'"
  shows "ls_socks s' = ls_socks s \<and> lives s s'"
proof -
  obtain r s1 ts x where w: "lo_server_wait (tn_can_alloc tn) (tn_now tn) (tn_arrivals tn) s 10 = Some (r, s1, ts)"
      and v: "s' = s1 \<or> lo_server_recv (tn_env tn) (tn_can_alloc tn) (tn_input tn) s1 = Some (x, s')"
    using assms(2) by (auto simp: thread_turn_def lo_server_recv_noblock_def split: bind_splits if_splits) blast+
  have udp: "ls_protocol s \<noteq> LO_TCP" using assms(1) by (simp add: one_socket_def)
  have l1: "lives s s1" by (rule lives.wait [OF lives.born _ w]) (use udp in simp)
  have s1: "s1 = s" using w one_socket_idle [OF assms(1)] datagram_wait(1) [OF assms(1)]
    by (cases "tn_arrivals tn") (auto simp: lo_server_wait_def)
  have "ls_socks s' = ls_socks s \<and> lives s s'" if R: "lo_server_recv (tn_env tn) (tn_can_alloc tn) (tn_input tn) s = Some (x, s')"
  proof
    show "lives s s'" by (rule lives.recv [OF lives.born _ R]) (use udp in simp)
    have bp: "before_poll al s t = Some (d, t') \<Longrightarrow> t' = s" for al t d t'
      using udp by (auto simp: before_poll_def split: if_splits)
    have rw: "recv_wait al s t wakes = Some (wt, t', ts) \<Longrightarrow> t' = s" for al t wakes wt t' ts
      by (induction wakes arbitrary: t ts) (auto simp: Let_def dest!: bp split: bind_splits ptr.splits revents.splits)
    obtain wt ts where "recv_wait (e_al (tn_env tn)) s (ls_delay (in_now (tn_input tn)) s) (in_wakes (tn_input tn)) = Some (wt, s, ts)"
      using R rw by (auto simp: lo_server_recv_def split: bind_splits)
    then show "ls_socks s' = ls_socks s" using R udp
      by (cases wt) (auto simp: lo_server_recv_def due_events_def got_data_def split: bind_splits ptr.splits)
  qed
  then show ?thesis using v s1 l1 by auto
qed

section \<open>Properties\<close>

lemma newborn_one_socket:
  assumes "lo_server_new_with_proto_internal h grp port iface ip proto err_h m = Some (Ref s, m')" "\<And>cs. - 1 \<le> h_ret h cs"
    and "ls_protocol s \<noteq> LO_TCP"
  shows "one_socket s"
  using newborn_made [OF assms(1,2)] assms(3)
  by (auto simp: one_socket_def sockets_len_def with_fd_def blank_server_def numeral_2_eq_2)

text \<open>The server of a thread lives on, with the socket it was made with.\<close>

lemma thread_server:
  assumes "thread_reachable can_fail s0 st" "one_socket s0" "server_inv (ls_protocol s0) l s0"
  shows "lives s0 (st_server st) \<and> one_socket (st_server st)"
  using assms(1)
proof (induction rule: thread_reachable.induct)
  case (new st)
  then show ?case using assms(2) by (auto simp: lo_server_thread_new_with_proto_def lives.born)
next
  case (step st st')
  have "ls_protocol s = ls_protocol s0" if "lives s0 s" for s using lives_inv [OF that assms(3)] by (simp add: server_inv_def)
  then have keeps: "lives s0 s \<and> one_socket s" if "lives (st_server st) s" "ls_socks s = ls_socks (st_server st)" for s
    using lives_trans [OF _ that(1)] step.IH that(2) by (auto simp: one_socket_def sockets_len_def)
  from step.hyps(2) show ?case
  proof (cases rule: thread_step.cases)
    case (use_server s)
    then show ?thesis using keeps by simp
  next
    case (run tn)
    then show ?thesis using step.IH keeps datagram_turn_socks
      by (auto simp: thread_func_def split: thread_pc.splits bind_splits)
  qed (use step.IH in \<open>auto simp: lo_server_thread_start_def stop_begin_def stop_end_def stop_fails_def Let_def\<close>)
qed


text \<open>
  A thread that cannot be created is taken for a running one. After a failed start the object
  stays active without a thread: another start reports success and starts nothing, and a stop joins
  the thread that was never created; nothing ends the wait but an error of \<open>pthread_join\<close>.
\<close>

theorem failed_start_stays_active:
  assumes "\<not> st_active st" "\<not> st_joining st" "st_thread st = Absent" "result \<noteq> 0"
    and "lo_server_thread_start result st = (r, st1)"
  shows "r = - result \<and> st_active st1 \<and> st_thread st1 = Absent \<and>
    lo_server_thread_start 0 st1 = (0, st1) \<and>
    st_joining (stop_begin st1) \<and>
    (\<forall>st2. thread_step can_fail (stop_begin st1) st2 \<longrightarrow> can_fail \<and> st2 = stop_fails (stop_begin st1))"
proof -
  have st1: "r = - result" "st1 = st\<lparr>st_active := True, st_done := False\<rparr>"
    using assms(1,4,5) by (simp_all add: lo_server_thread_start_def Let_def)
  then have j: "st_joining (stop_begin st1)" "st_thread (stop_begin st1) = Absent" "st_thread st1 = Absent"
      "lo_server_thread_start 0 st1 = (0, st1)" "st_active st1"
    using assms(3) by (simp_all add: stop_begin_def lo_server_thread_start_def)
  have "thread_step can_fail (stop_begin st1) st2 \<Longrightarrow> can_fail \<and> st2 = stop_fails (stop_begin st1)" for st2
    using j(1,2) by (auto elim!: thread_stepE simp: thread_func_def)
  then show ?thesis using st1(1) j by blast
qed

text \<open>
  The timeout of 10 ms is not kept for TCP. When a connection with something to read has ended the wait and
  a new connection has come as well, the round of \<open>lo_server_recv_raw_stream\<close> reads the one, accepts the other and
  polls again, without a timeout: with nothing more to come the call never returns, the message it has read is not
  dispatched, and a stop of the thread waits for ever.
\<close>

theorem tcp_turn_blocks:
  assumes "ls_protocol s = LO_TCP" "so_fds (ls_socks s) = [l, a]" "sockets_ok (ls_socks s)"
    and "1 / 100 < ls_delay (tn_now tn) s" "1 / 100 < ls_delay (in_now (tn_input tn)) s" "\<forall>n. tn_can_alloc tn n"
    and "tn_arrivals tn = [ar]" "ar_revents ar = (\<lambda>j. if j = 1 then Rev_ready else Rev_none)"
    and "in_wakes (tn_input tn) = [w]" "wk_revents w 0 = Rev_ready" "in_rounds (tn_input tn) = [r]"
    and "pr_revents r = (\<lambda>_. Rev_ready)" "0 \<le> fst (pr_accept r)" "fst (pr_accept r) \<notin> {l, a}"
    and "\<forall>j < 2. context_ok (so_contexts (ls_socks s) ! j) \<and> \<not> whole_message (content (so_contexts (ls_socks s) ! j))"
    and "lo_server_recv_raw_stream_socket (e_al (tn_env tn)) (pr_rx r a) (so_contexts (ls_socks s) ! 1) = Some rv"
    and "\<not> rv_closed rv" "context_ok (rv_sc rv)" "\<not> whole_message (content (rv_sc rv))"
  shows "thread_turn tn s = None"
proof -
  let ?st = "ls_socks s"
  define st1 where "st1 = set_context 1 (rv_sc rv) ?st"
  have len: "2 \<le> length (so_contexts ?st)" "l \<noteq> a" "l \<noteq> - 1" "a \<noteq> - 1" using assms(2,3) by (auto simp: sockets_ok_def)
  have ok1: "sockets_ok st1" "so_fds st1 = [l, a]" using assms(2,3) by (simp_all add: st1_def)
  have can: "tn_can_alloc tn = (\<lambda>_. True)" using assms(6) by auto
  obtain st2 where st2: "lo_server_add_socket (\<lambda>_. True) st1 (fst (pr_accept r)) (snd (pr_accept r)) = Some (2, st2)"
      "so_fds st2 = [l, a, fst (pr_accept r)]" "2 < so_alloc st2" "length (so_contexts st2) = so_alloc st2"
      "take (so_alloc st1) (so_contexts st2) = so_contexts st1"
    using add_socket_eq [OF ok1(1) assms(13), of "\<lambda>_. True" "snd (pr_accept r)"] by (auto simp: ok1(2))
  define st3 where "st3 = set_context 2 (init_context (so_contexts st2 ! 2)) st2"
  have c: "so_contexts st2 ! j = so_contexts st1 ! j" if "j < 2" for j
  proof -
    have "j < so_alloc st1" using that len(1) ok1(1) assms(3) by (simp add: sockets_ok_def st1_def set_context_def)
    then show ?thesis using arg_cong [OF st2(5), of "\<lambda>xs. xs ! j"] by simp
  qed
  have c1: "so_contexts st1 ! 0 = so_contexts ?st ! 0" "so_contexts st1 ! 1 = rv_sc rv"
    using len(1) by (auto simp: st1_def set_context_def)
  have fresh: "context_ok (init_context sc) \<and> \<not> whole_message (content (init_context sc))" for sc
    by (simp add: init_context_def context_ok_def content_def whole_message_def)
  have "context_ok (so_contexts st3 ! j) \<and> \<not> whole_message (content (so_contexts st3 ! j))" if "j < 3" for j
  proof -
    have "j = 0 \<or> j = 1 \<or> j = 2" using that by arith
    then show ?thesis
      using c [of 0] c [of 1] c1 assms(15,18,19) st2(3,4) fresh by (auto simp: st3_def set_context_def)
  qed
  then have scan3: "scan_buffers (e_al (tn_env tn)) st3 0 (length (so_fds st3)) = Some (NULL, st3)"
    using st2(2-4) by (intro scan_buffers_none) (simp_all add: st3_def set_context_def)
  have scan: "scan_buffers (e_al (tn_env tn)) ?st 0 (length (so_fds ?st)) = Some (NULL, ?st)"
    using assms(2,15) len(1) by (intro scan_buffers_none) simp_all
  have "poll_loop (e_al (tn_env tn)) (\<lambda>_. True) r 2 ?st NULL (- 1) = Some (Again st3)"
  proof -
    have "poll_loop (e_al (tn_env tn)) (\<lambda>_. True) r 2 ?st NULL (- 1) =
        poll_loop (e_al (tn_env tn)) (\<lambda>_. True) r 1 st1 (rv_data rv) a"
      using assms(2,12,16,17) len by (simp add: numeral_2_eq_2 st1_def Let_def)
    also have "\<dots> = Some (Again st3)"
      using ok1(2) st2 len assms(12) by (auto simp: st3_def Let_def st1_def set_context_def)
    finally show ?thesis .
  qed
  then have "lo_server_recv_raw_stream (e_al (tn_env tn)) (\<lambda>_. True) [r] ?st = None"
    using scan scan3 assms(2) by (simp add: numeral_2_eq_2 del: scan_buffers.simps poll_loop.simps)
  moreover have "first_event (wk_revents w) 0 2 = Rev_ready" using assms(10) by (simp add: numeral_2_eq_2)
  ultimately have recv: "lo_server_recv (tn_env tn) (tn_can_alloc tn) (tn_input tn) s = None"
    using assms(1,2,5,9,11) scan
    by (simp add: lo_server_recv_def before_poll_def sockets_len_def can Let_def numeral_2_eq_2
        del: scan_buffers.simps lo_server_recv_raw_stream.simps)
  have "any_buffered ?st 0 (sockets_len s) = Some False"
    using assms(15) len(1) contains_msg_content [of "so_contexts ?st ! 0"] contains_msg_content [of "so_contexts ?st ! 1"]
    by (auto simp: numeral_2_eq_2 sockets_len_def assms(2))
  then have "\<exists>ts. lo_server_wait (tn_can_alloc tn) (tn_now tn) (tn_arrivals tn) s 10 = Some (1, s, ts)"
    using assms(8) by (simp add: lo_server_wait_def assms(7) wait_result_def sockets_len_def [of s] assms(2) Let_def)
  then show ?thesis using recv by (auto simp: thread_turn_def lo_server_recv_noblock_def)
qed

section \<open>Witnesses\<close>

text \<open>Answers with nothing ready.\<close>

definition sample_turn :: turn where
  "sample_turn = \<lparr>tn_env = sample_env, tn_can_alloc = (\<lambda>_. True), tn_now = Timetag 100 0,
     tn_arrivals = [\<lparr>ar_then = Timetag 100 0, ar_revents = (\<lambda>_. Rev_none), ar_accept = (- 1, zero_address),
       ar_now = Timetag 100 0, ar_delay_now = Timetag 100 0\<rparr>],
     tn_input = \<lparr>in_now = Timetag 100 0, in_wakes = [\<lparr>wk_revents = (\<lambda>_. Rev_none), wk_now = Timetag 100 0\<rparr>],
       in_dgram = None, in_rounds = []\<rparr>\<rparr>"

lemma sample_turn_calm: "sv_queued (ls_core s) = [] \<Longrightarrow> calm sample_turn s"
  by (simp add: calm_def sample_turn_def dispatch_queued_def lo_server_recv_raw_def)

text \<open>A UDP server whose thread was started and is in its call when it is told to stop.\<close>

definition thread_at :: "lo_server \<Rightarrow> thread_pc \<Rightarrow> bool \<Rightarrow> server_thread" where
  "thread_at s pc active =
     \<lparr>st_server = s, st_active = active, st_done = False, st_thread = pc, st_joining = (\<not> active)\<rparr>"

lemma sample_receiving: "thread_reachable False s (thread_at s Receiving True)"
proof -
  let ?new = "\<lparr>st_server = s, st_active = False, st_done = False, st_thread = Absent, st_joining = False\<rparr>"
  have "thread_reachable False s ?new" by (rule new) (simp add: lo_server_thread_new_with_proto_def)
  then have "thread_reachable False s (snd (lo_server_thread_start 0 ?new))" by (rule step) (simp add: start)
  then have "thread_reachable False s (thread_at s Testing True)"
    by (simp add: lo_server_thread_start_def thread_at_def)
  then show ?thesis
    by (rule step) (rule thread_step.run [of sample_turn], simp add: thread_func_def thread_at_def)
qed

lemma sample_stopping: "thread_reachable False s (thread_at s Receiving False)"
  using step [OF sample_receiving stop, of s] by (simp add: thread_at_def stop_begin_def)


theorem failed_start_stays_active_witness:
  "\<exists>st1. lo_server_thread_start 11 \<lparr>st_server = s, st_active = False, st_done = False, st_thread = Absent, st_joining = False\<rparr> =
      (- 11, st1) \<and> lo_server_thread_start 0 st1 = (0, st1) \<and> \<not> thread_step False (stop_begin st1) st1"
  using failed_start_stays_active
    [of "\<lparr>st_server = s, st_active = False, st_done = False, st_thread = Absent, st_joining = False\<rparr>" 11 "- 11" _ False]
  by (simp add: lo_server_thread_start_def)

text \<open>A packet comes on a connection, and another client connects.\<close>

theorem tcp_turn_blocks_witness:
  "\<exists>tn. thread_turn tn (sample_ls LO_TCP) = None \<and>
     in_rounds (tn_input tn) = [\<lparr>pr_revents = (\<lambda>_. Rev_ready), pr_accept = (7, zero_address),
       pr_rx = (\<lambda>_. [Rx_data (frame (wire_packet sample_p)), Rx_again])\<rparr>]"
proof -
  let ?s = "sample_ls LO_TCP" and ?one = "\<lambda>j :: nat. if j = 1 then Rev_ready else Rev_none"
  let ?ar = "\<lparr>ar_then = Timetag 100 0, ar_revents = ?one, ar_accept = (- 1, zero_address), ar_now = Timetag 100 0,
      ar_delay_now = Timetag 100 0\<rparr>"
  let ?w = "\<lparr>wk_revents = (\<lambda>_. Rev_ready), wk_now = Timetag 100 0\<rparr>"
  let ?r = "\<lparr>pr_revents = (\<lambda>_. Rev_ready), pr_accept = (7, zero_address),
      pr_rx = (\<lambda>_. [Rx_data (frame (wire_packet sample_p)), Rx_again])\<rparr>"
  let ?tn = "\<lparr>tn_env = sample_env, tn_can_alloc = (\<lambda>_. True), tn_now = Timetag 100 0, tn_arrivals = [?ar],
     tn_input = \<lparr>in_now = Timetag 100 0, in_wakes = [?w], in_dgram = None, in_rounds = [?r]\<rparr>\<rparr>"
  have z: "context_ok zero_context" "counted zero_context" "content zero_context = []" "sc_read_offset zero_context = 0"
      "\<not> whole_message (content zero_context)"
    by (simp_all add: context_ok_def zero_context_def counted_def content_def whole_message_def)
  have p: "wire_packet sample_p \<noteq> []" "length (wire_packet sample_p) < 2 ^ 32"
    using sample_length by (auto simp del: wire_packet.simps)
  have w: "whole_message (frame (wire_packet sample_p))" using frame_whole [OF p, of "[]"] by simp
  have first: "hd (frame (wire_packet sample_p)) = NUL"
    using first_byte [of "frame (wire_packet sample_p)" "[]" "[wire_packet sample_p]"] p sample_length
    by (simp add: frame_def be32_def sendable_def LO_MAX_MSG_SIZE_def)
  have al: "alloc_total (e_al sample_env)" by (rule sample_setup(2))
  have room: "length (frame (wire_packet sample_p)) \<le> free_space (e_al sample_env) zero_context"
    using free_space_min [OF z(1) _ al] z(4) by (simp add: sample_wire_len)
  obtain rv where rv: "lo_server_recv_raw_stream_socket (e_al sample_env) [Rx_data (frame (wire_packet sample_p)), Rx_again] zero_context = Some rv"
      "\<not> rv_closed rv" "context_ok (rv_sc rv)"
      "\<exists>m. rv_data rv = Ref m \<and> m \<noteq> [] \<and> length m < 2 ^ 32 \<and> frame (wire_packet sample_p) = frame m @ content (rv_sc rv)"
    using receive_up_to_space [of zero_context "e_al sample_env" "frame (wire_packet sample_p)"] z w al room first by auto
  then obtain m where "length m < 2 ^ 32" "frame (wire_packet sample_p) @ [] = frame m @ content (rv_sc rv)" by auto
  then have "content (rv_sc rv) = []" using frame_prefix [of "wire_packet sample_p" "[]" m] p(2) by auto
  then have nw: "\<not> whole_message (content (rv_sc rv))" by (simp add: whole_message_def)
  have s: "so_contexts (ls_socks ?s) ! j = zero_context" if "j < 2" for j
    using that by (cases j) (simp_all add: sample_ls_def)
  have fds: "so_fds (ls_socks ?s) = [3, 5]" by (simp add: sample_ls_def)
  have "thread_turn ?tn ?s = None"
    using rv nw z by (intro tcp_turn_blocks [where l = 3 and a = 5 and ar = ?ar and w = ?w and r = ?r and rv = rv])
      (simp_all add: s fds del: lo_server_recv_raw_stream_socket.simps wire_packet.simps)
  then show ?thesis by (intro exI [of _ ?tn]) simp
qed

end
