(* ===== verification/ThreadApi.thy ===== *)
theory ThreadApi
  imports ServerThread Printing
begin

text \<open>
  The rest of \<open>src/server_thread.c\<close>: the constructors, release, and the functions that hand over to the
  server of the thread. \<open>tn\<close> is what the thread gets in the call of \<open>lo_server_recv_noblock\<close> it may be in.
\<close>

section \<open>Construction\<close>

text \<open>\<open>malloc\<close> is not checked; without a server there is no thread object.\<close>

definition thread_around ::
  "host \<Rightarrow> (lo_server ptr \<times> making) option \<Rightarrow> (server_thread ptr \<times> making) option" where
  "thread_around h res =
     (if h_al h At_struct 1 = None then None
      else map_option (\<lambda>(s, m). (lo_server_thread_new_with_proto s, m)) res)"

definition lo_server_thread_new_proto ::
  "host \<Rightarrow> byte list ptr \<Rightarrow> int \<Rightarrow> bool \<Rightarrow> making \<Rightarrow> (server_thread ptr \<times> making) option" where
  "lo_server_thread_new_proto h port proto err_h m = thread_around h (Lifecycle.lo_server_new_with_proto h port proto err_h m)"

definition lo_server_thread_new ::
  "host \<Rightarrow> byte list ptr \<Rightarrow> bool \<Rightarrow> making \<Rightarrow> (server_thread ptr \<times> making) option" where
  "lo_server_thread_new h port err_h m = lo_server_thread_new_proto h port 0 err_h m"

definition lo_server_thread_new_multicast ::
  "host \<Rightarrow> byte list ptr \<Rightarrow> byte list ptr \<Rightarrow> bool \<Rightarrow> making \<Rightarrow> (server_thread ptr \<times> making) option" where
  "lo_server_thread_new_multicast h grp port err_h m = thread_around h (lo_server_new_multicast h grp port err_h m)"

definition lo_server_thread_new_from_url ::
  "bool \<Rightarrow> host \<Rightarrow> byte list ptr \<Rightarrow> bool \<Rightarrow> making \<Rightarrow> (server_thread ptr \<times> making) option" where
  "lo_server_thread_new_from_url strict h url err_h m = thread_around h (lo_server_new_from_url strict h url err_h m)"

section \<open>Stop and release\<close>

text \<open>
  A whole call of \<open>lo_server_thread_stop\<close>, in which the thread takes the steps it has left; \<open>None\<close>: with these
  answers the wait for it does not end. \<open>result\<close> is what \<open>pthread_join\<close> returns.
\<close>

definition lo_server_thread_stop :: "turn \<Rightarrow> int \<Rightarrow> server_thread \<Rightarrow> (int \<times> server_thread) option" where
  "lo_server_thread_stop tn result st =
     (if st_active st then
        let st1 = stop_begin st
        in if result \<noteq> 0 then Some (- result, stop_fails st1)
           else
             let st2 = run_thread tn 3 st1
             in if st_thread st2 = Exited then Some (0, stop_end st2) else None
      else Some (0, st))"

text \<open>What \<open>lo_server_thread_stop\<close> returns is not looked at.\<close>

definition lo_server_thread_free ::
  "turn \<Rightarrow> int \<Rightarrow> server_thread ptr \<Rightarrow> making \<Rightarrow> (making \<times> lo_message ptr list) option" where
  "lo_server_thread_free tn result sp m =
     (case sp of
        NULL \<Rightarrow> Some (m, [])
      | Ref st \<Rightarrow> do {
          (_, st1) \<leftarrow> (if st_active st then lo_server_thread_stop tn result st else Some (0, st));
          Some (lo_server_free (Ref (st_server st1)) m)
        })"

section \<open>Functions of the server\<close>

definition lo_server_thread_add_method ::
  "alloc \<Rightarrow> server_thread \<Rightarrow> byte list ptr \<Rightarrow> byte list ptr \<Rightarrow> nat \<Rightarrow> nat \<Rightarrow>
   (lo_method ptr \<times> server_thread) option" where
  "lo_server_thread_add_method al st path spec hdl ud = do {
     let s = st_server st;
     (r, ms) \<leftarrow> lo_server_add_method al (sv_methods (ls_core s)) path spec hdl ud;
     Some (r, st\<lparr>st_server := with_core ((ls_core s)\<lparr>sv_methods := ms\<rparr>) s\<rparr>)
   }"

definition lo_server_thread_del_method ::
  "(byte \<Rightarrow> int) \<Rightarrow> server_thread \<Rightarrow> byte list ptr \<Rightarrow> byte list ptr \<Rightarrow> server_thread option" where
  "lo_server_thread_del_method v st path spec = do {
     let s = st_server st;
     ms \<leftarrow> lo_server_del_method v (sv_methods (ls_core s)) path spec;
     Some (st\<lparr>st_server := with_core ((ls_core s)\<lparr>sv_methods := ms\<rparr>) s\<rparr>)
   }"

definition lo_server_thread_get_port :: "server_thread \<Rightarrow> int" where
  "lo_server_thread_get_port st = lo_server_get_port (Ref (st_server st))"

definition lo_server_thread_get_url ::
  "alloc \<Rightarrow> byte list \<Rightarrow> (byte list \<Rightarrow> byte list ptr) \<Rightarrow> server_thread \<Rightarrow>
   (byte list ptr \<times> server_thread) option" where
  "lo_server_thread_get_url al name resolve st = do {
     (url, sp) \<leftarrow> lo_server_get_url al name resolve (Ref (st_server st));
     Some (url, case sp of NULL \<Rightarrow> st | Ref s \<Rightarrow> st\<lparr>st_server := s\<rparr>)
   }"

definition lo_server_thread_get_server :: "server_thread \<Rightarrow> lo_server" where
  "lo_server_thread_get_server st = st_server st"

definition lo_server_thread_events_pending :: "server_thread \<Rightarrow> bool" where
  "lo_server_thread_events_pending st = lo_server_events_pending (sv_queued (ls_core (st_server st)))"

definition lo_server_thread_pp :: "printf \<Rightarrow> server_thread \<Rightarrow> byte list option" where
  "lo_server_thread_pp pf st = lo_server_pp pf (st_server st)"

section \<open>Properties\<close>

text \<open>A thread that was told to stop leaves the server as it was, or ends the call it is in.\<close>

lemma stop_result:
  assumes "thread_inv st" "\<not> st_joining st" "thread_turn tn (st_server st) = Some s"
  shows "\<exists>st1. lo_server_thread_stop tn 0 st = Some (0, st1) \<and> st_thread st1 = Absent \<and>
    st_server st1 = (if st_thread st = Receiving then s else st_server st)"
proof (cases "st_active st")
  case True
  then have "st_thread st = Testing \<or> st_thread st = Receiving"
    using assms by (cases "st_thread st") (auto simp: thread_inv_def)
  then show ?thesis using True assms(3)
    by (auto simp: lo_server_thread_stop_def stop_begin_def stop_end_def thread_func_def eval_nat_numeral Let_def)
next
  case False
  then show ?thesis using assms by (simp add: lo_server_thread_stop_def thread_inv_def)
qed


text \<open>When the thread cannot be joined, its server is released all the same: the thread still exists, and serves it.\<close>

theorem free_ignores_failed_stop:
  assumes "st_active st" "result \<noteq> 0" "st_thread st \<noteq> Absent"
  shows "lo_server_thread_free tn result (Ref st) m = Some (lo_server_free (Ref (st_server st)) m) \<and>
    (\<exists>st1. lo_server_thread_stop tn result st = Some (- result, st1) \<and> st_server st1 = st_server st \<and> st_thread st1 = st_thread st)"
  using assms by (simp add: lo_server_thread_free_def lo_server_thread_stop_def stop_begin_def stop_fails_def Let_def)

section \<open>Witnesses\<close>


end
