(* ===== verification/Select.thy ===== *)
theory Select
  imports Lifetime
begin

text \<open>
  The build of \<open>src/server.c\<close> without \<open>poll\<close>, where \<open>lo_server_recv_raw_stream\<close>, \<open>lo_server_recv\<close> and
  \<open>lo_server_wait\<close> call \<open>select\<close>. The descriptors are below \<open>FD_SETSIZE\<close>, as \<open>FD_SET\<close> asks. What \<open>select\<close>
  leaves in the set is a predicate on descriptors, \<open>None\<close> its failure.
\<close>

section \<open>Receiving from many sockets\<close>

text \<open>The buffers are looked at from the last socket to the first.\<close>

fun scan_buffers_down :: "alloc \<Rightarrow> 'a sockets \<Rightarrow> nat \<Rightarrow> ((byte list \<times> int) ptr \<times> 'a sockets) option" where
  "scan_buffers_down al st 0 = Some (NULL, st)"
| "scan_buffers_down al st (Suc i) =
     (if length (so_contexts st) \<le> i \<or> length (so_fds st) \<le> i then None
      else do {
        (data, sc) \<leftarrow> lo_server_buffer_copy_for_dispatch al (so_contexts st ! i);
        (case data of
           Ref d \<Rightarrow> Some (Ref (d, so_fds st ! i), set_context i sc st)
         | NULL \<Rightarrow> scan_buffers_down al (set_context i sc st) i)
      })"

record 'a select_round =
  sr_ready :: "(int \<Rightarrow> bool) option"
  sr_accept :: "int \<times> 'a"
  sr_rx :: "int \<Rightarrow> rx list"

text \<open>
  The loop over the sockets, first one first, until there is data. It takes at most \<open>n\<close> steps, as many as
  there are sockets at its start: none is added on the way.
\<close>

fun select_loop ::
  "alloc \<Rightarrow> (nat \<Rightarrow> bool) \<Rightarrow> (int \<Rightarrow> bool) \<Rightarrow> 'a select_round \<Rightarrow> nat \<Rightarrow> nat \<Rightarrow> 'a sockets \<Rightarrow> int \<Rightarrow> 'a outcome option" where
  "select_loop al can_alloc ready r 0 i st sock = Some (Returned NULL sock st)"
| "select_loop al can_alloc ready r (Suc n) i st sock =
     (if length (so_fds st) \<le> i then Some (Returned NULL sock st)
      else if length (so_contexts st) \<le> i then None
      else
        let fd = so_fds st ! i in
        if \<not> ready fd then select_loop al can_alloc ready r n (Suc i) st sock
        else if fd = - 1 then Some (Returned NULL fd st)
        else if fd = so_fds st ! 0 then do {
          (j, st') \<leftarrow> lo_server_add_socket can_alloc st (fst (sr_accept r)) (snd (sr_accept r));
          (if j < 0 \<or> length (so_contexts st') \<le> nat j then None
           else Some (Again (set_context (nat j) (init_context (so_contexts st' ! nat j)) st')))
        }
        else do {
          rv \<leftarrow> lo_server_recv_raw_stream_socket al (sr_rx r fd) (so_contexts st ! i);
          st' \<leftarrow> (if rv_closed rv then lo_server_del_socket st (int i) fd else Some (set_context i (rv_sc rv) st));
          (case rv_data rv of
             Ref d \<Rightarrow> Some (Returned (Ref d) fd st')
           | NULL \<Rightarrow> select_loop al can_alloc ready r n (Suc i) st' fd)
        })"

fun recv_raw_stream_select ::
  "alloc \<Rightarrow> (nat \<Rightarrow> bool) \<Rightarrow> 'a select_round list \<Rightarrow> 'a sockets \<Rightarrow> (byte list ptr \<times> int \<times> 'a sockets) option" where
  "recv_raw_stream_select al can_alloc rounds st = do {
     (waiting, st1) \<leftarrow> scan_buffers_down al st (length (so_fds st));
     (case waiting of
        Ref (data, fd) \<Rightarrow> Some (Ref data, fd, st1)
      | NULL \<Rightarrow>
          (case rounds of
             [] \<Rightarrow> None
           | r # rs \<Rightarrow>
               (case sr_ready r of
                  None \<Rightarrow> Some (NULL, - 1, st1)
                | Some ready \<Rightarrow>
                    (case select_loop al can_alloc ready r (length (so_fds st1)) 0 st1 (- 1) of
                       None \<Rightarrow> None
                     | Some (Again st2) \<Rightarrow> recv_raw_stream_select al can_alloc rs st2
                     | Some (Returned data sock st2) \<Rightarrow> Some (data, sock, st2)))))
   }"

section \<open>Receiving\<close>

text \<open>A timeout is in seconds and microseconds; both conversions to integers truncate.\<close>

definition stimeout :: "rat \<Rightarrow> int \<times> int" where
  "stimeout sched_time = (c_trunc sched_time, c_trunc ((sched_time - of_int (c_trunc sched_time)) * 1000000))"

record select_wake =
  sw_ready :: "(int \<Rightarrow> bool) option"
  sw_now :: lo_timetag

fun recv_wait_select ::
  "alloc \<Rightarrow> lo_server \<Rightarrow> rat \<Rightarrow> select_wake list \<Rightarrow> (waited \<times> lo_server \<times> (int \<times> int) list) option" where
  "recv_wait_select al s sched_time [] = do {
     (d, s1) \<leftarrow> before_poll al s sched_time;
     (case d of Ref w \<Rightarrow> Some (w, s1, []) | NULL \<Rightarrow> None)
   }"
| "recv_wait_select al s sched_time (wake # wakes) = do {
     (d, s1) \<leftarrow> before_poll al s sched_time;
     (case d of
        Ref w \<Rightarrow> Some (w, s1, [])
      | NULL \<Rightarrow>
          let t = stimeout (if sched_time > 10 then 10 else sched_time) in
          (case sw_ready wake of
             None \<Rightarrow> Some (W_error, s1, [t])
           | Some ready \<Rightarrow>
               if list_ex ready (so_fds (ls_socks s1)) then Some (W_ready, s1, [t])
               else map_option (\<lambda>(w, s2, ts). (w, s2, t # ts))
                      (recv_wait_select al s1 (ls_delay (sw_now wake) s1) wakes)))
   }"

record select_input =
  si_now :: lo_timetag
  si_wakes :: "select_wake list"
  si_dgram :: "byte list option"
  si_rounds :: "lo_address select_round list"

definition lo_server_recv_select ::
  "env \<Rightarrow> (nat \<Rightarrow> bool) \<Rightarrow> select_input \<Rightarrow> lo_server \<Rightarrow> (int \<times> lo_server) option" where
  "lo_server_recv_select env can_alloc inp s = do {
     (w, s1, _) \<leftarrow> recv_wait_select (e_al env) s (ls_delay (si_now inp) s) (si_wakes inp);
     (case w of
        W_due \<Rightarrow> due_events env s1
      | W_error \<Rightarrow> Some (0, s1)
      | W_data data fd \<Rightarrow> got_data env s1 data fd
      | W_ready \<Rightarrow>
          if ls_protocol s1 = LO_TCP then do {
            (data, sock, socks) \<leftarrow> recv_raw_stream_select (e_al env) can_alloc (si_rounds inp) (ls_socks s1);
            (case data of
               NULL \<Rightarrow> Some (0, s1\<lparr>ls_socks := socks\<rparr>)
             | Ref d \<Rightarrow> got_data env (s1\<lparr>ls_socks := socks\<rparr>) d sock)
          }
          else do {
            data \<leftarrow> lo_server_recv_raw (e_al env) (si_dgram inp);
            (case data of NULL \<Rightarrow> Some (0, s1) | Ref d \<Rightarrow> got_data env s1 d (- 1))
          })
   }"

section \<open>Waiting\<close>

text \<open>
  After a connection was accepted: what is left of the timeout, which \<open>select\<close> may already have changed.
\<close>

definition time_left :: "int \<times> int \<Rightarrow> rat \<Rightarrow> int \<times> int" where
  "time_left tv diff =
     (let sec = fst tv - c_trunc diff;
          usec = c_trunc (of_int (snd tv) - (diff * 1000000 - of_int (c_trunc diff * 1000000)));
          (sec, usec) = (if usec < 0 then (sec - 1, 1000000 + usec) else (sec, usec))
      in if sec < 0 then (0, 0) else (sec, usec))"

record select_arrival =
  sa_then :: lo_timetag
  sa_ready :: "(int \<Rightarrow> bool) option"
  sa_left :: "int \<times> int"
  sa_accept :: "int \<times> lo_address"
  sa_now :: lo_timetag
  sa_delay_now :: lo_timetag

fun wait_select_loop ::
  "(nat \<Rightarrow> bool) \<Rightarrow> lo_server \<Rightarrow> int \<times> int \<Rightarrow> select_arrival list \<Rightarrow> (int \<times> lo_server \<times> (int \<times> int) list) option" where
  "wait_select_loop can_alloc s tv [] =
     (case any_buffered (ls_socks s) 0 (sockets_len s) of Some True \<Rightarrow> Some (1, s, []) | _ \<Rightarrow> None)"
| "wait_select_loop can_alloc s tv (a # as) =
     (case any_buffered (ls_socks s) 0 (sockets_len s) of
        None \<Rightarrow> None
      | Some True \<Rightarrow> Some (1, s, [])
      | Some False \<Rightarrow>
          (case sa_ready a of
             None \<Rightarrow> Some (0, s, [tv])
           | Some ready \<Rightarrow>
               if ls_protocol s = LO_TCP \<and> so_fds (ls_socks s) \<noteq> [] \<and> ready (hd (so_fds (ls_socks s))) then
                 (case lo_server_add_socket can_alloc (ls_socks s) (fst (sa_accept a)) (snd (sa_accept a)) of
                    None \<Rightarrow> None
                  | Some (i, socks) \<Rightarrow>
                      if i < 0 \<or> length (so_contexts socks) \<le> nat i then None
                      else
                        let s1 = s\<lparr>ls_socks := set_context (nat i) (init_context (so_contexts socks ! nat i)) socks\<rparr>
                        in map_option (\<lambda>(r, s2, tvs). (r, s2, tv # tvs))
                             (wait_select_loop can_alloc s1 (time_left (sa_left a) (lo_timetag_diff (sa_now a) (sa_then a))) as))
               else
                 Some (if list_ex ready (so_fds (ls_socks s)) \<or> ls_delay (sa_delay_now a) s < 1 / 100 then 1 else 0, s, [tv])))"

definition lo_server_wait_select ::
  "(nat \<Rightarrow> bool) \<Rightarrow> lo_timetag \<Rightarrow> select_arrival list \<Rightarrow> lo_server \<Rightarrow> int \<Rightarrow> (int \<times> lo_server \<times> (int \<times> int) list) option" where
  "lo_server_wait_select can_alloc now as s timeout =
     (let sched_timeout = c_trunc (ls_delay now s * 1000);
          to = (if timeout > sched_timeout then sched_timeout else timeout);
          sec = c_trunc (of_int to / 1000)
      in wait_select_loop can_alloc s (sec, (to - sec * 1000) * 1000) as)"

section \<open>The two builds\<close>

text \<open>A call of \<open>select\<close> that says what a call of \<open>poll\<close> says.\<close>

definition wake_agrees :: "int list \<Rightarrow> wake \<Rightarrow> select_wake \<Rightarrow> bool" where
  "wake_agrees fds w sw \<longleftrightarrow> (\<exists>ready. sw_ready sw = Some ready \<and> wk_now w = sw_now sw \<and>
     (\<forall>i < length fds. wk_revents w i = (if ready (fds ! i) then Rev_ready else Rev_none)))"

lemma first_event_ready:
  "(\<forall>j. i \<le> j \<and> j < i + n \<longrightarrow> ev j = (if R j then Rev_ready else Rev_none)) \<Longrightarrow>
   first_event ev i n = (if \<exists>j. i \<le> j \<and> j < i + n \<and> R j then Rev_ready else Rev_none)"
proof (induction n arbitrary: i)
  case (Suc n)
  have IH: "first_event ev (Suc i) n = (if \<exists>j. Suc i \<le> j \<and> j < Suc i + n \<and> R j then Rev_ready else Rev_none)"
    using Suc.prems by (intro Suc.IH) auto
  have ev: "ev i = (if R i then Rev_ready else Rev_none)" using Suc.prems by simp
  have split: "i \<le> j \<and> j < i + Suc n \<longleftrightarrow> j = i \<or> Suc i \<le> j \<and> j < Suc i + n" for j by auto
  show ?case
  proof (cases "R i")
    case True
    then have "\<exists>j. i \<le> j \<and> j < i + Suc n \<and> R j" by (intro exI [of _ i]) simp
    then show ?thesis using ev True by simp
  next
    case False
    then have "(\<exists>j. i \<le> j \<and> j < i + Suc n \<and> R j) = (\<exists>j. Suc i \<le> j \<and> j < Suc i + n \<and> R j)"
      using split by metis
    then show ?thesis using ev False IH by simp
  qed
qed simp

lemma first_event_agrees:
  assumes "wake_agrees fds w sw"
  shows "\<exists>ready. sw_ready sw = Some ready \<and> first_event (wk_revents w) 0 (length fds) = (if list_ex ready fds then Rev_ready else Rev_none)"
proof -
  obtain ready where r: "sw_ready sw = Some ready" "\<forall>i < length fds. wk_revents w i = (if ready (fds ! i) then Rev_ready else Rev_none)"
    using assms by (auto simp: wake_agrees_def)
  have "first_event (wk_revents w) 0 (length fds) = (if \<exists>j. 0 \<le> j \<and> j < 0 + length fds \<and> ready (fds ! j) then Rev_ready else Rev_none)"
    using r(2) by (intro first_event_ready) simp
  then show ?thesis using r(1) by (auto simp: list_ex_length)
qed

lemma without_timeout:
  "map_option (\<lambda>(w, s', _). (w, s')) (map_option (\<lambda>(w, s2, ts). (w, s2, x # ts)) z) = map_option (\<lambda>(w, s', _). (w, s')) z"
  by (cases z) auto

lemma recv_wait_agrees:
  "list_all2 (wake_agrees (so_fds (ls_socks s))) wakes swakes \<Longrightarrow>
   map_option (\<lambda>(w, s', _). (w, s')) (recv_wait_select al s t swakes) = map_option (\<lambda>(w, s', _). (w, s')) (recv_wait al s t wakes)"
proof (induction wakes arbitrary: s t swakes)
  case Nil
  then show ?case by (cases "before_poll al s t") (auto split: ptr.splits)
next
  case (Cons w wakes)
  then obtain sw sws where sw: "swakes = sw # sws" "wake_agrees (so_fds (ls_socks s)) w sw"
    "list_all2 (wake_agrees (so_fds (ls_socks s))) wakes sws" by (auto simp: list_all2_Cons1)
  show ?case
  proof (cases "before_poll al s t")
    case (Some ds)
    obtain d s1 where ds: "ds = (d, s1)" by (cases ds)
    then have s1: "so_fds (ls_socks s1) = so_fds (ls_socks s)" using before_poll_keeps Some by blast
    obtain ready where r: "sw_ready sw = Some ready"
      "first_event (wk_revents w) 0 (sockets_len s1) = (if list_ex ready (so_fds (ls_socks s1)) then Rev_ready else Rev_none)"
      using first_event_agrees [OF sw(2)] s1 by (auto simp: sockets_len_def)
    have now: "wk_now w = sw_now sw" using sw(2) by (auto simp: wake_agrees_def)
    have IH: "map_option (\<lambda>(w, s', _). (w, s')) (recv_wait_select al s1 t' sws) = map_option (\<lambda>(w, s', _). (w, s')) (recv_wait al s1 t' wakes)" for t'
      using sw(3) s1 by (intro Cons.IH) simp
    show ?thesis using Some ds r now IH by (cases d) (simp_all add: sw(1) Let_def without_timeout del: option.map_comp map_option.compositionality)
  qed (simp add: sw(1))
qed

text \<open>A round in which one socket of the table is ready, the \<open>i\<close>-th.\<close>

definition one_ready :: "int list \<Rightarrow> nat \<Rightarrow> 'a poll_round \<Rightarrow> 'a select_round \<Rightarrow> bool" where
  "one_ready fds i r sr \<longleftrightarrow> i < length fds \<and> pr_accept r = sr_accept sr \<and> pr_rx r = sr_rx sr \<and>
     (\<forall>j. pr_revents r j = (if j = i then Rev_ready else Rev_none)) \<and>
     (\<exists>ready. sr_ready sr = Some ready \<and> (\<forall>fd \<in> set fds. ready fd \<longleftrightarrow> fd = fds ! i))"

text \<open>No buffer holds a whole message.\<close>

definition nothing_buffered :: "'a sockets \<Rightarrow> bool" where
  "nothing_buffered st \<longleftrightarrow> (\<forall>sc \<in> set (so_contexts st). context_ok sc \<and> \<not> whole_message (content sc))"

lemma scan_down_none:
  assumes "nothing_buffered st" "n \<le> length (so_fds st)" "length (so_fds st) \<le> length (so_contexts st)"
  shows "scan_buffers_down al st n = Some (NULL, st)"
  using assms(2)
proof (induction n)
  case (Suc n)
  have sc: "context_ok (so_contexts st ! n)" "\<not> whole_message (content (so_contexts st ! n))"
    using assms(1,3) Suc.prems by (simp_all add: nothing_buffered_def)
  have "set_context n (so_contexts st ! n) st = st" by (simp add: set_context_def)
  then show ?case using Suc assms(3) copy_none [OF sc, of al] by simp
qed simp

lemma scan_up_none:
  assumes "nothing_buffered st" "length (so_fds st) \<le> length (so_contexts st)"
  shows "scan_buffers al st 0 (length (so_fds st)) = Some (NULL, st)"
  using assms by (intro scan_buffers_none) (simp_all add: nothing_buffered_def)

lemma select_loop_quiet:
  "\<forall>fd \<in> set (drop i (so_fds st)). \<not> ready fd \<Longrightarrow> length (so_fds st) \<le> length (so_contexts st) \<Longrightarrow>
   select_loop al can_alloc ready r n i st sock = Some (Returned NULL sock st)"
proof (induction n arbitrary: i)
  case (Suc n)
  show ?case
  proof (cases "i < length (so_fds st)")
    case True
    then have d: "drop i (so_fds st) = so_fds st ! i # drop (Suc i) (so_fds st)" by (rule Cons_nth_drop_Suc [symmetric])
    then have "select_loop al can_alloc ready r n (Suc i) st sock = Some (Returned NULL sock st)"
      using Suc by simp
    then show ?thesis using Suc.prems True d by (simp add: Let_def)
  qed simp
qed simp

lemma select_loop_skip:
  "\<forall>j < k. \<not> ready (so_fds st ! j) \<Longrightarrow> k \<le> length (so_fds st) \<Longrightarrow> length (so_fds st) \<le> length (so_contexts st) \<Longrightarrow>
   i \<le> k \<Longrightarrow> select_loop al can_alloc ready r (n + (k - i)) i st sock = select_loop al can_alloc ready r n k st sock"
proof (induction "k - i" arbitrary: i)
  case (Suc d)
  then have i: "i < k" by simp
  then have "n + (k - i) = Suc (n + (k - Suc i))" by simp
  moreover have "select_loop al can_alloc ready r (n + (k - Suc i)) (Suc i) st sock = select_loop al can_alloc ready r n k st sock"
    using Suc i by simp
  ultimately show ?case using Suc.prems i by (simp add: Let_def)
qed simp

text \<open>What both loops do in such a round.\<close>

definition one_outcome :: "alloc \<Rightarrow> (nat \<Rightarrow> bool) \<Rightarrow> 'a poll_round \<Rightarrow> nat \<Rightarrow> 'a sockets \<Rightarrow> 'a outcome option" where
  "one_outcome al can_alloc r i st =
     (if i = 0 then do {
        (j, st') \<leftarrow> lo_server_add_socket can_alloc st (fst (pr_accept r)) (snd (pr_accept r));
        (if j < 0 \<or> length (so_contexts st') \<le> nat j then None
         else Some (Again (set_context (nat j) (init_context (so_contexts st' ! nat j)) st')))
      }
      else do {
        rv \<leftarrow> lo_server_recv_raw_stream_socket al (pr_rx r (so_fds st ! i)) (so_contexts st ! i);
        st' \<leftarrow> (if rv_closed rv then lo_server_del_socket st (int i) (so_fds st ! i) else Some (set_context i (rv_sc rv) st));
        Some (Returned (rv_data rv) (so_fds st ! i) st')
      })"

lemma one_fd:
  assumes "sockets_ok st" "i < length (so_fds st)"
  shows "so_fds st ! i \<noteq> - 1" "so_fds st ! i = so_fds st ! 0 \<longleftrightarrow> i = 0" "length (so_fds st) \<le> length (so_contexts st)"
proof -
  have "so_fds st ! i \<in> set (so_fds st)" using assms(2) by simp
  then show "so_fds st ! i \<noteq> - 1" using assms(1) by (auto simp: sockets_ok_def)
  show "so_fds st ! i = so_fds st ! 0 \<longleftrightarrow> i = 0" "length (so_fds st) \<le> length (so_contexts st)"
    using assms by (auto simp: sockets_ok_def nth_eq_iff_index_eq)
qed

text \<open>The table after the socket \<open>i\<close> was read from or closed.\<close>

lemma after_read:
  assumes "sockets_ok st" "0 < i" "i < length (so_fds st)"
    and "(if rv_closed rv then lo_server_del_socket st (int i) (so_fds st ! i) else Some (set_context i (rv_sc rv) st)) = Some st'"
  shows "i \<le> length (so_fds st')" "length (so_fds st') \<le> length (so_contexts st')"
    "set (drop (Suc i) (so_fds st')) \<subseteq> set (so_fds st) - {so_fds st ! i}"
proof -
  have d: "distinct (so_fds st)" using assms(1) by (simp add: sockets_ok_def)
  have fds: "so_fds st' = (if rv_closed rv then take i (so_fds st) @ drop (Suc i) (so_fds st) else so_fds st)"
    "length (so_contexts st') = length (so_contexts st)"
    using assms(4) del_socket_eq [OF assms(1-3), of "int i"] by (auto simp: set_context_def split: if_splits)
  then show "i \<le> length (so_fds st')" "length (so_fds st') \<le> length (so_contexts st')"
    using one_fd(3) [OF assms(1,3)] assms(3) by auto
  have "so_fds st ! i \<notin> set (drop (Suc i) (so_fds st))"
    using d assms(3) by (metis distinct.simps(2) distinct_drop Cons_nth_drop_Suc)
  moreover have "set (drop (Suc i) (so_fds st')) \<subseteq> set (drop (Suc i) (so_fds st))"
  proof (cases "rv_closed rv")
    case True
    then have "drop (Suc i) (so_fds st') = drop 1 (drop (Suc i) (so_fds st))" using fds(1) assms(3) by (simp add: min_def)
    then show ?thesis by (metis set_drop_subset)
  qed (simp add: fds(1))
  moreover have "set (drop (Suc i) (so_fds st)) \<subseteq> set (so_fds st)" by (rule set_drop_subset)
  ultimately show "set (drop (Suc i) (so_fds st')) \<subseteq> set (so_fds st) - {so_fds st ! i}" by blast
qed

lemma poll_loop_outcome:
  assumes "sockets_ok st" "one_ready (so_fds st) i r sr" "n \<le> length (so_fds st)" "i < n"
  shows "poll_loop al can_alloc r n st NULL (- 1) = one_outcome al can_alloc r i st"
  using assms(3,4)
proof (induction n)
  case (Suc n)
  have rev: "pr_revents r j = (if j = i then Rev_ready else Rev_none)" for j using assms(2) by (simp add: one_ready_def)
  note fd = one_fd [OF assms(1)]
  show ?case
  proof (cases "i = n")
    case False
    then show ?thesis using Suc fd(3) [of n] rev by (simp add: Let_def)
  next
    case True
    then have i: "i < length (so_fds st)" using Suc.prems by simp
    have quiet: "poll_loop al can_alloc r i st' d f = Some (Returned d f st')"
      if "(if rv_closed rv then lo_server_del_socket st (int i) (so_fds st ! i) else Some (set_context i (rv_sc rv) st)) = Some st'" "0 < i"
      for st' d f rv
      using after_read [OF assms(1) that(2) i that(1)] rev by (intro poll_loop_quiet) simp_all
    have "poll_loop al can_alloc r (Suc i) st NULL (- 1) = one_outcome al can_alloc r i st"
    proof (cases "i = 0")
      case True
      moreover have "so_contexts st \<noteq> []" using fd(3) [OF i] i by auto
      ultimately show ?thesis using fd(1) [OF i] rev i by (simp add: one_outcome_def Let_def)
    next
      case False
      show ?thesis
      proof (cases "lo_server_recv_raw_stream_socket al (pr_rx r (so_fds st ! i)) (so_contexts st ! i)")
        case (Some rv)
        show ?thesis
        proof (cases "if rv_closed rv then lo_server_del_socket st (int i) (so_fds st ! i) else Some (set_context i (rv_sc rv) st)")
          case (Some st')
          have "poll_loop al can_alloc r i st' (rv_data rv) (so_fds st ! i) = Some (Returned (rv_data rv) (so_fds st ! i) st')"
            using quiet [OF Some] False by simp
          then show ?thesis using fd [OF i] rev i False Some \<open>_ = Some rv\<close>
            by (simp add: one_outcome_def Let_def split del: if_split)
        qed (use fd [OF i] rev i False Some in \<open>simp add: one_outcome_def Let_def split del: if_split\<close>)
      qed (use fd [OF i] rev i False in \<open>simp add: one_outcome_def Let_def\<close>)
    qed
    then show ?thesis using True by simp
  qed
qed simp

lemma select_loop_outcome:
  assumes "sockets_ok st" "one_ready (so_fds st) i r sr" "sr_ready sr = Some ready"
  shows "select_loop al can_alloc ready sr (length (so_fds st)) 0 st (- 1) = one_outcome al can_alloc r i st"
proof -
  have i: "i < length (so_fds st)" and rx: "sr_rx sr = pr_rx r" "sr_accept sr = pr_accept r"
    and ready: "\<forall>fd \<in> set (so_fds st). ready fd \<longleftrightarrow> fd = so_fds st ! i"
    using assms(2,3) by (auto simp: one_ready_def)
  have d: "distinct (so_fds st)" using assms(1) by (simp add: sockets_ok_def)
  note fd = one_fd [OF assms(1) i]
  obtain k where k: "length (so_fds st) = Suc k + i" using i by (metis add.commute add_Suc_right less_imp_Suc_add)
  have before: "\<forall>j < i. \<not> ready (so_fds st ! j)"
    using ready d i by (auto simp: nth_eq_iff_index_eq)
  have "select_loop al can_alloc ready sr (Suc k + (i - 0)) 0 st (- 1) = select_loop al can_alloc ready sr (Suc k) i st (- 1)"
    by (rule select_loop_skip [OF before _ fd(3)]) (use i in simp_all)
  moreover have "select_loop al can_alloc ready sr (Suc k) i st (- 1) = one_outcome al can_alloc r i st"
  proof (cases "i = 0")
    case True
    moreover have "so_contexts st \<noteq> []" "so_fds st ! i \<in> set (so_fds st)" using fd(3) i by auto
    ultimately show ?thesis using fd(1) i ready by (simp add: one_outcome_def Let_def rx)
  next
    case False
    have quiet: "select_loop al can_alloc ready sr k (Suc i) st' f = Some (Returned NULL f st')"
      if "(if rv_closed rv then lo_server_del_socket st (int i) (so_fds st ! i) else Some (set_context i (rv_sc rv) st)) = Some st'" for st' f rv
      using after_read [OF assms(1) _ i that] False ready by (intro select_loop_quiet) auto
    have "ready (so_fds st ! i)" using ready i by simp
    then show ?thesis
    proof (cases "lo_server_recv_raw_stream_socket al (pr_rx r (so_fds st ! i)) (so_contexts st ! i)")
      case (Some rv)
      show ?thesis
      proof (cases "if rv_closed rv then lo_server_del_socket st (int i) (so_fds st ! i) else Some (set_context i (rv_sc rv) st)")
        case (Some st')
        show ?thesis using fd i False Some \<open>_ = Some rv\<close> quiet [OF Some] \<open>ready (so_fds st ! i)\<close>
          by (cases "rv_data rv") (simp_all add: one_outcome_def Let_def rx split del: if_split)
      qed (use fd i False Some \<open>ready (so_fds st ! i)\<close> in \<open>simp add: one_outcome_def Let_def rx split del: if_split\<close>)
    qed (use fd i False in \<open>simp add: one_outcome_def Let_def rx\<close>)
  qed
  ultimately show ?thesis by (simp add: k)
qed

text \<open>
  The rounds of a call: after the listening socket was ready, the next round is on the table with the new
  connection.
\<close>

fun rounds_agree :: "int list \<Rightarrow> 'a poll_round list \<Rightarrow> 'a select_round list \<Rightarrow> bool" where
  "rounds_agree fds [] [] \<longleftrightarrow> True"
| "rounds_agree fds (r # rs) (sr # srs) \<longleftrightarrow>
     (\<exists>i. one_ready fds i r sr \<and>
       (i = 0 \<longrightarrow> fst (pr_accept r) \<notin> set fds \<and> rounds_agree (fds @ [fst (pr_accept r)]) rs srs))"
| "rounds_agree fds _ _ \<longleftrightarrow> False"

lemma init_context_empty: "context_ok (init_context sc) \<and> \<not> whole_message (content (init_context sc))"
  by (simp add: init_context_def context_ok_def content_def whole_message_def)

lemma zero_context_empty: "context_ok zero_context \<and> \<not> whole_message (content zero_context)"
  by (simp add: zero_context_def context_ok_def content_def whole_message_def)

lemma accepted_state:
  assumes "sockets_ok st" "nothing_buffered st" "socket \<notin> set (so_fds st)"
    and "lo_server_add_socket can_alloc st socket a = Some (j, st')" "0 \<le> j"
  shows "sockets_ok (set_context (nat j) (init_context sc) st')" "nothing_buffered (set_context (nat j) (init_context sc) st')"
    "so_fds (set_context (nat j) (init_context sc) st') = so_fds st @ [socket]"
proof -
  note r = add_socket_result [OF assms(1,4,5,3)]
  then show "sockets_ok (set_context (nat j) (init_context sc) st')" "so_fds (set_context (nat j) (init_context sc) st') = so_fds st @ [socket]"
    by simp_all
  have "set (so_contexts st') \<subseteq> insert zero_context (set (so_contexts st))"
    using assms(4,5) by (auto simp: lo_server_add_socket_def Let_def split: if_splits)
  then have "\<forall>c \<in> set (so_contexts st'). context_ok c \<and> \<not> whole_message (content c)"
    using assms(2) zero_context_empty by (auto simp: nothing_buffered_def)
  then show "nothing_buffered (set_context (nat j) (init_context sc) st')"
    using init_context_empty set_update_subset_insert [of "so_contexts st'" "nat j" "init_context sc"]
    by (auto simp: nothing_buffered_def set_context_def)
qed

lemma streams_agree:
  "sockets_ok st \<Longrightarrow> nothing_buffered st \<Longrightarrow> rounds_agree (so_fds st) rs srs \<Longrightarrow>
   recv_raw_stream_select al can_alloc srs st = lo_server_recv_raw_stream al can_alloc rs st"
proof (induction rs arbitrary: srs st)
  case Nil
  then show ?case using scan_down_none [OF Nil.prems(2) order_refl, of al] scan_up_none [OF Nil.prems(2), of al]
    by (cases srs) (simp_all add: sockets_ok_def)
next
  case (Cons r rs)
  obtain sr srs' i where sr: "srs = sr # srs'" "one_ready (so_fds st) i r sr"
    "i = 0 \<longrightarrow> fst (pr_accept r) \<notin> set (so_fds st) \<and> rounds_agree (so_fds st @ [fst (pr_accept r)]) rs srs'"
    using Cons.prems(3) by (cases srs) auto
  obtain ready where ready: "sr_ready sr = Some ready" using sr(2) by (auto simp: one_ready_def)
  have len: "length (so_fds st) \<le> length (so_contexts st)" using Cons.prems(1) by (simp add: sockets_ok_def)
  have next_round: "recv_raw_stream_select al can_alloc srs' st2 = lo_server_recv_raw_stream al can_alloc rs st2"
    if again: "one_outcome al can_alloc r i st = Some (Again st2)" for st2
  proof -
    have i: "i = 0" using again by (auto simp: one_outcome_def split: if_splits bind_splits)
    then obtain j st1 where j: "lo_server_add_socket can_alloc st (fst (pr_accept r)) (snd (pr_accept r)) = Some (j, st1)" "0 \<le> j"
      "st2 = set_context (nat j) (init_context (so_contexts st1 ! nat j)) st1"
      using again by (auto simp: one_outcome_def split: if_splits bind_splits)
    have "fst (pr_accept r) \<notin> set (so_fds st)" using sr(3) i by simp
    from accepted_state [OF Cons.prems(1,2) this j(1,2), of "so_contexts st1 ! nat j", folded j(3)]
    show ?thesis using Cons.IH [of st2 srs'] sr(3) i by (simp del: recv_raw_stream_select.simps lo_server_recv_raw_stream.simps)
  qed
  show ?case
    using scan_down_none [OF Cons.prems(2) order_refl len, of al] scan_up_none [OF Cons.prems(2) len, of al] sr(1) ready
      select_loop_outcome [OF Cons.prems(1) sr(2) ready, of al can_alloc]
      poll_loop_outcome [OF Cons.prems(1) sr(2) order_refl, of al can_alloc] sr(2) next_round
    by (auto simp: one_ready_def split: option.splits outcome.splits)
qed

lemma recv_wait_same:
  assumes "ls_protocol s = LO_TCP \<longrightarrow> sockets_ok (ls_socks s) \<and> nothing_buffered (ls_socks s)"
  shows "recv_wait al s t wakes = Some (w, s1, ts) \<Longrightarrow> s1 = s"
proof (induction wakes arbitrary: t ts)
  case Nil
  then show ?case using assms scan_up_none [of "ls_socks s" al]
    by (auto simp: before_poll_def sockets_len_def sockets_ok_def split: if_splits bind_splits ptr.splits)
next
  case (Cons wake wakes)
  have "before_poll al s t = Some (d, s2) \<Longrightarrow> s2 = s" for d s2
    using assms scan_up_none [of "ls_socks s" al]
    by (auto simp: before_poll_def sockets_len_def sockets_ok_def split: if_splits bind_splits ptr.splits)
  then show ?case using Cons
    by (auto simp: Let_def split: bind_splits ptr.splits revents.splits)
qed

section \<open>Properties\<close>

text \<open>
  C23: The build with \<open>select\<close> and the build with \<open>poll\<close> agree: given calls of \<open>select\<close> that report the same
  as the calls of \<open>poll\<close>, with no more than one socket at a time once a stream server reads, and no whole message
  waiting in a buffer, \<open>lo_server_recv\<close> returns the same and leaves the same server.
\<close>

theorem builds_agree:
  assumes "in_now inp = si_now sinp" "in_dgram inp = si_dgram sinp"
    and "list_all2 (wake_agrees (so_fds (ls_socks s))) (in_wakes inp) (si_wakes sinp)"
    and "ls_protocol s = LO_TCP \<longrightarrow> sockets_ok (ls_socks s) \<and> nothing_buffered (ls_socks s) \<and>
      rounds_agree (so_fds (ls_socks s)) (in_rounds inp) (si_rounds sinp)"
  shows "lo_server_recv_select env can_alloc sinp s = lo_server_recv env can_alloc inp s"
proof -
  let ?poll = "recv_wait (e_al env) s (ls_delay (in_now inp) s) (in_wakes inp)"
  let ?select = "recv_wait_select (e_al env) s (ls_delay (si_now sinp) s) (si_wakes sinp)"
  have same: "map_option (\<lambda>(w, s', _). (w, s')) ?select = map_option (\<lambda>(w, s', _). (w, s')) ?poll"
    using recv_wait_agrees [OF assms(3)] assms(1) by simp
  show ?thesis
  proof (cases ?poll)
    case None
    then show ?thesis using same by (simp add: lo_server_recv_def lo_server_recv_select_def)
  next
    case (Some r)
    obtain w s1 ts where r: "r = (w, s1, ts)" by (cases r)
    then have p: "?poll = Some (w, s1, ts)" using Some by simp
    then have "s1 = s" using assms(4) by (intro recv_wait_same [OF _ p]) simp
    then have p: "?poll = Some (w, s, ts)" using p by simp
    then obtain ts' where q: "?select = Some (w, s, ts')" using same by (cases ?select) auto
    have "recv_raw_stream_select (e_al env) can_alloc (si_rounds sinp) (ls_socks s) =
        lo_server_recv_raw_stream (e_al env) can_alloc (in_rounds inp) (ls_socks s)" if "ls_protocol s = LO_TCP"
      using streams_agree assms(4) that by blast
    then show ?thesis using p q assms(2)
      by (cases w) (simp_all add: lo_server_recv_def lo_server_recv_select_def del: recv_raw_stream_select.simps lo_server_recv_raw_stream.simps)
  qed
qed

text \<open>What is left of a timeout is a timeout, and not more than it was.\<close>

lemma c_trunc_bounds: "0 \<le> r \<Longrightarrow> 0 \<le> c_trunc r" "of_int (c_trunc r) \<le> max 0 r" "- 1 < r - of_int (c_trunc r)" "r - of_int (c_trunc r) < 1"
  "min 0 r \<le> of_int (c_trunc r)"
  by (auto simp: c_trunc_def max_def min_def) linarith+

theorem time_left_valid:
  assumes "0 \<le> fst tv" "0 \<le> snd tv" "snd tv < 1000000" "0 \<le> diff"
  shows "0 \<le> fst (time_left tv diff)" "0 \<le> snd (time_left tv diff)" "snd (time_left tv diff) < 1000000"
    "fst (time_left tv diff) * 1000000 + snd (time_left tv diff) \<le> fst tv * 1000000 + snd tv"
proof -
  define d where "d = c_trunc diff"
  define f where "f = diff * 1000000 - of_int (d * 1000000)"
  define u where "u = c_trunc (of_int (snd tv) - f)"
  have d: "0 \<le> d" "of_int d \<le> diff" "diff < of_int d + 1"
    using c_trunc_bounds [of diff] assms(4) by (simp_all add: d_def)
  have f: "0 \<le> f" "f < 1000000" using d by (simp_all add: f_def)
  have "of_int (- 1000000) < (of_int u :: rat)" "(of_int u :: rat) \<le> of_int (snd tv)"
    using c_trunc_bounds(2,5) [of "of_int (snd tv) - f"] f assms(2) by (auto simp: u_def min_def max_def split: if_splits)
  then have u: "- 1000000 < u" "u \<le> snd tv" by (simp_all only: of_int_less_iff of_int_le_iff)
  have tl: "time_left tv diff = (let (sec, usec) = (if u < 0 then (fst tv - d - 1, 1000000 + u) else (fst tv - d, u))
      in if sec < 0 then (0, 0) else (sec, usec))"
    by (simp add: time_left_def d_def f_def u_def Let_def)
  show "0 \<le> fst (time_left tv diff)" "0 \<le> snd (time_left tv diff)" "snd (time_left tv diff) < 1000000"
    "fst (time_left tv diff) * 1000000 + snd (time_left tv diff) \<le> fst tv * 1000000 + snd tv"
    unfolding tl using u d(1) assms(1-3) by (auto simp: Let_def)
qed

text \<open>
  Where the loop of the build with \<open>poll\<close> drops a message (\<open>second_ready_socket_drops_message\<close>), this one
  stops: the second connection is not read from.
\<close>

theorem select_keeps_second_message:
  assumes "so_fds st = [l, a, b]" "l \<noteq> a" "a \<noteq> - 1" "3 \<le> length (so_contexts st)" "ready = (\<lambda>fd. fd \<noteq> l)"
    and "lo_server_recv_raw_stream_socket al (sr_rx r a) (so_contexts st ! 1) = Some ra" "\<not> rv_closed ra" "rv_data ra = Ref d"
  shows "select_loop al can_alloc ready r 3 0 st (- 1) = Some (Returned (Ref d) a (set_context 1 (rv_sc ra) st))"
proof -
  have "0 < length (so_contexts st)" "1 < length (so_contexts st)" using assms(4) by linarith+
  then show ?thesis using assms by (simp add: numeral_3_eq_3 numeral_2_eq_2 Let_def)
qed

section \<open>Witnesses\<close>

text \<open>A stream server whose connection is ready.\<close>

theorem builds_agree_witness:
  "lo_server_recv_select sample_env (\<lambda>_. True)
     \<lparr>si_now = Timetag 100 0, si_wakes = [\<lparr>sw_ready = Some (\<lambda>fd. fd = 5), sw_now = Timetag 100 0\<rparr>], si_dgram = None,
      si_rounds = [\<lparr>sr_ready = Some (\<lambda>fd. fd = 5), sr_accept = (7, zero_address), sr_rx = (\<lambda>_. [Rx_data (frame ''abc''), Rx_again])\<rparr>]\<rparr>
     (sample_ls LO_TCP) =
   lo_server_recv sample_env (\<lambda>_. True) (sample_input 1 (frame ''abc'')\<lparr>in_dgram := None\<rparr>) (sample_ls LO_TCP)"
proof -
  have st: "so_fds (ls_socks (sample_ls LO_TCP)) = [3, 5]" "nothing_buffered (ls_socks (sample_ls LO_TCP))"
    using zero_context_empty by (simp_all add: sample_ls_def nothing_buffered_def)
  have "wake_agrees [3, 5] \<lparr>wk_revents = (\<lambda>j. if j = 1 then Rev_ready else Rev_none), wk_now = Timetag 100 0\<rparr>
      \<lparr>sw_ready = Some (\<lambda>fd. fd = 5), sw_now = Timetag 100 0\<rparr>"
    by (auto simp: wake_agrees_def less_Suc_eq nth_Cons')
  moreover have "one_ready [3, 5] 1 \<lparr>pr_revents = (\<lambda>j. if j = 1 then Rev_ready else Rev_none), pr_accept = (7, zero_address),
        pr_rx = (\<lambda>_. [Rx_data (frame ''abc''), Rx_again])\<rparr>
      \<lparr>sr_ready = Some (\<lambda>fd. fd = 5), sr_accept = (7, zero_address), sr_rx = (\<lambda>_. [Rx_data (frame ''abc''), Rx_again])\<rparr>"
    by (simp add: one_ready_def)
  then have "rounds_agree [3, 5] [\<lparr>pr_revents = (\<lambda>j. if j = 1 then Rev_ready else Rev_none), pr_accept = (7, zero_address),
        pr_rx = (\<lambda>_. [Rx_data (frame ''abc''), Rx_again])\<rparr>]
      [\<lparr>sr_ready = Some (\<lambda>fd. fd = 5), sr_accept = (7, zero_address), sr_rx = (\<lambda>_. [Rx_data (frame ''abc''), Rx_again])\<rparr>]"
    by (simp, intro exI [of _ 1]) simp
  ultimately show ?thesis
    by (intro builds_agree) (simp_all add: sample_input_def st del: rounds_agree.simps)
qed

end
