(* ===== verification/Spec2Isabelle.thy ===== *)
theory Spec2Isabelle
  imports Selftest Version Errors Reentrant Reactions Send ThreadApi Tools Select
begin

text \<open>
  A verification library for liblo, the Open Sound Control library (C sources under \<open>src/src/\<close>,
  public headers under \<open>src/lo/\<close>). File names below are relative to \<open>src/\<close>.

  \<^bold>\<open>The program.\<close> A client makes a \<^emph>\<open>message\<close> (\<open>src/message.c\<close>) from typed or variable arguments, may
  put messages into nested \<^emph>\<open>bundles\<close> (\<open>src/bundle.c\<close>), and sends either to an \<^emph>\<open>address\<close>
  (\<open>src/address.c\<close>) over UDP, TCP or a UNIX socket (\<open>src/send.c\<close>). A \<^emph>\<open>server\<close> (\<open>src/server.c\<close>) receives
  datagrams, or takes packets out of TCP streams, validates and deserialises them, queues the bundles
  that are not due, and calls the handlers of the \<^emph>\<open>methods\<close> whose paths a message's path selects, by
  the matcher of \<open>src/pattern_match.c\<close>, converting arguments where the types allow it. A server can run
  in a thread of its own (\<open>src/server_thread.c\<close>). The tools \<open>oscsend\<close> and \<open>oscdump\<close> (\<open>src/tools/\<close>) are a client and
  a server for the command line.

  \<^bold>\<open>The theories\<close>, from the bottom:
  \<^item> \<open>Prelude\<close>: C memory, strings and pointers, byte order (\<open>lo/lo_endian.h.in\<close>), type characters, error
    codes; the conventions of the model are in its head.
  \<^item> \<open>Growth\<close>: \<open>lo_pow2_over\<close>, and the locale \<open>growing_buffer\<close>: what a component that appends to a heap
    buffer relies on. Interpreted on the macro (up to \<open>lo_pow2_safe\<close> = 65536 bytes) and on doubling.
  \<^item> \<open>Timetag\<close> (\<open>src/timetag.c\<close>), \<open>Blob\<close> (\<open>src/blob.c\<close>).
  \<^item> \<open>Validate\<close>, \<open>Args\<close>: \<open>lo_validate_*\<close>, \<open>lo_arg_size\<close>, \<open>lo_arg_host_endian\<close>, \<open>lo_arg_network_endian\<close> and the
    loops over the arguments of a message; the locale \<open>arg_layout\<close> is the contract between such a loop and
    what it calls, interpreted for serialisation and for deserialisation.
  \<^item> \<open>Message\<close>: \<open>struct _lo_message\<close> as a record, its operations, and \<open>msg_repr\<close>: a message represents a
    list of abstract arguments. \<open>Wire\<close>: \<open>lo_message_serialise\<close>, \<open>lo_message_deserialise\<close>,
    \<open>lo_validate_bundle\<close> against the OSC form \<open>wire_message\<close>.
  \<^item> \<open>Bundle\<close>: a store of bundles and messages with reference counts, the circularity test, adding,
    measuring, serialising, freeing; \<open>built\<close> are the stores that clients can make.
  \<^item> \<open>Pattern\<close>: \<open>lo_pattern_match\<close> on the memory of its two strings. \<open>Glob\<close>: patterns as syntax trees, the
    reference matcher \<open>gmatch\<close> and, apart from it in one case, the one that the code implements, \<open>smatch\<close>. \<open>Methods\<close>: the method table.
  \<^item> \<open>Queue\<close>: the event queue; the locale \<open>event_queue\<close> is its contract with the dispatcher.
  \<^item> \<open>Coerce\<close>: \<open>lo_coerce\<close> and the loops that build coerced arguments.
  \<^item> \<open>Dispatch\<close>: \<open>dispatch_data\<close>, \<open>dispatch_method\<close>, \<open>dispatch_queued\<close>. \<open>Delivery\<close> is the abstract
    specification (packets as trees) that they refine; \<open>Reactions\<close> says what handlers are called, with
    coercion (on in every new server) or without.
  \<^item> \<open>Reentrant\<close>: the loops of the dispatcher over the nodes of the two lists, for handlers that change the
    server. \<open>Errors\<close>: the error context, with any number of threads as a step relation.
  \<^item> \<open>Stream\<close>: the receive buffer of a connection, length prefixes and SLIP. \<open>Sockets\<close>: the socket table
    and the loop over \<open>poll\<close>.
  \<^item> \<open>Url\<close>, \<open>Address\<close>: URLs (\<open>sscanf\<close> is modelled for the directives they use) and the address object.
  \<^item> \<open>Send\<close>: \<open>send_data\<close>, \<open>create_socket\<close> and the front ends over a recorded list of system calls. \<open>SendFrom\<close>: what
    sending from a server does to the socket table of that server.
  \<^item> \<open>Serving\<close>: the whole server object, \<open>lo_server_recv\<close> and \<open>lo_server_wait\<close>, from \<open>poll\<close> to the handlers; the
    accessors of a server.
  \<^item> \<open>Lifecycle\<close>: \<open>lo_server_new_*\<close>, multicast groups and \<open>lo_server_free\<close> over recorded system calls.
  \<^item> \<open>Lifetime\<close>: \<open>lives\<close> relates a constructed server to every state that any sequence of its operations, sending
    from it included, can bring it to; what holds in all of them.
  \<^item> \<open>ServerThread\<close>: start, stop and the thread's loop as a step relation. A step of the thread that serves is a call
    of \<open>lo_server_recv_noblock\<close> with what the system gives to it (\<open>turn\<close>); a call that does not return is no step.
    Under \<open>calm\<close> answers the call of a server of datagrams returns, after at most 10 ms of waiting.
  \<^item> \<open>Select\<close>: receiving and waiting in the build with \<open>select\<close>, and in how far it agrees with that with \<open>poll\<close>.
  \<^item> \<open>Printing\<close>: \<open>lo_arg_pp\<close>, \<open>lo_message_pp\<close>, \<open>lo_bundle_pp\<close>, \<open>lo_method_pp\<close> (\<open>src/method.c\<close>) and \<open>lo_server_pp\<close>,
    as the bytes they write; the locale \<open>bundle_printer\<close> is the contract between the loop over the elements
    of a bundle and what prints one of them.
  \<^item> \<open>ThreadApi\<close>: constructors, release and the remaining functions of a server thread.
  \<^item> \<open>Tools\<close>: \<open>src/tools/oscsend.c\<close> and \<open>src/tools/oscdump.c\<close>, with \<open>strtol\<close> and the other conversions they use.
  \<^item> \<open>Version\<close>: \<open>lo_version\<close> (\<open>src/version.c\<close>).
  \<^item> \<open>Selftest\<close>: the tests of \<open>src/testlo.c\<close> that need no network, and that they hold in the model.
  \<^item> This theory: properties that span components.

  \<^bold>\<open>Correspondence.\<close> A C struct is a record with the fields of the struct (prefixed), a linked list is a
  list, and an operation that mutates its argument returns it. A definition has the name of the C
  function; helper definitions are its loops or blocks. \<open>None\<close> stands for undefined behaviour (a read
  outside an allocation, a NULL dereference) or a loop that never ends, and an \<open>int\<close> result is that of
  the code. Allocation is an argument (\<open>alloc\<close>): it may fail, and fresh memory has any content; the
  same holds for the rounding of floating point (\<open>rounding\<close>), the handlers and the clock (\<open>env\<close>), the system
  calls of a sender (\<open>os\<close>), the results of \<open>recv\<close>, \<open>poll\<close> and \<open>accept\<close>, and name resolution. Hypotheses about
  them (\<open>alloc_ok\<close>: a block has the size asked for; \<open>alloc_total\<close>: moreover it is always given;
  \<open>full_sends\<close>) are documented behaviour of the C library or the system.

  \<^bold>\<open>What the lemmas show.\<close> Arguments survive the way from the variable arguments to another host of any
  byte order, except characters where the byte orders differ; deserialisation accepts exactly the wire forms and stays
  in bounds but for one case, that of a blob without its size;
  stores of bundles stay acyclic and their serialisation ends; the matcher is the usual one on patterns
  of literals, wildcards, character sets and single words in braces that are not followed by stars alone; a packet with a literal path or such a
  pattern reaches exactly the handlers it should, in order, and a future bundle waits; the event queue is a
  stable sort; TCP streams are reassembled however they are cut; one call of \<open>lo_server_recv\<close> takes a packet
  from \<open>poll\<close> to the handlers and never sleeps past an event, and the build with
  \<open>select\<close> does the same while one socket at a time is ready; a constructed server has one bound
  socket; whatever is done with it, its state stays well formed, no event that is due is missed, and its
  release closes every socket once; the stopped thread of a server of datagrams ends in every interleaving, and
  freeing it returns;
  printing a bundle draws its tree; what \<open>oscsend\<close> is given on its command line, \<open>oscdump\<close> prints; an
  error handler reads the context of its own server. Handlers that only hand over events leave the dispatching
  of a message as it is. Where the code
  falls short of this, a theorem says how: \<open>long_string_overflows\<close>, \<open>missing_blob_overread\<close>, \<open>long_message_hangs\<close>, \<open>slip_special_byte_lost\<close>, \<open>del_socket_shifts_contexts\<close>,
  \<open>second_ready_socket_drops_message\<close>, \<open>ipv6_url_port\<close>, \<open>nodelay_option_stale\<close>,
  \<open>second_alternative_loses_first_character\<close>, \<open>unterminated_negation_overread\<close>,
  \<open>add_method_lost_path_is_generic\<close>, \<open>failed_start_stays_active\<close>, \<open>tcp_turn_blocks\<close>, \<open>free_ignores_failed_stop\<close>,
  \<open>sending_adopts_connection\<close>, \<open>taken_port_leaks_sockets\<close>,
  \<open>generic_method_unprintable\<close>, \<open>stale_errno_rejects\<close>, \<open>word_before_star_needs_more\<close>,
  \<open>self_deletion_reads_freed\<close>, \<open>adding_handler_never_ends\<close>, \<open>posted_event_lost\<close>,
  \<open>error_in_handler_never_returns\<close>, \<open>version_string_unterminated\<close>, \<open>url_without_port_unset\<close>.

  \<^bold>\<open>Fuel.\<close> Only \<open>lo_bundle_length\<close>, \<open>lo_bundle_serialise\<close>, \<open>lo_bundle_free_recursive\<close> and \<open>lo_bundle_pp_internal\<close>, which
  recurse over a graph in the heap, take fuel, one unit per level of nesting. \<open>serialise_bundle_ends\<close> and
  \<open>bundle_printed_as_tree\<close> show that one more than the number of bundles is enough in every store
  that can be built; a message in a bundle of its
  own is sent with 2. \<open>grow_loop\<close> and the loops over \<open>recv\<close> and \<open>poll\<close> have no fuel: that they do not
  return is a value, and so for the loops of \<open>Reentrant\<close>, which a handler can keep going.

  \<^bold>\<open>Not modelled.\<close> The branches for Windows and for IPv6 servers, handlers that dispatch (but for a bundle with one message
  for the future), receive or release the server from within a call, the use of one server by two threads at the same
  time (calls of its functions follow one another), the usage texts of the tools, the tests over the network and the C++ header. The results of system calls that a
  call consumes one after the other (\<open>wakes\<close>, \<open>rounds\<close>, \<open>arrivals\<close>) are given as lists; \<open>None\<close> then also means that
  the list was too short.
\<close>

section \<open>From the variable arguments to the other host\<close>

lemma va_marked:
  assumes "list_all2 (va_arg_of be to_float) ys vs" "list_all arg_ok ys" "\<forall>c. alloc_total (al c)"
    and "args_len ys \<le> lo_pow2_safe"
  shows "\<exists>m. new_varargs_message al be to_float (Ref (map arg_tag ys)) (concat vs @ [Va_marker_a, Va_marker_b]) = Some (0, m) \<and>
    msg_repr be m ys"
proof -
  obtain m0 where m0: "lo_message_new (al 0) = Some (Ref m0)" "msg_repr be m0 []"
    using lo_message_new_repr [of "al 0" be] assms(3) by blast
  obtain m where "msg_repr be m ([] @ ys)"
      "va_loop al be to_float 0 m0 (map arg_tag ys) (concat vs @ [Va_marker_a, Va_marker_b]) 0 =
       Some (False, 0, m, [Va_marker_a, Va_marker_b])"
    using va_loop_args [OF assms(1) m0(2) assms(2), where al = al and count = 0 and ap = "[Va_marker_a, Va_marker_b]" and ret = 0]
      assms(3,4) by auto
  then show ?thesis using m0(1) by (simp add: new_varargs_message_def lo_message_add_varargs_internal_def)
qed

section \<open>A TCP sender and a server\<close>

text \<open>Messages sent one after the other, and the bytes a socket was given.\<close>

fun send_messages :: "bool \<Rightarrow> os \<Rightarrow> (byte list \<times> lo_message) list \<Rightarrow> sending \<Rightarrow> sending option" where
  "send_messages be os [] s = Some s"
| "send_messages be os ((path, m) # ms) s = do {
     (_, s1) \<leftarrow> lo_send_message_from be os path m s;
     send_messages be os ms s1
   }"

definition sent_bytes :: "int \<Rightarrow> os_call list \<Rightarrow> byte list" where
  "sent_bytes sock calls = concat (map (\<lambda>c. case c of C_send fd bs \<Rightarrow> if fd = sock then bs else [] | _ \<Rightarrow> []) calls)"

text \<open>What a server does with the packets it receives on \<open>sock\<close>.\<close>

fun dispatch_each :: "env \<Rightarrow> int \<Rightarrow> byte list list \<Rightarrow> server \<Rightarrow> server option" where
  "dispatch_each env sock [] s = Some s"
| "dispatch_each env sock (d # ds) s = do {
     (_, s1) \<leftarrow> dispatch_data env s d (int (length d)) sock;
     dispatch_each env sock ds s1
   }"

text \<open>A message that can be sent: its path, the message, and the arguments it holds.\<close>

definition outgoing :: "bool \<Rightarrow> byte list \<times> lo_message \<times> osc_arg list \<Rightarrow> bool" where
  "outgoing be = (\<lambda>(path, m, xs). msg_repr be m xs \<and> packet_ok (PMessage path xs) \<and> sendable (wire_message path xs))"

definition full_sends :: "os \<Rightarrow> bool" where
  "full_sends os \<longleftrightarrow> (\<forall>calls fd bs. os_ret os (calls @ [C_send fd bs]) = int (length bs))"

lemma send_one:
  assumes "tcp_ready s sock" "outgoing be (path, m, xs)" "full_sends os" "alloc_total (os_al os)"
  shows "lo_send_message_from be os path m s =
    Some (int (wire_len path xs), sent_on sock (wire_message path xs) s)"
proof -
  have ser: "lo_message_serialise (os_al os) be m path NULL = Some (wire_message path xs, wire_len path xs)"
    using assms(2,4) by (intro lo_message_serialise_new) (simp_all add: outgoing_def)
  have fit: "length (wire_message path xs) \<le> LO_MAX_MSG_SIZE"
    using assms(2) by (simp add: outgoing_def sendable_def LO_MAX_MSG_SIZE_def)
  have full: "os_ret os (calls @ [C_send fd bs]) = int (length bs)"
    "os_ret os (calls @ [c, C_send fd bs]) = int (length bs)" for calls c fd bs
    using assms(3) full_sends_def [of os] by (simp, metis append.assoc append_Cons append_Nil)
  have "send_data os (wire_message path xs) s = Some (int (wire_len path xs), sent_on sock (wire_message path xs) s)"
    using send_data_tcp [OF assms(1) fit, of os] by (simp add: full tcp_calls_def)
  then show ?thesis by (simp add: lo_send_message_from_def ser)
qed

lemma sent_bytes_append [simp]:
  "sent_bytes sock (a @ b) = sent_bytes sock a @ sent_bytes sock b" "sent_bytes sock [] = []"
  by (simp_all add: sent_bytes_def)

lemma sent_bytes_frame: "sent_bytes sock (tcp_calls sock data) = frame data"
  by (simp add: sent_bytes_def tcp_calls_def frame_def)

lemma send_messages_frames:
  assumes "tcp_ready s sock" "list_all (outgoing be) ms" "full_sends os" "alloc_total (os_al os)"
  shows "\<exists>s' calls. send_messages be os (map (\<lambda>(path, m, xs). (path, m)) ms) s = Some s' \<and>
    sd_calls s' = sd_calls s @ calls \<and> sent_bytes sock calls = frames (map (\<lambda>(path, m, xs). wire_message path xs) ms)"
  using assms(1,2)
proof (induction ms arbitrary: s)
  case (Cons pm ms)
  obtain path m xs where pm: "pm = (path, m, xs)" by (cases pm)
  have one: "lo_send_message_from be os path m s = Some (int (wire_len path xs), sent_on sock (wire_message path xs) s)"
    using send_one [OF Cons.prems(1) _ assms(3,4)] Cons.prems(2) pm by simp
  obtain s' calls where "send_messages be os (map (\<lambda>(path, m, xs). (path, m)) ms) (sent_on sock (wire_message path xs) s) = Some s'"
      "sd_calls s' = sd_calls (sent_on sock (wire_message path xs) s) @ calls"
      "sent_bytes sock calls = frames (map (\<lambda>(path, m, xs). wire_message path xs) ms)"
    using Cons.IH [of "sent_on sock (wire_message path xs) s"] Cons.prems sent_on_ready by auto
  then show ?case using one
    by (intro exI [of _ s'] exI [of _ "tcp_calls sock (wire_message path xs) @ calls"])
      (simp add: pm sent_on_def clear_error_def set_addr_def sent_bytes_frame)
qed simp

lemma dispatch_one:
  assumes "packet_ok (PMessage path xs)" "plain_message env s (path, xs)" "methods_ok s" "alloc_total (e_al env)"
  shows "dispatch_data env s (wire_message path xs) (int (wire_len path xs)) sock =
    Some (int (wire_len path xs), react env sock LO_TT_IMMEDIATE (path, xs) s)"
  using dispatch_data_message [OF assms(1,4,3), of "[]" sock] assms
    message_in_reached [of path s xs env sock LO_TT_IMMEDIATE]
  by (simp add: plain_message_def react_def)

lemma dispatch_each_reacts:
  assumes "list_all (\<lambda>(path, xs). packet_ok (PMessage path xs) \<and> plain_message env s (path, xs)) ms"
    and "methods_ok s" "alloc_total (e_al env)"
  shows "dispatch_each env sock (map (\<lambda>(path, xs). wire_message path xs) ms) s =
    Some (fold (react env sock LO_TT_IMMEDIATE) ms s)"
  using assms(1,2)
proof (induction ms arbitrary: s)
  case (Cons pm ms)
  obtain path xs where pm: "pm = (path, xs)" by (cases pm)
  let ?s = "react env sock LO_TT_IMMEDIATE (path, xs) s"
  have "plain_message env ?s = plain_message env s" "methods_ok ?s"
    using Cons.prems by (simp_all add: fun_eq_iff plain_message_def react_def methods_ok_def)
  then show ?case using Cons.IH [of ?s] Cons.prems dispatch_one [of path xs env s sock] assms(3) pm by simp
qed simp

section \<open>Properties\<close>

text \<open>
  C1: The round trip of \<open>lo_send\<close>'s arguments. A type string with the variable arguments that fit it
  makes a message without error; serialised under any path it is the OSC wire form of the arguments,
  and a host of either byte order deserialises it to a message that holds the same arguments. For a character
  what is the same is the cell of four bytes that \<open>lo_message_add_char\<close> made of it: at the byte where \<open>argv->c\<close>
  looks, a receiver of the sender's byte order finds the character, and one of the other finds zero.
\<close>

theorem varargs_roundtrip:
  assumes "list_all2 (va_arg_of be to_float) ys vs" "list_all arg_ok ys" "args_len ys \<le> lo_pow2_safe"
    and "\<forall>c. alloc_total (al c)" "alloc_total al1" "alloc_total al2" "NUL \<notin> set path" "wire_len path ys < 2 ^ 31"
  shows "\<exists>m m'. new_varargs_message al be to_float (Ref (map arg_tag ys)) (concat vs @ [Va_marker_a, Va_marker_b]) = Some (0, m) \<and>
    lo_message_serialise al1 be m path NULL = Some (wire_message path ys, wire_len path ys) \<and>
    lo_message_deserialise al2 be' (wire_message path ys) (wire_len path ys) = Some (Ref m', 0) \<and> msg_repr be' m' ys \<and>
    (\<forall>i c. i < length ys \<and> arg_tag (ys ! i) = CHR ''c'' \<and> vs ! i = [Va_i32 c] \<longrightarrow>
      m_data m' ! args_len (take i ys) = (if be' = be then byte_of c else NUL))"
proof -
  obtain m where m: "new_varargs_message al be to_float (Ref (map arg_tag ys)) (concat vs @ [Va_marker_a, Va_marker_b]) = Some (0, m)"
      "msg_repr be m ys"
    using va_marked [OF assms(1,2,4,3)] by blast
  obtain m' where m': "lo_message_deserialise al2 be' (wire_message path ys) (wire_len path ys) = Some (Ref m', 0)" "msg_repr be' m' ys"
    using deserialise_wire_message [OF assms(7,2,6,8), of be' "[]"] by auto
  have "m_data m' ! args_len (take i ys) = (if be' = be then byte_of c else NUL)"
    if i: "i < length ys" "arg_tag (ys ! i) = CHR ''c''" "vs ! i = [Va_i32 c]" for i c
  proof -
    have "typechar (arg_type (ys ! i)) = typechar LO_CHAR" using i(2) by (simp add: arg_tag_def typechar.simps)
    then obtain w where w: "ys ! i = OChar w" by (cases "ys ! i") (auto simp: typechar_inj)
    have "va_arg_of be to_float (ys ! i) (vs ! i)" using assms(1) i(1) by (rule list_all2_nthD)
    then have "ys ! i = OChar (char_cell be (byte_of c))" using w i(3) by simp
    from msg_repr_char [OF m'(2) i(1) this] show ?thesis .
  qed
  then show ?thesis using m(1) m' lo_message_serialise_new [OF m(2) assms(5), of path] by blast
qed

text \<open>
  C2: From one host's messages to another's handlers. Messages sent one after the other over a
  connected TCP socket, received in pieces of any sizes, are taken out of the stream unchanged and in order,
  and the server reacts to each as to the message that was sent (\<open>react\<close>, as in theorem \<open>message_reaches_handlers\<close>): the
  handlers its path selects and that take its types, directly or after conversion, are called with its
  arguments, in the receiver's byte order, a character being the cell that the sender made of it. With
  coercion the conversions that happen have to be defined (\<open>plain_message\<close>).
\<close>

theorem tcp_end_to_end:
  assumes "tcp_ready sd sock" "list_all (outgoing be) ms" "full_sends os" "alloc_total (os_al os)"
    and "methods_ok s" "list_all (\<lambda>(path, m, xs). plain_message env s (path, xs)) ms"
    and "alloc_total (e_al env)" "alloc_total al"
  shows "\<exists>sd' calls. send_messages be os (map (\<lambda>(path, m, xs). (path, m)) ms) sd = Some sd' \<and>
    sd_calls sd' = sd_calls sd @ calls \<and>
    (\<forall>ks. length (sent_bytes sock calls) \<le> length ks \<longrightarrow>
      (\<exists>received sc. serve al ks (sent_bytes sock calls) (init_context sc0) = Some (received, [], sc) \<and>
        dispatch_each env conn received s =
          Some (fold (react env conn LO_TT_IMMEDIATE) (map (\<lambda>(path, m, xs). (path, xs)) ms) s)))"
proof -
  let ?wire = "map (\<lambda>(path, m, xs). wire_message path xs) ms"
  obtain sd' calls where sd': "send_messages be os (map (\<lambda>(path, m, xs). (path, m)) ms) sd = Some sd'"
      "sd_calls sd' = sd_calls sd @ calls" "sent_bytes sock calls = frames ?wire"
    using send_messages_frames [OF assms(1-4)] by blast
  have "\<exists>sc. serve al ks (frames ?wire) (init_context sc0) = Some (?wire, [], sc)" if "length (frames ?wire) \<le> length ks" for ks
  proof -
    have "context_ok (init_context sc0)" "counted (init_context sc0)" "content (init_context sc0) = []"
      by (simp_all add: init_context_def context_ok_def counted_def content_def)
    moreover have "\<forall>m\<in>set ?wire. sendable m" using assms(2) by (auto simp: list_all_iff outgoing_def)
    ultimately show ?thesis
      using serve_frames [of "init_context sc0" al "frames ?wire" ?wire ks] that assms(8) by (auto simp: whole_message_def)
  qed
  moreover have "dispatch_each env conn ?wire s =
      Some (fold (react env conn LO_TT_IMMEDIATE) (map (\<lambda>(path, m, xs). (path, xs)) ms) s)"
  proof -
    have "list_all (\<lambda>(path, xs). packet_ok (PMessage path xs) \<and> plain_message env s (path, xs)) (map (\<lambda>(path, m, xs). (path, xs)) ms)"
      using assms(2,6) by (auto simp: list_all_iff outgoing_def)
    from dispatch_each_reacts [OF this assms(5,7), of conn] show ?thesis by (simp add: o_def case_prod_unfold)
  qed
  ultimately have "\<exists>received sc. serve al ks (sent_bytes sock calls) (init_context sc0) = Some (received, [], sc) \<and>
      dispatch_each env conn received s = Some (fold (react env conn LO_TT_IMMEDIATE) (map (\<lambda>(path, m, xs). (path, xs)) ms) s)"
    if "length (sent_bytes sock calls) \<le> length ks" for ks
    unfolding sd'(3) using that [unfolded sd'(3)] by blast
  then show ?thesis using sd'(1,2) by blast
qed

section \<open>Witnesses\<close>

text \<open>An integer, a string and a character from a big-endian host to a little-endian one, which reads no character.\<close>

theorem varargs_roundtrip_witness:
  "\<exists>m m'. new_varargs_message (\<lambda>_. al_zero) True (\<lambda>_. 0) (Ref (map arg_tag [OInt32 7, OString ''x'', OChar (char_cell True (byte_of (65 :: u32)))]))
       [Va_i32 7, Va_str ''x'', Va_i32 65, Va_marker_a, Va_marker_b] = Some (0, m) \<and>
     lo_message_deserialise al_zero False (wire_message ''/a'' [OInt32 7, OString ''x'', OChar (char_cell True (byte_of (65 :: u32)))])
       (wire_len ''/a'' [OInt32 7, OString ''x'', OChar (char_cell True (byte_of (65 :: u32)))]) = Some (Ref m', 0) \<and>
     msg_repr False m' [OInt32 7, OString ''x'', OChar (char_cell True (byte_of (65 :: u32)))] \<and> m_data m' ! 8 = NUL"
proof -
  let ?ys = "[OInt32 7, OString ''x'', OChar (char_cell True (byte_of (65 :: u32)))]"
  have len: "wire_len ''/a'' ?ys < 2 ^ 31" by (simp add: wire_len_def lo_strsize_def type_tags_def)
  have at: "args_len (take 2 ?ys) = 8" "?ys ! 2 = OChar (char_cell True (byte_of (65 :: u32)))"
    "[[Va_i32 7], [Va_str ''x''], [Va_i32 65]] ! 2 = [Va_i32 65]"
    by (simp_all add: numeral_2_eq_2 lo_strsize_def)
  have tag: "arg_tag (OChar w) = CHR ''c''" for w by (simp add: arg_tag_def typechar.simps)
  have "\<exists>m m'. new_varargs_message (\<lambda>_. al_zero) True (\<lambda>_. 0) (Ref (map arg_tag ?ys))
        (concat [[Va_i32 7], [Va_str ''x''], [Va_i32 65]] @ [Va_marker_a, Va_marker_b]) = Some (0, m) \<and>
      lo_message_serialise al_zero True m ''/a'' NULL = Some (wire_message ''/a'' ?ys, wire_len ''/a'' ?ys) \<and>
      lo_message_deserialise al_zero False (wire_message ''/a'' ?ys) (wire_len ''/a'' ?ys) = Some (Ref m', 0) \<and> msg_repr False m' ?ys \<and>
      (\<forall>i c. i < length ?ys \<and> arg_tag (?ys ! i) = CHR ''c'' \<and> [[Va_i32 7], [Va_str ''x''], [Va_i32 65]] ! i = [Va_i32 c] \<longrightarrow>
        m_data m' ! args_len (take i ?ys) = (if False = True then byte_of c else NUL))"
    by (rule varargs_roundtrip) (use len in \<open>auto simp: lo_pow2_safe_def lo_strsize_def\<close>)
  then obtain m m' where m: "new_varargs_message (\<lambda>_. al_zero) True (\<lambda>_. 0) (Ref (map arg_tag ?ys))
        (concat [[Va_i32 7], [Va_str ''x''], [Va_i32 65]] @ [Va_marker_a, Va_marker_b]) = Some (0, m)"
      "lo_message_deserialise al_zero False (wire_message ''/a'' ?ys) (wire_len ''/a'' ?ys) = Some (Ref m', 0)" "msg_repr False m' ?ys"
    and c: "\<forall>i c. i < length ?ys \<and> arg_tag (?ys ! i) = CHR ''c'' \<and> [[Va_i32 7], [Va_str ''x''], [Va_i32 65]] ! i = [Va_i32 c] \<longrightarrow>
        m_data m' ! args_len (take i ?ys) = (if False = True then byte_of c else NUL)"
    by blast
  have "m_data m' ! args_len (take 2 ?ys) = NUL" using spec [OF spec [OF c, of 2], of 65] unfolding at(2,3) tag by simp
  then have "m_data m' ! 8 = NUL" unfolding at(1) .
  then show ?thesis using m by (intro exI [of _ m] exI [of _ m']) simp
qed

text \<open>A server on TCP, and a system that takes every byte it is given.\<close>

definition taking_os :: os where
  "taking_os = (sample_os 0)\<lparr>os_ret := (\<lambda>calls. case last calls of C_send fd bs \<Rightarrow> int (length bs) | _ \<Rightarrow> 0)\<rparr>"

theorem tcp_end_to_end_witness:
  "\<exists>sd' calls received sc s'. send_messages True taking_os [(''/a'', sample_message)] (sample_sending LO_TCP) = Some sd' \<and>
     sd_calls sd' = calls \<and>
     serve al_zero (replicate (length (sent_bytes 5 calls)) 2) (sent_bytes 5 calls) (init_context zero_context) = Some (received, [], sc) \<and>
     dispatch_each sample_env 9 received (sample_server\<lparr>sv_protocol := LO_TCP, sv_coerce := True\<rparr>) = Some s'"
proof -
  let ?s = "sample_server\<lparr>sv_protocol := LO_TCP, sv_coerce := True\<rparr>"
  have out: "list_all (outgoing True) [(''/a'', sample_message, [OInt32 7])]"
    using sample_packet_ok sample_repr by (simp add: outgoing_def sendable_def sample_wire_len sample_wire LO_MAX_MSG_SIZE_def)
  have os: "full_sends taking_os" "alloc_total (os_al taking_os)"
    by (simp_all add: full_sends_def taking_os_def sample_os_def)
  have server: "methods_ok ?s" "list_all (\<lambda>(path, m, xs). plain_message sample_env ?s (path, xs)) [(''/a'', sample_message, [OInt32 7])]"
    using sample_setup sample_convertible by (simp_all add: methods_ok_def plain_message_def sample_path sample_server_def)
  have none: "sd_calls (sample_sending LO_TCP) = []" by (simp add: sample_sending_def)
  obtain sd' calls where sent: "send_messages True taking_os [(''/a'', sample_message)] (sample_sending LO_TCP) = Some sd'"
      "sd_calls sd' = calls"
    and all: "\<forall>ks. length (sent_bytes 5 calls) \<le> length ks \<longrightarrow> (\<exists>received sc.
         serve al_zero ks (sent_bytes 5 calls) (init_context zero_context) = Some (received, [], sc) \<and>
         dispatch_each sample_env 9 received ?s = Some (fold (react sample_env 9 LO_TT_IMMEDIATE) [(''/a'', [OInt32 7])] ?s))"
    using tcp_end_to_end [OF sample_ready out os server sample_setup(2) alloc_total_al_zero, of zero_context 9]
    by (auto simp: none simp del: send_messages.simps fold_simps)
  show ?thesis using sent spec [OF all, of "replicate (length (sent_bytes 5 calls)) 2"] by auto
qed

end
